(* ===== verification/Ocr_Python.thy ===== *)
theory Ocr_Python
  imports Complex_Main "HOL-Library.Word" Ocr_Prelude
begin

text \<open>
  The part of Python the engine's code is written in: \<open>str\<close> as a list of code points
  (so that \<open>len\<close>, slices and \<open>find\<close> count what Python counts, and characters beyond
  ASCII are single elements), the dynamically typed values that JSON, YAML and the result
  dictionaries are made of, the exceptions the code raises and catches, and the string
  methods the code calls. Code points are \<open>int\<close>, so that the kernel computes on them in
  binary.
\<close>

subsection \<open>Strings\<close>

type_synonym pystr = "int list"

definition U :: "string \<Rightarrow> pystr" where
  "U s = map of_char s"

lemma U_eq_iff [simp]: "U s = U t \<longleftrightarrow> s = t"
  unfolding U_def by (metis inj_map_eq_map inj_on_def of_char_eq_iff)

lemma U_Nil [simp]: "U [] = []"
  by (simp add: U_def)

lemma U_eq_Nil [simp]: "U s = [] \<longleftrightarrow> s = []" "[] = U s \<longleftrightarrow> s = []"
  by (simp_all add: U_def)

lemma length_U [simp]: "length (U s) = length s"
  by (simp add: U_def)

text \<open>
  \<open>str.isspace\<close> on one character, which is also what \<open>strip\<close> removes and what \<open>\s\<close>
  matches: the characters of bidirectional type WS, B or S, and the separators.
\<close>

definition is_space :: "int \<Rightarrow> bool" where
  "is_space c \<longleftrightarrow> (9 \<le> c \<and> c \<le> 13) \<or> (28 \<le> c \<and> c \<le> 32) \<or> c = 133 \<or> c = 160 \<or> c = 5760 \<or>
     (8192 \<le> c \<and> c \<le> 8202) \<or> c = 8232 \<or> c = 8233 \<or> c = 8239 \<or> c = 8287 \<or> c = 12288"

text \<open>
  The decimal digits (general category Nd), which \<open>\d\<close> matches and \<open>int\<close> accepts: the
  code points of the zeros, each followed by its nine successors (Unicode 15.0, the
  database of Python 3.12).
\<close>

definition nd_zeros :: "int list" where
  "nd_zeros = [1632, 1776, 1984, 2406, 2534, 2662, 2790, 2918, 3046, 3174, 3302, 3430,
     3558, 3664, 3792, 3872, 4160, 4240, 6112, 6160, 6470, 6608, 6784, 6800, 6992, 7088, 7232,
     7248, 42528, 43216, 43264, 43472, 43504, 43600, 44016, 65296, 66720, 68912, 69734, 69872,
     69942, 70096, 70384, 70736, 70864, 71248, 71360, 71472, 71904, 72016, 72784, 73040, 73120,
     73552, 92768, 92864, 93008, 120782, 120792, 120802, 120812, 120822, 123200, 123632, 124144,
     125264, 130032]"

definition digit_val :: "int \<Rightarrow> int option" where
  "digit_val c =
     (if 48 \<le> c \<and> c \<le> 57 then Some (c - 48)
      else if c < 1632 then None
      else first_some (\<lambda>z. if z \<le> c \<and> c \<le> z + 9 then Some (c - z) else None) nd_zeros)"

definition is_digit :: "int \<Rightarrow> bool" where
  "is_digit c \<longleftrightarrow> digit_val c \<noteq> None"

definition is_ascii_digit :: "int \<Rightarrow> bool" where
  "is_ascii_digit c \<longleftrightarrow> 48 \<le> c \<and> c \<le> 57"

lemma ascii_digit_is_digit: "is_ascii_digit c \<Longrightarrow> is_digit c"
  by (simp add: is_ascii_digit_def is_digit_def digit_val_def)

lemma digit_val_range: "digit_val c = Some d \<Longrightarrow> 0 \<le> d \<and> d \<le> 9"
  by (auto simp: digit_val_def split: if_splits dest!: first_some_Some)

text \<open>\<open>s.strip()\<close>, \<open>s.lstrip(chars)\<close>, \<open>s.find(sub)\<close>, \<open>s.startswith(p)\<close>, \<open>s.split(c)\<close>.\<close>

definition py_strip :: "pystr \<Rightarrow> pystr" where
  "py_strip s = rev (dropWhile is_space (rev (dropWhile is_space s)))"

definition py_lstrip :: "pystr \<Rightarrow> pystr \<Rightarrow> pystr" where
  "py_lstrip chars s = dropWhile (\<lambda>c. c \<in> set chars) s"

definition py_startswith :: "pystr \<Rightarrow> pystr \<Rightarrow> bool" where
  "py_startswith s p \<longleftrightarrow> take (length p) s = p"

fun py_find :: "pystr \<Rightarrow> pystr \<Rightarrow> nat option" where
  "py_find [] sub = (if sub = [] then Some 0 else None)"
| "py_find (c # s) sub =
     (if py_startswith (c # s) sub then Some 0 else map_option Suc (py_find s sub))"

fun py_split :: "int \<Rightarrow> pystr \<Rightarrow> pystr list" where
  "py_split sep [] = [[]]"
| "py_split sep (c # s) =
     (if c = sep then [] # py_split sep s
      else (case py_split sep s of [] \<Rightarrow> [[c]] | w # ws \<Rightarrow> (c # w) # ws))"

fun py_join :: "pystr \<Rightarrow> pystr list \<Rightarrow> pystr" where
  "py_join sep [] = []"
| "py_join sep [w] = w"
| "py_join sep (w # v # ws) = w @ sep @ py_join sep (v # ws)"

lemma py_split_ne [simp]: "py_split sep s \<noteq> []"
  by (induction s) (auto split: list.splits)

lemma py_join_split: "py_join [sep] (py_split sep s) = s"
proof (induction s)
  case Nil
  then show ?case by simp
next
  case (Cons c s)
  obtain w ws where w: "py_split sep s = w # ws"
    by (cases "py_split sep s") auto
  with Cons show ?case by (cases ws) auto
qed

lemma py_split_no_sep: "w \<in> set (py_split sep s) \<Longrightarrow> sep \<notin> set w"
  by (induction s arbitrary: w) (auto split: if_splits list.splits)

lemma py_split_no_sep_id: "sep \<notin> set w \<Longrightarrow> py_split sep w = [w]"
  by (induction w) auto

lemma py_find_Some: "py_find s sub = Some i \<Longrightarrow> take (length sub) (drop i s) = sub \<and> i \<le> length s"
  by (induction s sub arbitrary: i rule: py_find.induct)
    (auto simp: py_startswith_def split: if_splits)

text \<open>\<open>s.replace(old, new, count)\<close> for a non-empty \<open>old\<close>; without a count it replaces every occurrence.\<close>

fun py_replace :: "nat \<Rightarrow> pystr \<Rightarrow> pystr \<Rightarrow> pystr \<Rightarrow> pystr" where
  "py_replace 0 old new s = s"
| "py_replace (Suc n) old new s =
     (case py_find s old of
        None \<Rightarrow> s
      | Some k \<Rightarrow> take k s @ new @ py_replace n old new (drop (k + length old) s))"

definition py_replace_all :: "pystr \<Rightarrow> pystr \<Rightarrow> pystr \<Rightarrow> pystr" where
  "py_replace_all old new s = py_replace (length s) old new s"

lemma py_find_prefix: "py_find (old @ s) old = Some 0" if "old \<noteq> []"
  using that by (cases old) (simp_all add: py_startswith_def)

lemma py_replace_prefix: "old \<noteq> [] \<Longrightarrow> py_replace (Suc n) old new (old @ s) = new @ py_replace n old new s"
  by (simp add: py_find_prefix)

lemma py_find_None: "py_find s sub = None \<Longrightarrow> i \<le> length s \<Longrightarrow> take (length sub) (drop i s) \<noteq> sub"
proof (induction s sub arbitrary: i rule: py_find.induct)
  case (1 sub)
  then show ?case by (auto split: if_splits)
next
  case (2 c s sub)
  then show ?case by (cases i) (auto simp: py_startswith_def split: if_splits)
qed

lemma py_strip_ends:
  assumes "py_strip s \<noteq> []"
  shows "\<not> is_space (hd (py_strip s)) \<and> \<not> is_space (last (py_strip s))"
proof -
  let ?l = "dropWhile is_space s" and ?r = "dropWhile is_space (rev (dropWhile is_space s))"
  have r: "?r \<noteq> []" using assms by (simp add: py_strip_def)
  then have "\<not> is_space (hd ?r)" by (rule hd_dropWhile)
  then have 1: "\<not> is_space (last (py_strip s))" by (simp add: py_strip_def last_rev)
  have "?l \<noteq> []" using r by force
  then have hl: "\<not> is_space (hd ?l)" by (rule hd_dropWhile)
  obtain u where u: "rev ?l = u @ ?r" by (metis takeWhile_dropWhile_id)
  then have "?l = rev ?r @ rev u" by (metis rev_append rev_rev_ident)
  moreover have "rev ?r \<noteq> []" using r by (simp only: rev_is_Nil_conv not_False_eq_True)
  ultimately have "hd ?l = hd (rev ?r)" by (metis hd_append2)
  with hl 1 show ?thesis by (simp add: py_strip_def)
qed

lemma py_strip_ends_id:
  "w \<noteq> [] \<Longrightarrow> \<not> is_space (hd w) \<Longrightarrow> \<not> is_space (last w) \<Longrightarrow> py_strip w = w"
proof -
  assume w: "w \<noteq> []" and h: "\<not> is_space (hd w)" and l: "\<not> is_space (last w)"
  have "dropWhile is_space w = w" using w h by (cases w) auto
  moreover have "dropWhile is_space (rev w) = rev w" using w l by (cases w rule: rev_cases) auto
  ultimately show "py_strip w = w" by (simp add: py_strip_def)
qed

subsection \<open>Integers as text\<close>

text \<open>\<open>str(n)\<close>: the decimal digits, most significant first.\<close>

function dec_digits :: "int \<Rightarrow> pystr" where
  "dec_digits n = (if n < 10 then [48 + n] else dec_digits (n div 10) @ [48 + n mod 10])"
  by pat_completeness auto
termination
  by (relation "measure nat") auto

declare dec_digits.simps [simp del]

definition int_str :: "int \<Rightarrow> pystr" where
  "int_str n = (if n < 0 then 45 # dec_digits (- n) else dec_digits n)"

definition digits_value :: "pystr \<Rightarrow> int" where
  "digits_value s = foldl (\<lambda>v c. 10 * v + (case digit_val c of Some d \<Rightarrow> d | None \<Rightarrow> 0)) 0 s"

text \<open>
  \<open>int(s)\<close> on a string: surrounding white space (without the four ASCII separators), one
  sign, decimal digits of any script with single underscores between them, and at most 4300
  digits (the interpreter's default limit); \<open>None\<close> is the \<open>ValueError\<close>.
\<close>

definition int_space :: "int \<Rightarrow> bool" where
  "int_space c \<longleftrightarrow> is_space c \<and> \<not> (28 \<le> c \<and> c \<le> 31)"

definition max_str_digits :: nat where
  "max_str_digits = 4300"

definition py_int :: "pystr \<Rightarrow> int option" where
  "py_int s =
     (let t = rev (dropWhile int_space (rev (dropWhile int_space s)));
          body = (case t of c # u \<Rightarrow> if c = 45 \<or> c = 43 then u else t | [] \<Rightarrow> []);
          parts = py_split 95 body;
          v = digits_value (concat parts)
      in if list_all (\<lambda>w. w \<noteq> [] \<and> list_all is_digit w) parts
              \<and> length (concat parts) \<le> max_str_digits
         then Some (case t of c # u \<Rightarrow> if c = 45 then - v else v | [] \<Rightarrow> v)
         else None)"

lemma digits_value_Nil [simp]: "digits_value [] = 0"
  by (simp add: digits_value_def)

lemma digits_value_snoc:
  "digits_value (s @ [c]) = 10 * digits_value s + (case digit_val c of Some d \<Rightarrow> d | None \<Rightarrow> 0)"
  by (simp add: digits_value_def)

lemma digits_value_nonneg: "0 \<le> digits_value s"
proof (induction s rule: rev_induct)
  case Nil
  then show ?case by simp
next
  case (snoc c s)
  have "0 \<le> (case digit_val c of Some d \<Rightarrow> d | None \<Rightarrow> 0)"
    using digit_val_range [of c] by (auto split: option.splits)
  with snoc show ?case by (simp add: digits_value_snoc)
qed

lemma digits_value_bound: "digits_value s < 10 ^ length s"
proof (induction s rule: rev_induct)
  case Nil
  then show ?case by simp
next
  case (snoc c s)
  have "(case digit_val c of Some d \<Rightarrow> d | None \<Rightarrow> 0) \<le> 9"
    using digit_val_range [of c] by (auto split: option.splits)
  with snoc show ?case by (simp add: digits_value_snoc)
qed

lemma dec_digits_ne [simp]: "dec_digits n \<noteq> []"
  by (subst dec_digits.simps) simp

lemma dec_digits_ascii: "0 \<le> n \<Longrightarrow> list_all is_ascii_digit (dec_digits n)"
proof (induction n rule: dec_digits.induct)
  case (1 n)
  show ?case
  proof (cases "n < 10")
    case True
    with 1(2) show ?thesis by (subst dec_digits.simps) (simp add: is_ascii_digit_def)
  next
    case False
    with 1 have "list_all is_ascii_digit (dec_digits (n div 10))" by simp
    moreover have "is_ascii_digit (48 + n mod 10)" by (simp add: is_ascii_digit_def)
    ultimately show ?thesis using False by (subst dec_digits.simps) simp
  qed
qed

lemma digits_value_dec: "0 \<le> n \<Longrightarrow> digits_value (dec_digits n) = n"
proof (induction n rule: dec_digits.induct)
  case (1 n)
  have d: "digit_val (48 + k) = Some k" if "0 \<le> k" "k < 10" for k
    using that by (simp add: digit_val_def)
  show ?case
  proof (cases "n < 10")
    case True
    with 1(2) d [of n] show ?thesis
      by (subst dec_digits.simps) (simp add: digits_value_def)
  next
    case False
    with 1 have "digits_value (dec_digits (n div 10)) = n div 10" by simp
    with False 1(2) d [of "n mod 10"] show ?thesis
      by (subst dec_digits.simps) (simp add: digits_value_snoc)
  qed
qed

text \<open>\<open>repr\<close> of a string. Characters above Latin-1 are taken as printable.\<close>

definition hex_char :: "int \<Rightarrow> int" where
  "hex_char d = (if d < 10 then 48 + d else 87 + d)"

definition repr_char :: "int \<Rightarrow> int \<Rightarrow> pystr" where
  "repr_char q c =
     (if c = q \<or> c = 92 then [92, c]
      else if c = 10 then [92, 110]
      else if c = 13 then [92, 114]
      else if c = 9 then [92, 116]
      else if c < 32 \<or> (127 \<le> c \<and> c \<le> 160) \<or> c = 173
           then [92, 120, hex_char (c div 16), hex_char (c mod 16)]
      else [c])"

definition py_repr :: "pystr \<Rightarrow> pystr" where
  "py_repr s =
     (let q = (if 39 \<in> set s \<and> 34 \<notin> set s then 34 else 39)
      in [q] @ concat (map (repr_char q) s) @ [q])"

subsection \<open>Dynamically typed values\<close>

text \<open>
  The values JSON and YAML decode to and the dictionaries the code builds. A dictionary is
  the list of its items in insertion order (the first entry of a key counts, and the code
  never inserts a key twice). \<open>PUuid\<close> is a \<open>uuid.UUID\<close> object: no JSON or YAML text
  decodes to one, and \<open>json.dumps\<close> refuses it.
\<close>

type_synonym uuid = "128 word"

datatype pyv =
    PNone
  | PBool bool
  | PInt int
  | PFloat rat
  | PStr pystr
  | PUuid uuid
  | PList "pyv list"
  | PDict "(pystr \<times> pyv) list"

datatype exn =
    ValueError pystr
  | TypeError pystr
  | AttributeError pystr
  | KeyError pystr
  | IndexError
  | NotImplementedError pystr
  | RuntimeError pystr
  | HTTPError pystr
  | TimeoutError pystr
  | StorageObjectMissing pystr
  | UnsupportedFileType pystr
  | ResourceLimit pystr
  | ProviderPermanentError pystr
  | ProviderTransientError pystr
  | DocumentFailed pystr pystr
  | TransientJobError pystr
  | LibraryError pystr
  | CancelledError

text \<open>\<open>str(exc)\<close>.\<close>

fun exn_str :: "exn \<Rightarrow> pystr" where
  "exn_str (ValueError m) = m"
| "exn_str (TypeError m) = m"
| "exn_str (AttributeError m) = m"
| "exn_str (KeyError m) = py_repr m"
| "exn_str IndexError = U ''list index out of range''"
| "exn_str (NotImplementedError m) = m"
| "exn_str (RuntimeError m) = m"
| "exn_str (HTTPError m) = m"
| "exn_str (TimeoutError m) = m"
| "exn_str (StorageObjectMissing m) = m"
| "exn_str (UnsupportedFileType m) = m"
| "exn_str (ResourceLimit m) = m"
| "exn_str (ProviderPermanentError m) = m"
| "exn_str (ProviderTransientError m) = m"
| "exn_str (DocumentFailed c m) = c @ U '': '' @ m"
| "exn_str (TransientJobError m) = m"
| "exn_str (LibraryError m) = m"
| "exn_str CancelledError = []"

type_synonym 'a res = "exn + 'a"

text \<open>\<open>bool(v)\<close>, \<open>v.get(k, d)\<close>, \<open>v[k]\<close> and iteration over \<open>v\<close>.\<close>

fun truthy :: "pyv \<Rightarrow> bool" where
  "truthy PNone = False"
| "truthy (PBool b) = b"
| "truthy (PInt n) = (n \<noteq> 0)"
| "truthy (PFloat x) = (x \<noteq> 0)"
| "truthy (PStr s) = (s \<noteq> [])"
| "truthy (PUuid _) = True"
| "truthy (PList xs) = (xs \<noteq> [])"
| "truthy (PDict kvs) = (kvs \<noteq> [])"

definition no_attr :: "string \<Rightarrow> string \<Rightarrow> exn" where
  "no_attr cls a = AttributeError (py_repr (U cls) @ U '' object has no attribute '' @ py_repr (U a))"

fun py_class :: "pyv \<Rightarrow> string" where
  "py_class PNone = ''NoneType''"
| "py_class (PBool _) = ''bool''"
| "py_class (PInt _) = ''int''"
| "py_class (PFloat _) = ''float''"
| "py_class (PStr _) = ''str''"
| "py_class (PUuid _) = ''UUID''"
| "py_class (PList _) = ''list''"
| "py_class (PDict _) = ''dict''"

fun py_get :: "pyv \<Rightarrow> pystr \<Rightarrow> pyv \<Rightarrow> pyv res" where
  "py_get (PDict kvs) k d = Inr (case map_of kvs k of None \<Rightarrow> d | Some v \<Rightarrow> v)"
| "py_get v k d = Inl (no_attr (py_class v) ''get'')"

fun py_item :: "pyv \<Rightarrow> pystr \<Rightarrow> pyv res" where
  "py_item (PDict kvs) k = (case map_of kvs k of None \<Rightarrow> Inl (KeyError k) | Some v \<Rightarrow> Inr v)"
| "py_item (PList _) k = Inl (TypeError (U ''list indices must be integers or slices, not str''))"
| "py_item (PStr _) k = Inl (TypeError (U ''string indices must be integers, not '' @ py_repr (U ''str'')))"
| "py_item v k = Inl (TypeError (py_repr (U (py_class v)) @ U '' object is not subscriptable''))"

fun py_iter :: "pyv \<Rightarrow> pyv list res" where
  "py_iter (PList xs) = Inr xs"
| "py_iter (PStr s) = Inr (map (\<lambda>c. PStr [c]) s)"
| "py_iter (PDict kvs) = Inr (map (\<lambda>kv. PStr (fst kv)) kvs)"
| "py_iter v = Inl (TypeError (py_repr (U (py_class v)) @ U '' object is not iterable''))"

text \<open>\<open>v or d\<close>.\<close>

definition py_or :: "pyv \<Rightarrow> pyv \<Rightarrow> pyv" where
  "py_or v d = (if truthy v then v else d)"

text \<open>
  What the development does not model of the interpreter: \<open>str.lower\<close> and \<open>str.upper\<close> (the case
  tables of Unicode), the shortest decimal text of a float, and \<open>float(s)\<close> on text.
\<close>

record interp =
  i_lower :: "pystr \<Rightarrow> pystr"
  i_upper :: "pystr \<Rightarrow> pystr"
  i_float_repr :: "rat \<Rightarrow> pystr"
  i_float_of_str :: "pystr \<Rightarrow> rat option"

text \<open>\<open>str(uuid)\<close>: 32 lower-case hexadecimal digits in groups of 8, 4, 4, 4 and 12.\<close>

definition hex_digits :: "nat \<Rightarrow> int \<Rightarrow> pystr" where
  "hex_digits w n = map (\<lambda>i. hex_char (n div 16 ^ (w - 1 - i) mod 16)) [0..<w]"

definition uuid_str :: "uuid \<Rightarrow> pystr" where
  "uuid_str u =
     (let h = hex_digits 32 (uint u)
      in take 8 h @ [45] @ take 4 (drop 8 h) @ [45] @ take 4 (drop 12 h) @ [45]
           @ take 4 (drop 16 h) @ [45] @ drop 20 h)"

fun py_repr_v :: "interp \<Rightarrow> pyv \<Rightarrow> pystr" where
  "py_repr_v I PNone = U ''None''"
| "py_repr_v I (PBool b) = (if b then U ''True'' else U ''False'')"
| "py_repr_v I (PInt n) = int_str n"
| "py_repr_v I (PFloat x) = i_float_repr I x"
| "py_repr_v I (PStr s) = py_repr s"
| "py_repr_v I (PUuid u) = U ''UUID('' @ py_repr (uuid_str u) @ U '')''"
| "py_repr_v I (PList xs) = U ''['' @ py_join (U '', '') (map (py_repr_v I) xs) @ U '']''"
| "py_repr_v I (PDict kvs) =
     U ''{'' @ py_join (U '', '') (map (\<lambda>(k, v). py_repr k @ U '': '' @ py_repr_v I v) kvs) @ U ''}''"

definition py_str :: "interp \<Rightarrow> pyv \<Rightarrow> pystr" where
  "py_str I v =
     (case v of PStr s \<Rightarrow> s | PUuid u \<Rightarrow> uuid_str u | _ \<Rightarrow> py_repr_v I v)"

text \<open>
  \<open>json.dumps(v)\<close>: the encoder's \<open>default\<close> raises \<open>TypeError\<close> for an object of any other
  class. The JSON text is represented by the value it decodes to.
\<close>

fun serialisable :: "pyv \<Rightarrow> bool" where
  "serialisable (PUuid _) = False"
| "serialisable (PList xs) = list_all serialisable xs"
| "serialisable (PDict kvs) = list_all (\<lambda>(k, v). serialisable v) kvs"
| "serialisable _ = True"

definition json_dumps :: "pyv \<Rightarrow> pyv res" where
  "json_dumps v =
     (if serialisable v then Inr v
      else Inl (TypeError (U ''Object of type UUID is not JSON serializable'')))"

lemma json_dumps_Inr: "json_dumps v = Inr w \<longleftrightarrow> serialisable v \<and> w = v"
  by (auto simp: json_dumps_def)

end
