(* ===== verification/Ocr_Regex.thy ===== *)
theory Ocr_Regex
  imports Ocr_Python
begin

text \<open>
  The backtracking matcher behind \<open>re.search\<close>. A compiled pattern is a term of \<open>re\<close>
  whose character classes are tests (so \<open>re.IGNORECASE\<close> is part of the class). The meaning
  of a pattern is the list of all its matches from a position in the order in which the
  matcher tries them; \<open>re\<close> takes the first. A position is the text before it (reversed,
  for the lookbehind), the text after it and the groups captured so far.
\<close>

subsection \<open>Patterns and positions\<close>

datatype re =
    REps
  | RChr "int \<Rightarrow> bool"
  | RSeq re re
  | RAlt re re
  | ROpt re
  | RStar re
  | RRep nat nat re
  | RGroup nat re
  | RNotBehind "int \<Rightarrow> bool"
  | RNotAhead "int \<Rightarrow> bool"

abbreviation RPlus :: "re \<Rightarrow> re" where
  "RPlus r \<equiv> RSeq r (RStar r)"

fun rseqs :: "re list \<Rightarrow> re" where
  "rseqs [] = REps"
| "rseqs [r] = r"
| "rseqs (r # s # rs) = RSeq r (rseqs (s # rs))"

definition rlit :: "int \<Rightarrow> re" where
  "rlit c = RChr (\<lambda>d. d = c)"

type_synonym caps = "(nat \<times> pystr) list"

record mpos =
  pre :: pystr
  rest :: pystr
  caps :: caps

subsection \<open>The matches of a pattern, in the order of preference\<close>

text \<open>
  A greedy loop tries the body first and stops where it cannot go on; an iteration that
  consumes nothing ends it. The fuel is the length of the rest, which every iteration
  shortens.
\<close>

fun star_iter :: "(mpos \<Rightarrow> mpos list) \<Rightarrow> nat \<Rightarrow> mpos \<Rightarrow> mpos list" where
  "star_iter f 0 st = [st]"
| "star_iter f (Suc n) st =
     concat (map (star_iter f n) (filter (\<lambda>s. length (rest s) < length (rest st)) (f st))) @ [st]"

fun rep_iter :: "(mpos \<Rightarrow> mpos list) \<Rightarrow> nat \<Rightarrow> nat \<Rightarrow> mpos \<Rightarrow> mpos list" where
  "rep_iter f 0 0 st = [st]"
| "rep_iter f 0 (Suc n) st = concat (map (rep_iter f 0 n) (f st)) @ [st]"
| "rep_iter f (Suc m) n st = concat (map (rep_iter f m (n - 1)) (f st))"

definition chr_step :: "(int \<Rightarrow> bool) \<Rightarrow> mpos \<Rightarrow> mpos list" where
  "chr_step p st =
     (case rest st of [] \<Rightarrow> []
      | c # cs \<Rightarrow> if p c then [st\<lparr>pre := c # pre st, rest := cs\<rparr>] else [])"

definition consumed :: "mpos \<Rightarrow> mpos \<Rightarrow> pystr" where
  "consumed st st' = take (length (rest st) - length (rest st')) (rest st)"

primrec rmatches :: "re \<Rightarrow> mpos \<Rightarrow> mpos list" where
  "rmatches REps st = [st]"
| "rmatches (RChr p) st = chr_step p st"
| "rmatches (RSeq r s) st = concat (map (rmatches s) (rmatches r st))"
| "rmatches (RAlt r s) st = rmatches r st @ rmatches s st"
| "rmatches (ROpt r) st = rmatches r st @ [st]"
| "rmatches (RStar r) st = star_iter (rmatches r) (length (rest st)) st"
| "rmatches (RRep m n r) st = rep_iter (rmatches r) m n st"
| "rmatches (RGroup k r) st =
     map (\<lambda>st'. st'\<lparr>caps := (k, consumed st st') # caps st'\<rparr>) (rmatches r st)"
| "rmatches (RNotBehind p) st =
     (case pre st of [] \<Rightarrow> [st] | c # _ \<Rightarrow> if p c then [] else [st])"
| "rmatches (RNotAhead p) st =
     (case rest st of [] \<Rightarrow> [st] | c # _ \<Rightarrow> if p c then [] else [st])"

text \<open>
  \<open>pattern.search(text)\<close>: the first match at the leftmost position that has one. The
  result is the start of the match and its end; \<open>match.group(0)\<close> is what lies between.
\<close>

fun rsearch_from :: "re \<Rightarrow> pystr \<Rightarrow> pystr \<Rightarrow> (mpos \<times> mpos) option" where
  "rsearch_from r p [] =
     (case rmatches r \<lparr>pre = p, rest = [], caps = []\<rparr> of
        s # _ \<Rightarrow> Some (\<lparr>pre = p, rest = [], caps = []\<rparr>, s) | [] \<Rightarrow> None)"
| "rsearch_from r p (c # cs) =
     (case rmatches r \<lparr>pre = p, rest = c # cs, caps = []\<rparr> of
        s # _ \<Rightarrow> Some (\<lparr>pre = p, rest = c # cs, caps = []\<rparr>, s)
      | [] \<Rightarrow> rsearch_from r (c # p) cs)"

definition re_search :: "re \<Rightarrow> pystr \<Rightarrow> (mpos \<times> mpos) option" where
  "re_search r inp = rsearch_from r [] inp"

definition group0 :: "mpos \<times> mpos \<Rightarrow> pystr" where
  "group0 m = consumed (fst m) (snd m)"

definition group_of :: "mpos \<times> mpos \<Rightarrow> nat \<Rightarrow> pystr option" where
  "group_of m k = map_of (caps (snd m)) k"

subsection \<open>A match consumes a prefix of the rest\<close>

definition advances :: "mpos \<Rightarrow> mpos \<Rightarrow> pystr \<Rightarrow> bool" where
  "advances st st' w \<longleftrightarrow> rest st = w @ rest st' \<and> pre st' = rev w @ pre st"

lemma advances_refl: "advances st st []"
  by (simp add: advances_def)

lemma advances_trans: "advances a b u \<Longrightarrow> advances b c v \<Longrightarrow> advances a c (u @ v)"
  by (simp add: advances_def)

lemma consumed_advances: "advances st st' w \<Longrightarrow> consumed st st' = w"
  by (simp add: advances_def consumed_def)

text \<open>
  The words of a pattern, with the assertions ignored: every match consumes one of them.
\<close>

primrec re_lang :: "re \<Rightarrow> pystr set" where
  "re_lang REps = {[]}"
| "re_lang (RChr p) = {[c] |c. p c}"
| "re_lang (RSeq r s) = {u @ v |u v. u \<in> re_lang r \<and> v \<in> re_lang s}"
| "re_lang (RAlt r s) = re_lang r \<union> re_lang s"
| "re_lang (ROpt r) = insert [] (re_lang r)"
| "re_lang (RStar r) = {concat ws |ws. set ws \<subseteq> re_lang r}"
| "re_lang (RRep m n r) = {concat ws |ws. set ws \<subseteq> re_lang r \<and> m \<le> length ws \<and> length ws \<le> max m n}"
| "re_lang (RGroup k r) = re_lang r"
| "re_lang (RNotBehind p) = {[]}"
| "re_lang (RNotAhead p) = {[]}"

lemma lang_SeqE:
  assumes "w \<in> re_lang (RSeq r s)"
  obtains u v where "w = u @ v" and "u \<in> re_lang r" and "v \<in> re_lang s"
  using assms by auto

lemma lang_PlusE:
  assumes "w \<in> re_lang (RPlus r)"
  obtains u ws where "w = u @ concat ws" and "u \<in> re_lang r" and "set ws \<subseteq> re_lang r"
  using assms by auto

lemma concat_chr_words:
  "set ws \<subseteq> {[c] |c. p c} \<Longrightarrow> list_all p (concat ws) \<and> length (concat ws) = length ws"
  by (induction ws) auto

lemma lang_star_chr: "w \<in> re_lang (RStar (RChr p)) \<Longrightarrow> list_all p w"
  using concat_chr_words [of _ p] by auto

lemma lang_plus_chr: "w \<in> re_lang (RPlus (RChr p)) \<Longrightarrow> w \<noteq> [] \<and> list_all p w"
  by (erule lang_PlusE) (use concat_chr_words [of _ p] in auto)

lemma lang_rep_chr:
  assumes "w \<in> re_lang (RRep m n (RChr p))"
  shows "list_all p w \<and> m \<le> length w \<and> length w \<le> max m n"
proof -
  obtain ws where "w = concat ws" and "set ws \<subseteq> {[c] |c. p c}" and "m \<le> length ws" "length ws \<le> max m n"
    using assms by auto
  with concat_chr_words [of ws p] show ?thesis by simp
qed

lemma star_iter_lang:
  assumes f: "\<And>s t. t \<in> set (f s) \<Longrightarrow> \<exists>w \<in> L. advances s t w"
  shows "t \<in> set (star_iter f n s) \<Longrightarrow> \<exists>ws. set ws \<subseteq> L \<and> advances s t (concat ws)"
proof (induction n arbitrary: s)
  case 0
  then show ?case by (intro exI [of _ "[]"]) (simp add: advances_refl)
next
  case (Suc n)
  show ?case
  proof (cases "t = s")
    case True
    then show ?thesis by (intro exI [of _ "[]"]) (simp add: advances_refl)
  next
    case False
    with Suc.prems obtain u where u: "u \<in> set (f s)" and t: "t \<in> set (star_iter f n u)" by auto
    from f [OF u] Suc.IH [OF t] obtain w ws
      where "w \<in> L" "advances s u w" "set ws \<subseteq> L" "advances u t (concat ws)" by blast
    then show ?thesis
      by (intro exI [of _ "w # ws"]) (auto intro: advances_trans)
  qed
qed

lemma rep_iter_lang:
  assumes f: "\<And>s t. t \<in> set (f s) \<Longrightarrow> \<exists>w \<in> L. advances s t w"
  shows "t \<in> set (rep_iter f m n s) \<Longrightarrow>
    \<exists>ws. set ws \<subseteq> L \<and> m \<le> length ws \<and> length ws \<le> max m n \<and> advances s t (concat ws)"
  using f
proof (induction f m n s rule: rep_iter.induct)
  case (1 f s)
  then show ?case by (intro exI [of _ "[]"]) (simp add: advances_refl)
next
  case (2 f n s)
  show ?case
  proof (cases "t = s")
    case True
    then show ?thesis by (intro exI [of _ "[]"]) (simp add: advances_refl)
  next
    case False
    with "2.prems" obtain u where u: "u \<in> set (f s)" and t: "t \<in> set (rep_iter f 0 n u)" by auto
    obtain w where "w \<in> L" "advances s u w" using "2.prems"(2) [OF u] by blast
    moreover obtain ws where "set ws \<subseteq> L" "length ws \<le> n" "advances u t (concat ws)"
      using "2.IH" [OF u t "2.prems"(2)] by auto
    ultimately show ?thesis
      by (intro exI [of _ "w # ws"]) (auto intro: advances_trans)
  qed
next
  case (3 f m n s)
  then obtain u where u: "u \<in> set (f s)" and t: "t \<in> set (rep_iter f m (n - 1) u)" by auto
  obtain w where "w \<in> L" "advances s u w" using "3.prems"(2) [OF u] by blast
  moreover obtain ws where "set ws \<subseteq> L" "m \<le> length ws" "length ws \<le> max m (n - 1)"
      "advances u t (concat ws)"
    using "3.IH" [OF u t "3.prems"(2)] by auto
  ultimately show ?case
    by (intro exI [of _ "w # ws"]) (auto intro: advances_trans)
qed

lemma rmatches_lang: "t \<in> set (rmatches r s) \<Longrightarrow> \<exists>w \<in> re_lang r. advances s t w"
proof (induction r arbitrary: s t)
  case REps
  then show ?case by (simp add: advances_refl)
next
  case (RChr p)
  then show ?case by (auto simp: chr_step_def advances_def split: list.splits if_splits)
next
  case (RSeq r1 r2)
  then obtain u where u: "u \<in> set (rmatches r1 s)" and t: "t \<in> set (rmatches r2 u)" by auto
  from RSeq.IH(1) [OF u] RSeq.IH(2) [OF t] show ?case by (fastforce intro: advances_trans)
next
  case (RAlt r1 r2)
  then show ?case by fastforce
next
  case (ROpt r)
  then show ?case using advances_refl by fastforce
next
  case (RStar r)
  from star_iter_lang [of "rmatches r" "re_lang r", OF RStar.IH RStar.prems [simplified]]
  show ?case by auto
next
  case (RRep m n r)
  from rep_iter_lang [of "rmatches r" "re_lang r", OF RRep.IH RRep.prems [simplified]]
  show ?case by auto
next
  case (RGroup k r)
  then obtain u where "u \<in> set (rmatches r s)" and "t = u\<lparr>caps := (k, consumed s u) # caps u\<rparr>" by auto
  with RGroup.IH show ?case by (fastforce simp: advances_def)
next
  case (RNotBehind p)
  then show ?case by (auto simp: advances_refl split: list.splits if_splits)
next
  case (RNotAhead p)
  then show ?case by (auto simp: advances_refl split: list.splits if_splits)
qed

text \<open>A captured group is a word of the group's own pattern.\<close>

primrec re_groups :: "re \<Rightarrow> (nat \<times> re) set" where
  "re_groups REps = {}"
| "re_groups (RChr p) = {}"
| "re_groups (RSeq r s) = re_groups r \<union> re_groups s"
| "re_groups (RAlt r s) = re_groups r \<union> re_groups s"
| "re_groups (ROpt r) = re_groups r"
| "re_groups (RStar r) = re_groups r"
| "re_groups (RRep m n r) = re_groups r"
| "re_groups (RGroup k r) = insert (k, r) (re_groups r)"
| "re_groups (RNotBehind p) = {}"
| "re_groups (RNotAhead p) = {}"

definition caps_within :: "(nat \<times> re) set \<Rightarrow> mpos \<Rightarrow> bool" where
  "caps_within G t \<longleftrightarrow> (\<forall>(k, w) \<in> set (caps t). \<exists>r. (k, r) \<in> G \<and> w \<in> re_lang r)"

lemma caps_within_mono: "G \<subseteq> H \<Longrightarrow> caps_within G t \<Longrightarrow> caps_within H t"
  by (fastforce simp: caps_within_def)

lemma star_iter_inv:
  assumes "\<And>s t. t \<in> set (f s) \<Longrightarrow> I s \<Longrightarrow> I t"
  shows "t \<in> set (star_iter f n s) \<Longrightarrow> I s \<Longrightarrow> I t"
  using assms by (induction n arbitrary: s) fastforce+

lemma rep_iter_inv:
  assumes "\<And>s t. t \<in> set (f s) \<Longrightarrow> I s \<Longrightarrow> I t"
  shows "t \<in> set (rep_iter f m n s) \<Longrightarrow> I s \<Longrightarrow> I t"
  using assms by (induction f m n s rule: rep_iter.induct) fastforce+

lemma rmatches_SeqE:
  assumes "t \<in> set (rmatches (RSeq r q) s)"
  obtains u where "u \<in> set (rmatches r s)" and "t \<in> set (rmatches q u)"
  using assms by auto

lemma rmatches_no_groups:
  "t \<in> set (rmatches r s) \<Longrightarrow> re_groups r = {} \<Longrightarrow> caps t = caps s"
proof (induction r arbitrary: s t)
  case (RChr p)
  then show ?case by (auto simp: chr_step_def split: list.splits if_splits)
next
  case (RSeq r1 r2)
  obtain u where "u \<in> set (rmatches r1 s)" and "t \<in> set (rmatches r2 u)"
    using RSeq.prems(1) by (rule rmatches_SeqE)
  with RSeq show ?case by simp
next
  case (RStar r)
  show ?case
    using RStar by (intro star_iter_inv [of "rmatches r" "\<lambda>u. caps u = caps s" t _ s]) auto
next
  case (RRep m n r)
  show ?case
    using RRep by (intro rep_iter_inv [of "rmatches r" "\<lambda>u. caps u = caps s" t _ _ s]) auto
qed (auto split: list.splits if_splits)

lemma group_step:
  assumes "t \<in> set (rmatches (RGroup k r) s)" and "re_groups r = {}"
  shows "\<exists>w \<in> re_lang r. advances s t w \<and> caps t = (k, w) # caps s"
proof -
  obtain u where u: "u \<in> set (rmatches r s)" and t: "t = u\<lparr>caps := (k, consumed s u) # caps u\<rparr>"
    using assms by auto
  obtain w where "w \<in> re_lang r" "advances s u w" using rmatches_lang [OF u] by blast
  then show ?thesis
    using t rmatches_no_groups [OF u assms(2)] consumed_advances [of s u w]
    by (intro bexI [of _ w]) (simp_all add: advances_def)
qed

lemma rmatches_caps:
  "t \<in> set (rmatches r s) \<Longrightarrow> re_groups r \<subseteq> G \<Longrightarrow> caps_within G s \<Longrightarrow> caps_within G t"
proof (induction r arbitrary: s t)
  case (RChr p)
  then show ?case by (auto simp: chr_step_def caps_within_def split: list.splits if_splits)
next
  case (RSeq r1 r2)
  obtain u where "u \<in> set (rmatches r1 s)" and "t \<in> set (rmatches r2 u)"
    using RSeq.prems(1) by (rule rmatches_SeqE)
  with RSeq show ?case by simp
next
  case (RStar r)
  show ?case using RStar by (intro star_iter_inv [of "rmatches r" "caps_within G" t _ s]) auto
next
  case (RRep m n r)
  show ?case using RRep by (intro rep_iter_inv [of "rmatches r" "caps_within G" t _ _ s]) auto
next
  case (RGroup k r)
  then obtain u where u: "u \<in> set (rmatches r s)"
    and t: "t = u\<lparr>caps := (k, consumed s u) # caps u\<rparr>" by auto
  have "caps_within G u" using RGroup u by simp
  moreover have "consumed s u \<in> re_lang r"
    using rmatches_lang [OF u] consumed_advances by fastforce
  ultimately show ?case using RGroup.prems(2) t by (auto simp: caps_within_def)
qed (auto split: list.splits if_splits)

lemma rsearch_from_Some:
  "rsearch_from r p inp = Some (s, t) \<Longrightarrow>
     t \<in> set (rmatches r s) \<and> caps s = [] \<and> (\<exists>u. inp = u @ rest s \<and> pre s = rev u @ p)"
proof (induction r p inp rule: rsearch_from.induct)
  case (1 r p)
  then show ?case by (auto split: list.splits)
next
  case (2 r p c cs)
  show ?case
  proof (cases "rmatches r \<lparr>pre = p, rest = c # cs, caps = []\<rparr>")
    case Nil
    with 2 show ?thesis by (auto intro: exI [of _ "c # _"])
  next
    case (Cons a list)
    with 2 show ?thesis by auto
  qed
qed

text \<open>The search is leftmost: no position before the one it finds has a match.\<close>

lemma rsearch_from_leftmost:
  "rsearch_from r p inp = Some (s, t) \<Longrightarrow> rev (pre s) = rev p @ v @ x \<Longrightarrow> x \<noteq> [] \<Longrightarrow>
     rmatches r \<lparr>pre = rev v @ p, rest = x @ rest s, caps = []\<rparr> = []"
proof (induction r p inp arbitrary: v rule: rsearch_from.induct)
  case (1 r p)
  then show ?case by (auto split: list.splits)
next
  case (2 r p c cs)
  show ?case
  proof (cases "rmatches r \<lparr>pre = p, rest = c # cs, caps = []\<rparr>")
    case Nil
    then have rec: "rsearch_from r (c # p) cs = Some (s, t)" using 2(2) by simp
    obtain u where u: "cs = u @ rest s" "pre s = rev u @ c # p" using rsearch_from_Some [OF rec] by blast
    have vx: "v @ x = c # u" using 2(3) u(2) by simp
    show ?thesis
    proof (cases v)
      case v: Nil
      then show ?thesis using Nil vx u(1) by simp
    next
      case (Cons d v')
      then have "d = c" "rev (pre s) = rev (c # p) @ v' @ x" using vx u(2) by simp_all
      then show ?thesis using 2(1) [OF Nil rec _ 2(4), of v'] Cons by simp
    qed
  next
    case (Cons y ys)
    then have "s = \<lparr>pre = p, rest = c # cs, caps = []\<rparr>" using 2(2) by simp
    then show ?thesis using 2(3,4) by simp
  qed
qed

lemma re_search_leftmost:
  "re_search r inp = Some (s, t) \<Longrightarrow> rev (pre s) = v @ x \<Longrightarrow> x \<noteq> [] \<Longrightarrow>
     rmatches r \<lparr>pre = rev v, rest = x @ rest s, caps = []\<rparr> = []"
  using rsearch_from_leftmost [of r "[]" inp s t v x] by (simp add: re_search_def)

lemma re_search_Some:
  assumes "re_search r inp = Some (s, t)"
  shows "\<exists>w \<in> re_lang r. inp = rev (pre s) @ w @ rest t \<and> group0 (s, t) = w"
    and "t \<in> set (rmatches r s)" and "caps_within (re_groups r) t" and "rest s = consumed s t @ rest t"
proof -
  from rsearch_from_Some [OF assms [unfolded re_search_def]]
  have t: "t \<in> set (rmatches r s)" and c: "caps s = []" and u: "inp = rev (pre s) @ rest s" by auto
  obtain w where w: "w \<in> re_lang r" "advances s t w" using rmatches_lang [OF t] by blast
  show "\<exists>w \<in> re_lang r. inp = rev (pre s) @ w @ rest t \<and> group0 (s, t) = w"
    using w u consumed_advances [OF w(2)]
    by (intro bexI [of _ w]) (auto simp: group0_def advances_def)
  show "t \<in> set (rmatches r s)" by (rule t)
  show "caps_within (re_groups r) t"
    using rmatches_caps [OF t order_refl] c by (simp add: caps_within_def)
  show "rest s = consumed s t @ rest t"
    using w consumed_advances [OF w(2)] by (simp add: advances_def)
qed

lemma group_of_word:
  assumes "re_search r inp = Some m" and "group_of m k = Some w"
  shows "\<exists>r'. (k, r') \<in> re_groups r \<and> w \<in> re_lang r'"
proof -
  have "caps_within (re_groups r) (snd m)"
    using re_search_Some(3) [of r inp "fst m" "snd m"] assms(1) by simp
  moreover have "(k, w) \<in> set (caps (snd m))"
    using assms(2) by (simp add: group_of_def map_of_SomeD)
  ultimately show ?thesis by (auto simp: caps_within_def)
qed

subsection \<open>The preferred match\<close>

text \<open>
  \<open>prefers r s t\<close>: the first match of \<open>r\<close> from \<open>s\<close> ends at \<open>t\<close>. These rules compute it on
  symbolic input.
\<close>

definition prefers :: "(mpos \<Rightarrow> mpos list) \<Rightarrow> mpos \<Rightarrow> mpos \<Rightarrow> bool" where
  "prefers f s t \<longleftrightarrow> (\<exists>ts. f s = t # ts)"

lemma prefers_chain: "f s = u # us \<Longrightarrow> prefers g u t \<Longrightarrow> \<exists>ts. concat (map g (f s)) = t # ts"
  by (auto simp: prefers_def)

lemma prefers_Seq: "prefers (rmatches r) s u \<Longrightarrow> prefers (rmatches r') u t \<Longrightarrow> prefers (rmatches (RSeq r r')) s t"
  by (auto simp: prefers_def)

lemma prefers_AltL: "prefers (rmatches r) s t \<Longrightarrow> prefers (rmatches (RAlt r r')) s t"
  by (auto simp: prefers_def)

lemma prefers_AltR: "rmatches r s = [] \<Longrightarrow> prefers (rmatches r') s t \<Longrightarrow> prefers (rmatches (RAlt r r')) s t"
  by (auto simp: prefers_def)

lemma prefers_OptNone: "rmatches r s = [] \<Longrightarrow> prefers (rmatches (ROpt r)) s s"
  by (auto simp: prefers_def)

lemma prefers_Group:
  "prefers (rmatches r) s u \<Longrightarrow>
     prefers (rmatches (RGroup k r)) s (u\<lparr>caps := (k, consumed s u) # caps u\<rparr>)"
  by (auto simp: prefers_def)

lemma prefers_star_stop: "f s = [] \<Longrightarrow> prefers (star_iter f n) s s"
  by (cases n) (auto simp: prefers_def)

lemma prefers_star_step:
  assumes "f s = u # us" and "length (rest u) < length (rest s)" and "prefers (star_iter f n) u t"
  shows "prefers (star_iter f (Suc n)) s t"
  using assms by (auto simp: prefers_def)

lemma prefers_star_chr:
  assumes "list_all p w" and "r = [] \<or> \<not> p (hd r)" and "length w \<le> n"
  shows "prefers (star_iter (chr_step p) n) \<lparr>pre = q, rest = w @ r, caps = cs\<rparr>
           \<lparr>pre = rev w @ q, rest = r, caps = cs\<rparr>"
  using assms
proof (induction w arbitrary: q n)
  case Nil
  then show ?case by (auto simp: chr_step_def intro!: prefers_star_stop split: list.splits)
next
  case (Cons c w)
  then obtain m where m: "n = Suc m" by (cases n) auto
  show ?case
    unfolding m
    by (rule prefers_star_step [where us = "[]"])
      (use Cons m in \<open>auto simp: chr_step_def\<close>)
qed

lemma rmatches_RChr [simp]: "rmatches (RChr p) = chr_step p"
  by (rule ext) simp

lemma star_iter_stop: "f s = [] \<Longrightarrow> star_iter f n s = [s]"
  by (cases n) auto

lemma prefers_OptSome: "prefers (rmatches r) s t \<Longrightarrow> prefers (rmatches (ROpt r)) s t"
  by (auto simp: prefers_def)

lemma prefers_Star:
  "prefers (star_iter (rmatches r) (length (rest s))) s t \<Longrightarrow> prefers (rmatches (RStar r)) s t"
  by (simp add: prefers_def)

lemma chr_step_fail: "rest s = [] \<or> \<not> p (hd (rest s)) \<Longrightarrow> chr_step p s = []"
  by (auto simp: chr_step_def split: list.splits)

end
