(* ===== verification/Ocr_Money.thy ===== *)
theory Ocr_Money
  imports Ocr_Regex
begin

text \<open>
  Money parsing and formatting, \<open>src/ocr_engine/extraction/money.py\<close>: the token pattern
  \<open>_MONEY_RE\<close> as a term of the matcher, \<open>parse_money\<close> with its two identical branches,
  \<open>_last_separator\<close> and \<open>format_money\<close>.
\<close>

subsection \<open>The token pattern\<close>

definition is_sep :: "int \<Rightarrow> bool" where
  "is_sep c \<longleftrightarrow> c = 46 \<or> c = 44"

definition is_gsep :: "int \<Rightarrow> bool" where
  "is_gsep c \<longleftrightarrow> is_sep c \<or> is_space c"

text \<open>\<open>(?:\d{1,3}(?:[.,\s]\d{1,3})+|\d+)(?:[.,]\d{2})?\<close>\<close>

definition digits13_re :: re where
  "digits13_re = RRep 1 3 (RChr is_digit)"

definition grouped_re :: re where
  "grouped_re = RSeq digits13_re (RPlus (RSeq (RChr is_gsep) digits13_re))"

definition cents_re :: re where
  "cents_re = RSeq (RChr is_sep) (RRep 2 2 (RChr is_digit))"

definition amount_re :: re where
  "amount_re = RSeq (RAlt grouped_re (RPlus (RChr is_digit))) (ROpt cents_re)"

text \<open>\<open>(?:rp\.?\s*)?\<close>, ignoring case.\<close>

definition rp_re :: re where
  "rp_re = rseqs [RChr (\<lambda>c. c = 114 \<or> c = 82), RChr (\<lambda>c. c = 112 \<or> c = 80), ROpt (rlit 46),
                  RStar (RChr is_space)]"

definition sign_re :: re where
  "sign_re = ROpt (RChr (\<lambda>c. c = 45 \<or> c = 43))"

definition money_prefix_re :: re where
  "money_prefix_re =
     rseqs [RNotBehind (\<lambda>c. is_ascii_digit c \<or> is_sep c), RStar (RChr is_space), ROpt rp_re]"

definition money_re :: re where
  "money_re =
     RSeq money_prefix_re (rseqs [RGroup 1 sign_re, RGroup 2 amount_re, RNotAhead is_ascii_digit])"

subsection \<open>Parsing and formatting\<close>

fun last_sep_below :: "pystr \<Rightarrow> nat \<Rightarrow> nat option" where
  "last_sep_below ds 0 = None"
| "last_sep_below ds (Suc i) = (if ds ! i \<in> set (U ''., '') then Some i else last_sep_below ds i)"

definition last_separator :: "pystr \<Rightarrow> nat option" where
  "last_separator ds = last_sep_below ds (length ds)"

definition drop_seps :: "pystr \<Rightarrow> pystr" where
  "drop_seps ds = filter (\<lambda>c. \<not> is_gsep c) ds"

definition group_text :: "mpos \<times> mpos \<Rightarrow> nat \<Rightarrow> pystr" where
  "group_text m k = (case group_of m k of Some w \<Rightarrow> w | None \<Rightarrow> [])"

definition parse_money :: "pystr \<Rightarrow> int option" where
  "parse_money inp =
     (case re_search money_re (map (\<lambda>c. if c = 160 then 32 else c) inp) of
        None \<Rightarrow> None
      | Some m \<Rightarrow>
          (let sign = group_text m 1;
               digits = py_strip (group_text m 2);
               last_sep = last_separator digits;
               cleaned =
                 (if (case last_sep of
                        Some i \<Rightarrow> length digits - i - 1 = 2 \<and> is_sep (digits ! i)
                      | None \<Rightarrow> False)
                  then drop_seps digits
                  else drop_seps digits)
           in case py_int cleaned of
                None \<Rightarrow> None
              | Some value \<Rightarrow> Some (if sign = U ''-'' then - value else value)))"

text \<open>\<open>f"{n:,}"\<close>: a comma before every third digit from the right.\<close>

fun commas_rev :: "pystr \<Rightarrow> pystr" where
  "commas_rev (a # b # c # d # ds) = a # b # c # 44 # commas_rev (d # ds)"
| "commas_rev ds = ds"

definition thousands :: "int \<Rightarrow> pystr" where
  "thousands n = rev (commas_rev (rev (dec_digits n)))"

definition format_money :: "int \<Rightarrow> pystr \<Rightarrow> pystr" where
  "format_money amount currency =
     map (\<lambda>c. if c = 44 then 46 else c)
       ((if amount < 0 then U ''-'' else []) @ currency @ U '' '' @ thousands \<bar>amount\<bar>)"

subsection \<open>What a token looks like\<close>

text \<open>
  The words of the amount group: digits and separators, with a digit at either end.
\<close>

definition amount_word :: "pystr \<Rightarrow> bool" where
  "amount_word w \<longleftrightarrow>
     w \<noteq> [] \<and> is_digit (hd w) \<and> is_digit (last w) \<and> list_all (\<lambda>c. is_digit c \<or> is_gsep c) w"

lemma amount_word_digits: "w \<noteq> [] \<Longrightarrow> list_all is_digit w \<Longrightarrow> amount_word w"
  by (auto simp: amount_word_def list_all_iff)

lemma amount_word_sep: "amount_word u \<Longrightarrow> is_gsep c \<Longrightarrow> amount_word v \<Longrightarrow> amount_word (u @ c # v)"
  by (auto simp: amount_word_def)

lemma lang_digits13: "w \<in> re_lang digits13_re \<Longrightarrow> amount_word w"
  using lang_rep_chr [of w 1 3 is_digit] by (auto simp: digits13_re_def intro!: amount_word_digits)

lemma lang_sep_digits:
  assumes "w \<in> re_lang (RSeq (RChr p) r)" and "\<And>c. p c \<Longrightarrow> is_gsep c"
    and "\<And>v. v \<in> re_lang r \<Longrightarrow> amount_word v" and "amount_word u"
  shows "amount_word (u @ w)"
  using assms(1)
proof (rule lang_SeqE)
  fix x v
  assume "w = x @ v" "x \<in> re_lang (RChr p)" "v \<in> re_lang r"
  then show ?thesis using assms(2-4) amount_word_sep [of u _ v] by auto
qed

lemma lang_groups:
  assumes "set ws \<subseteq> re_lang (RSeq (RChr is_gsep) digits13_re)" and "amount_word u"
  shows "amount_word (u @ concat ws)"
  using assms
proof (induction ws arbitrary: u)
  case Nil
  then show ?case by simp
next
  case (Cons v ws)
  then have "amount_word (u @ v)"
    by (intro lang_sep_digits [of v is_gsep digits13_re]) (auto intro: lang_digits13)
  moreover have "set ws \<subseteq> re_lang (RSeq (RChr is_gsep) digits13_re)"
    using Cons.prems by simp
  ultimately have "amount_word ((u @ v) @ concat ws)" by (intro Cons.IH)
  then show ?case by simp
qed

lemma lang_grouped: "w \<in> re_lang grouped_re \<Longrightarrow> amount_word w"
  unfolding grouped_re_def
proof (erule lang_SeqE, erule lang_PlusE)
  fix u v x ws
  assume "w = u @ v" "u \<in> re_lang digits13_re" "v = x @ concat ws"
    "x \<in> re_lang (RSeq (RChr is_gsep) digits13_re)"
    "set ws \<subseteq> re_lang (RSeq (RChr is_gsep) digits13_re)"
  then show "amount_word w" using lang_groups [of "x # ws" u] lang_digits13 by simp
qed

lemma lang_cents:
  assumes "v \<in> re_lang (RRep 2 2 (RChr is_digit))"
  shows "amount_word v"
proof (rule amount_word_digits)
  show "v \<noteq> []" and "list_all is_digit v" using lang_rep_chr [OF assms] by auto
qed

lemma lang_amount: "w \<in> re_lang amount_re \<Longrightarrow> amount_word w"
  unfolding amount_re_def
proof (erule lang_SeqE)
  fix u v
  assume w: "w = u @ v" and u: "u \<in> re_lang (RAlt grouped_re (RPlus (RChr is_digit)))"
    and v: "v \<in> re_lang (ROpt cents_re)"
  have aw: "amount_word u"
    using u lang_grouped [of u] lang_plus_chr [of u is_digit] amount_word_digits [of u]
    by (auto simp del: re_lang.simps(3,6))
  show "amount_word w"
  proof (cases "v = []")
    case True
    with aw w show ?thesis by simp
  next
    case False
    with v have "v \<in> re_lang (RSeq (RChr is_sep) (RRep 2 2 (RChr is_digit)))"
      by (simp add: cents_re_def)
    then show ?thesis
      unfolding w by (rule lang_sep_digits) (simp_all add: is_gsep_def aw lang_cents del: re_lang.simps)
  qed
qed

lemma nd_zeros_gaps:
  "list_all (\<lambda>z. 160 < z \<and> (z + 9 < 5760 \<or> 5760 < z \<and> z + 9 < 8192 \<or> 8287 < z \<and> z + 9 < 12288
     \<or> 12288 < z)) nd_zeros"
  by code_simp

lemma digit_not_space: "is_digit c \<Longrightarrow> \<not> is_space c"
proof (cases "48 \<le> c \<and> c \<le> 57")
  case True
  then show ?thesis by (simp add: is_space_def)
next
  case False
  assume "is_digit c"
  with False obtain z where "z \<in> set nd_zeros" and "z \<le> c" "c \<le> z + 9"
    by (auto simp: is_digit_def digit_val_def split: if_splits dest!: first_some_Some)
  then show ?thesis using nd_zeros_gaps by (fastforce simp: list_all_iff is_space_def)
qed

lemma digit_not_sep: "is_digit c \<Longrightarrow> \<not> is_sep c"
  by (auto simp: is_digit_def digit_val_def is_sep_def split: if_splits)

lemma digit_not_gsep: "is_digit c \<Longrightarrow> \<not> is_gsep c"
  by (simp add: is_gsep_def digit_not_space digit_not_sep)

lemma strip_amount_word: "amount_word w \<Longrightarrow> py_strip w = w"
proof -
  assume w: "amount_word w"
  then have "\<not> is_space (hd w)" and "\<not> is_space (hd (rev w))" and "w \<noteq> []"
    using digit_not_space by (auto simp: amount_word_def hd_rev)
  then have "dropWhile is_space w = w" and "dropWhile is_space (rev w) = rev w"
    by (auto simp: dropWhile_eq_self_iff)
  then show ?thesis by (simp add: py_strip_def)
qed

text \<open>\<open>int\<close> on the cleaned digits fails only beyond the interpreter's digit limit.\<close>

lemma py_split_digits: "list_all is_digit ds \<Longrightarrow> py_split 95 ds = [ds]"
proof (induction ds)
  case Nil
  then show ?case by simp
next
  case (Cons d ds)
  then have "d \<noteq> 95" by (auto simp: is_digit_def digit_val_def)
  with Cons show ?case by simp
qed

lemma py_int_digits:
  assumes "ds \<noteq> []" and "list_all is_digit ds"
  shows "py_int ds = (if length ds \<le> max_str_digits then Some (digits_value ds) else None)"
proof -
  have "\<not> int_space (hd ds)" and "\<not> int_space (hd (rev ds))"
    using assms digit_not_space by (auto simp: list_all_iff int_space_def hd_rev)
  then have "dropWhile int_space ds = ds" and "dropWhile int_space (rev ds) = rev ds"
    using assms by (auto simp: dropWhile_eq_self_iff)
  moreover obtain c u where ds: "ds = c # u" using assms(1) by (cases ds) auto
  then have "c \<noteq> 45" "c \<noteq> 43" using assms(2) by (auto simp: is_digit_def digit_val_def)
  moreover have "py_split 95 (c # u) = [c # u]" using assms(2) ds by (intro py_split_digits) simp
  ultimately show ?thesis
    using assms unfolding py_int_def ds by (simp add: Let_def)
qed

lemma drop_seps_amount: "amount_word w \<Longrightarrow> drop_seps w \<noteq> [] \<and> list_all is_digit (drop_seps w)"
proof
  assume w: "amount_word w"
  then have "hd w \<in> set (drop_seps w)"
    using digit_not_gsep by (auto simp: amount_word_def drop_seps_def)
  then show "drop_seps w \<noteq> []" by auto
  show "list_all is_digit (drop_seps w)"
    using w by (auto simp: amount_word_def drop_seps_def list_all_iff)
qed

subsection \<open>Soundness\<close>

lemma re_groups_parts: "re_groups sign_re = {}" "re_groups amount_re = {}"
  by (simp_all add: sign_re_def amount_re_def grouped_re_def digits13_re_def cents_re_def)

text \<open>
  Where a match may not start: after an ASCII digit, a point or a comma. What may stand between that
  point and the sign: spaces, and \<open>rp\<close> in any case with an optional point and spaces.
\<close>

definition blocked :: "pystr \<Rightarrow> bool" where
  "blocked u \<longleftrightarrow> u \<noteq> [] \<and> (is_ascii_digit (last u) \<or> is_sep (last u))"

definition label_word :: "pystr \<Rightarrow> bool" where
  "label_word p \<longleftrightarrow>
     (\<exists>sp rp dot sp'. p = sp @ rp \<and> list_all is_space sp
        \<and> (rp = [] \<or> (\<exists>a b. rp = a # b # dot @ sp' \<and> a \<in> {114, 82} \<and> b \<in> {112, 80} \<and> dot \<in> {[], U ''.''} \<and> list_all is_space sp')))"

lemma lang_prefix: "p \<in> re_lang money_prefix_re \<Longrightarrow> label_word p"
proof -
  assume "p \<in> re_lang money_prefix_re"
  then obtain sp rp where p: "p = sp @ rp" and sp: "sp \<in> re_lang (RStar (RChr is_space))" and rp: "rp = [] \<or> rp \<in> re_lang rp_re"
    by (auto simp: money_prefix_re_def)
  have space: "x \<in> re_lang (RStar (RChr is_space)) \<Longrightarrow> list_all is_space x" for x
    using lang_star_chr [of x is_space] by simp
  show "label_word p"
  proof (cases "rp = []")
    case True
    then show ?thesis using p space [OF sp] unfolding label_word_def by blast
  next
    case False
    then have "rp \<in> re_lang rp_re" using rp by simp
    then obtain x y z sp' where xyz: "rp = x @ y @ z @ sp'" "x \<in> re_lang (RChr (\<lambda>c. c = 114 \<or> c = 82))"
        "y \<in> re_lang (RChr (\<lambda>c. c = 112 \<or> c = 80))" "z \<in> re_lang (ROpt (rlit 46))" "sp' \<in> re_lang (RStar (RChr is_space))"
      unfolding rp_re_def rseqs.simps re_lang.simps(3) by blast
    obtain a b where ab: "x = [a]" "y = [b]" "a \<in> {114, 82}" "b \<in> {112, 80}" using xyz(2,3) by auto
    have "z \<in> {[], U ''.''}" using xyz(4) by (auto simp: rlit_def U_def)
    moreover have "rp = a # b # z @ sp'" using xyz(1) ab by simp
    ultimately show ?thesis using p space [OF sp] space [OF xyz(5)] ab(3,4) unfolding label_word_def by blast
  qed
qed

text \<open>A position from which an optional sign and a digit follow, and which is not blocked, has a match.\<close>

lemma member_Seq: "u \<in> set (rmatches r s) \<Longrightarrow> t \<in> set (rmatches q u) \<Longrightarrow> t \<in> set (rmatches (RSeq r q) s)"
  by auto

lemma star_iter_self: "s \<in> set (star_iter f n s)"
  by (cases n) auto

lemma amount_member:
  assumes "is_digit d"
  shows "\<exists>t \<in> set (rmatches amount_re \<lparr>pre = q, rest = d # b, caps = cs\<rparr>). rest t = [] \<or> \<not> is_digit (hd (rest t))"
proof -
  let ?ds = "takeWhile is_digit b" and ?r = "dropWhile is_digit b"
  let ?s = "\<lparr>pre = d # q, rest = b, caps = cs\<rparr>" and ?t = "\<lparr>pre = rev ?ds @ d # q, rest = ?r, caps = cs\<rparr>"
  have r: "?r = [] \<or> \<not> is_digit (hd ?r)" using hd_dropWhile [of is_digit b] by auto
  have "list_all is_digit ?ds" by (auto simp: list_all_iff dest: set_takeWhileD)
  moreover have "length ?ds \<le> length b" by (rule length_takeWhile_le)
  ultimately have "prefers (star_iter (chr_step is_digit) (length b)) \<lparr>pre = d # q, rest = ?ds @ ?r, caps = cs\<rparr> ?t"
    using r by (intro prefers_star_chr)
  then have "?t \<in> set (rmatches (RStar (RChr is_digit)) ?s)" by (auto simp: prefers_def)
  moreover have "?s \<in> set (rmatches (RChr is_digit) \<lparr>pre = q, rest = d # b, caps = cs\<rparr>)"
    using assms by (simp add: chr_step_def)
  ultimately have "?t \<in> set (rmatches (RPlus (RChr is_digit)) \<lparr>pre = q, rest = d # b, caps = cs\<rparr>)" by (rule member_Seq [rotated])
  then have "?t \<in> set (rmatches (RAlt grouped_re (RPlus (RChr is_digit))) \<lparr>pre = q, rest = d # b, caps = cs\<rparr>)" by simp
  moreover have "?t \<in> set (rmatches (ROpt cents_re) ?t)" by simp
  ultimately have "?t \<in> set (rmatches amount_re \<lparr>pre = q, rest = d # b, caps = cs\<rparr>)"
    unfolding amount_re_def by (rule member_Seq)
  moreover have "rest ?t = [] \<or> \<not> is_digit (hd (rest ?t))" using r by simp
  ultimately show ?thesis by blast
qed

lemma ascii_is_digit: "is_ascii_digit c \<Longrightarrow> is_digit c"
  by (rule ascii_digit_is_digit)

lemma match_at:
  assumes "\<not> blocked u" and "sg \<in> {[], U ''-'', U ''+''}" and "is_digit d"
  shows "rmatches money_re \<lparr>pre = rev u, rest = sg @ d # b, caps = []\<rparr> \<noteq> []"
proof -
  let ?s = "\<lparr>pre = rev u, rest = sg @ d # b, caps = []\<rparr>" and ?a = "\<lparr>pre = rev sg @ rev u, rest = d # b, caps = [] :: caps\<rparr>"
  have behind: "?s \<in> set (rmatches (RNotBehind (\<lambda>c. is_ascii_digit c \<or> is_sep c)) ?s)"
    using assms(1) by (cases "rev u") (auto simp: blocked_def last_rev [symmetric])
  have "?s \<in> set (rmatches (RSeq (RStar (RChr is_space)) (ROpt rp_re)) ?s)"
    by (rule member_Seq [where u = ?s]) (simp_all add: star_iter_self)
  with behind have "?s \<in> set (rmatches money_prefix_re ?s)"
    unfolding money_prefix_re_def rseqs.simps by (rule member_Seq)
  moreover obtain c where "?a\<lparr>caps := c\<rparr> \<in> set (rmatches (RGroup 1 sign_re) ?s)"
  proof -
    have "?a \<in> set (rmatches sign_re ?s)" using assms(2) by (auto simp: sign_re_def chr_step_def U_def)
    then show thesis using that by (auto simp: image_iff) (metis (no_types, lifting) mpos.simps(5) mpos.update_convs(3))
  qed
  moreover obtain t where "t \<in> set (rmatches (RGroup 2 amount_re) (?a\<lparr>caps := c\<rparr>))" "rest t = [] \<or> \<not> is_digit (hd (rest t))"
    using amount_member [OF assms(3), of "rev sg @ rev u" b c] by fastforce
  moreover from this(2) have "t \<in> set (rmatches (RNotAhead is_ascii_digit) t)"
    using ascii_is_digit by (cases "rest t") auto
  ultimately have "t \<in> set (rmatches money_re ?s)"
    unfolding money_re_def rseqs.simps by (blast intro: member_Seq)
  then show ?thesis by auto
qed

text \<open>
  A match starts at the first position that has one, and where it may: so no digit before it could have started
  an amount, and a sign right before the digits belongs to them unless it is blocked itself.
\<close>

lemma money_match_left:
  assumes "re_search money_re inp = Some m"
  obtains u p sign g r where "inp = u @ p @ sign @ g @ r" and "group_text m 1 = sign"
    and "group_text m 2 = g" and "sign \<in> re_lang sign_re" and "amount_word g"
    and "r = [] \<or> \<not> is_ascii_digit (hd r)" and "label_word p" and "\<not> blocked u"
    and "\<forall>v x. u = v @ x \<and> x \<noteq> [] \<longrightarrow> rmatches money_re \<lparr>pre = rev v, rest = x @ p @ sign @ g @ r, caps = []\<rparr> = []"
proof -
  obtain s t where m: "m = (s, t)" by fastforce
  note S = re_search_Some [OF assms [unfolded m]]
  obtain a where sa: "a \<in> set (rmatches money_prefix_re s)"
    and ae: "t \<in> set (rmatches (RSeq (RGroup 1 sign_re) (RSeq (RGroup 2 amount_re)
                (RNotAhead is_ascii_digit))) a)"
    using S(2) unfolding money_re_def rseqs.simps by (rule rmatches_SeqE)
  obtain b where ab: "b \<in> set (rmatches (RGroup 1 sign_re) a)"
    and be: "t \<in> set (rmatches (RSeq (RGroup 2 amount_re) (RNotAhead is_ascii_digit)) b)"
    using ae by (rule rmatches_SeqE)
  obtain d where bd: "d \<in> set (rmatches (RGroup 2 amount_re) b)"
    and dt: "t \<in> set (rmatches (RNotAhead is_ascii_digit) d)"
    using be by (rule rmatches_SeqE)
  obtain w where w: "w \<in> re_lang money_prefix_re" "advances s a w" using rmatches_lang [OF sa] by blast
  obtain x where x: "x \<in> re_lang sign_re" "advances a b x" and b: "caps b = (1, x) # caps a"
    using group_step [OF ab re_groups_parts(1)] by blast
  obtain g where g: "g \<in> re_lang amount_re" "advances b d g" and d: "caps d = (2, g) # caps b"
    using group_step [OF bd re_groups_parts(2)] by blast
  have t: "t = d" and r: "rest t = [] \<or> \<not> is_ascii_digit (hd (rest t))"
    using dt by (auto split: list.splits if_splits)
  have rest: "rest s = w @ x @ g @ rest t" using w(2) x(2) g(2) t by (simp add: advances_def)
  have inp: "inp = rev (pre s) @ rest s" using S(1,4) by (auto simp: group0_def)
  have "s \<in> set (rmatches (RNotBehind (\<lambda>c. is_ascii_digit c \<or> is_sep c)) s)"
    using sa unfolding money_prefix_re_def rseqs.simps by (auto split: list.splits if_splits)
  then have free: "\<not> blocked (rev (pre s))" by (auto simp: blocked_def last_rev split: list.splits if_splits)
  have first: "rmatches money_re \<lparr>pre = rev v, rest = y @ rest s, caps = []\<rparr> = []"
    if "rev (pre s) = v @ y" "y \<noteq> []" for v y
    using re_search_leftmost [OF assms [unfolded m] that] .
  show thesis
    by (rule that [of "rev (pre s)" w x g "rest t"])
      (use inp rest m b d t x(1) lang_amount [OF g(1)] r free lang_prefix [OF w(1)] first in
        \<open>simp_all add: group_text_def group_of_def\<close>)
qed

definition delimited :: "pystr \<Rightarrow> pystr \<Rightarrow> pystr \<Rightarrow> pystr \<Rightarrow> bool" where
  "delimited u p sign g \<longleftrightarrow>
     \<not> blocked u \<and> label_word p
     \<and> (\<forall>a d b. u = a @ d # b \<and> is_digit d \<longrightarrow> blocked a)
     \<and> (sign = [] \<and> p = [] \<and> u \<noteq> [] \<and> last u \<in> set (U ''-+'') \<longrightarrow> blocked (butlast u))"

lemma parse_money_token:
  assumes "parse_money inp = Some v"
  shows "\<exists>u p sign g r. map (\<lambda>c. if c = 160 then 32 else c) inp = u @ p @ sign @ g @ r
           \<and> delimited u p sign g
           \<and> sign \<in> {[], U ''-'', U ''+''} \<and> amount_word g
           \<and> (r = [] \<or> \<not> is_ascii_digit (hd r))
           \<and> v = (if sign = U ''-'' then - 1 else 1) * digits_value (drop_seps g)"
proof -
  obtain m where m: "re_search money_re (map (\<lambda>c. if c = 160 then 32 else c) inp) = Some m"
    using assms by (auto simp: parse_money_def split: option.splits)
  obtain u p sign g r where t: "map (\<lambda>c. if c = 160 then 32 else c) inp = u @ p @ sign @ g @ r"
      "group_text m 1 = sign" "group_text m 2 = g" "sign \<in> re_lang sign_re" "amount_word g"
      "r = [] \<or> \<not> is_ascii_digit (hd r)" "label_word p" "\<not> blocked u"
    and first: "\<forall>v x. u = v @ x \<and> x \<noteq> [] \<longrightarrow> rmatches money_re \<lparr>pre = rev v, rest = x @ p @ sign @ g @ r, caps = []\<rparr> = []"
    by (rule money_match_left [OF m])
  have digits: "blocked a" if "u = a @ d # b" "is_digit d" for a d b
    using match_at [of a "[]" d "b @ p @ sign @ g @ r"] first [rule_format, of a "d # b"] that by auto
  have "blocked (butlast u)" if "sign = []" "p = []" "u \<noteq> []" "last u \<in> set (U ''-+'')"
  proof (rule ccontr)
    assume free: "\<not> blocked (butlast u)"
    have sg: "[last u] \<in> {[], U ''-'', U ''+''}" using that(4) by (auto simp: U_def)
    obtain d b where "g = d # b" "is_digit d" using t(5) by (cases g) (auto simp: amount_word_def)
    then show False
      using match_at [OF free sg, of d "b @ r"] first [rule_format, of "butlast u" "[last u]"] that(1-3) by simp
  qed
  then have "delimited u p sign g" using t(7,8) digits unfolding delimited_def by blast
  moreover have "sign \<in> {[], U ''-'', U ''+''}"
    using t(4) by (auto simp: sign_re_def U_def)
  moreover have "v = (if sign = U ''-'' then - 1 else 1) * digits_value (drop_seps g)"
    using assms m t drop_seps_amount [OF t(5)] py_int_digits [of "drop_seps g"]
    by (simp add: parse_money_def Let_def strip_amount_word split: if_splits)
  ultimately show ?thesis using t by blast
qed

subsection \<open>Reading back a formatted amount\<close>

text \<open>The shape of a formatted amount: one group of one to three digits, then groups of three.\<close>

lemma commas_rev_groups:
  "ds \<noteq> [] \<Longrightarrow> \<exists>gs h. commas_rev ds = concat (map (\<lambda>g. g @ [44]) gs) @ h \<and> ds = concat gs @ h
     \<and> (\<forall>g \<in> set gs. length g = 3) \<and> 1 \<le> length h \<and> length h \<le> 3"
proof (induction ds rule: commas_rev.induct)
  case (1 a b c d ds)
  then obtain gs h where e1: "commas_rev (d # ds) = concat (map (\<lambda>g. g @ [44]) gs) @ h"
      and e2: "d # ds = concat gs @ h"
      and l: "\<forall>g \<in> set gs. length g = 3" "1 \<le> length h" "length h \<le> 3"
    by auto
  have "commas_rev (a # b # c # d # ds) = a # b # c # 44 # commas_rev (d # ds)" by simp
  then show ?case
    unfolding e1 using l e2 by (intro exI [of _ "[a, b, c] # gs"] exI [of _ h] conjI) simp_all
qed (rule exI [of _ "[]"], simp)+

lemma dots_for_commas:
  fixes h :: pystr
  assumes "44 \<notin> set h" and "\<forall>g \<in> set gs. 44 \<notin> set g"
  shows "map (\<lambda>c. if c = 44 then 46 else c) (rev (concat (map (\<lambda>g. g @ [44]) gs) @ h)) =
           rev h @ concat (map ((#) 46) (map rev (rev gs)))"
proof -
  have m: "map (\<lambda>c. if c = 44 then 46 else c) w = w" if "44 \<notin> set w" for w :: "int list"
    using that by (induction w) auto
  show ?thesis using assms by (induction gs) (auto simp: m)
qed

lemma thousands_groups:
  assumes "0 \<le> n"
  obtains g0 gs where "map (\<lambda>c. if c = 44 then 46 else c) (thousands n) = g0 @ concat (map ((#) 46) gs)"
    and "dec_digits n = g0 @ concat gs" and "\<forall>g \<in> set gs. length g = 3"
    and "1 \<le> length g0" and "length g0 \<le> 3"
proof -
  obtain gs h where c: "commas_rev (rev (dec_digits n)) = concat (map (\<lambda>g. g @ [44]) gs) @ h"
      and r: "rev (dec_digits n) = concat gs @ h" and l: "\<forall>g \<in> set gs. length g = 3"
      "1 \<le> length h" "length h \<le> 3"
    using commas_rev_groups [of "rev (dec_digits n)"] by auto
  have d: "dec_digits n = rev h @ concat (map rev (rev gs))"
    using arg_cong [OF r, of rev] by (simp add: rev_concat rev_map)
  have "44 \<notin> set (dec_digits n)"
    using dec_digits_ascii [OF assms] by (auto simp: list_all_iff is_ascii_digit_def)
  then have "44 \<notin> set (concat gs @ h)" by (metis r set_rev)
  then have "map (\<lambda>c. if c = 44 then 46 else c) (thousands n) =
      rev h @ concat (map ((#) 46) (map rev (rev gs)))"
    unfolding thousands_def c by (intro dots_for_commas) auto
  then show thesis using d l by (intro that [of "rev h" "map rev (rev gs)"]) auto
qed

lemma prefers_digits13:
  assumes "list_all is_digit g" and "1 \<le> length g" "length g \<le> 3"
    and "length g = 3 \<or> r = [] \<or> \<not> is_digit (hd r)"
  shows "prefers (rmatches digits13_re) \<lparr>pre = q, rest = g @ r, caps = cs\<rparr>
           \<lparr>pre = rev g @ q, rest = r, caps = cs\<rparr>"
proof -
  consider a where "g = [a]" | a b where "g = [a, b]" | a b c where "g = [a, b, c]"
    using assms(2,3) by (cases g rule: remdups_adj.cases; cases "tl (tl g)"; fastforce)
  then show ?thesis
    using assms
    by cases (auto simp: digits13_re_def prefers_def numeral_eq_Suc chr_step_def split: list.splits)
qed

lemma prefers_sep_group:
  assumes "length g = 3" and "list_all is_digit g"
  shows "prefers (rmatches (RSeq (RChr is_gsep) digits13_re)) \<lparr>pre = q, rest = 46 # g @ r, caps = cs\<rparr>
           \<lparr>pre = rev g @ 46 # q, rest = r, caps = cs\<rparr>"
  using assms
  by (intro prefers_Seq [OF _ prefers_digits13])
    (auto simp: prefers_def chr_step_def is_gsep_def is_sep_def)

lemma prefers_groups:
  assumes "\<forall>g \<in> set gs. length g = 3 \<and> list_all is_digit g" and "length gs \<le> n"
  shows "prefers (star_iter (rmatches (RSeq (RChr is_gsep) digits13_re)) n)
           \<lparr>pre = q, rest = concat (map ((#) 46) gs), caps = cs\<rparr>
           \<lparr>pre = rev (concat (map ((#) 46) gs)) @ q, rest = [], caps = cs\<rparr>"
  using assms
proof (induction gs arbitrary: q n)
  case Nil
  then show ?case by (auto simp: chr_step_def intro!: prefers_star_stop)
next
  case (Cons g gs)
  then obtain m where n: "n = Suc m" by (cases n) auto
  let ?f = "rmatches (RSeq (RChr is_gsep) digits13_re)" and ?r = "concat (map ((#) 46) gs)"
  obtain us where us: "?f \<lparr>pre = q, rest = 46 # g @ ?r, caps = cs\<rparr> =
      \<lparr>pre = rev g @ 46 # q, rest = ?r, caps = cs\<rparr> # us"
    using prefers_sep_group [of g q ?r cs] Cons.prems unfolding prefers_def by auto
  have IH: "prefers (star_iter ?f m) \<lparr>pre = rev g @ 46 # q, rest = ?r, caps = cs\<rparr>
      \<lparr>pre = rev ?r @ rev g @ 46 # q, rest = [], caps = cs\<rparr>"
    using Cons.prems n by (intro Cons.IH) auto
  have "prefers (star_iter ?f (Suc m)) \<lparr>pre = q, rest = 46 # g @ ?r, caps = cs\<rparr>
      \<lparr>pre = rev ?r @ rev g @ 46 # q, rest = [], caps = cs\<rparr>"
    by (rule prefers_star_step [where f = ?f, OF us _ IH]) simp
  then show ?case unfolding n by (simp del: rmatches.simps star_iter.simps)
qed

lemma length_le_concat: "length gs \<le> length (concat (map ((#) x) gs))"
  by (induction gs) auto

lemma grouped_none:
  assumes "list_all is_digit (rest st)"
  shows "rmatches grouped_re st = []"
proof -
  have "chr_step is_gsep u = []" if u: "u \<in> set (rmatches digits13_re st)" for u
  proof -
    obtain w where "rest st = w @ rest u" using rmatches_lang [OF u] by (auto simp: advances_def)
    then have "list_all is_digit (rest u)" using assms by simp
    then show ?thesis using digit_not_gsep by (intro chr_step_fail) (cases "rest u"; auto)
  qed
  then show ?thesis by (simp add: grouped_re_def)
qed

text \<open>The amount of a formatted number is matched as a whole.\<close>

lemma prefers_amount:
  assumes "\<forall>g \<in> set gs. length g = 3 \<and> list_all is_digit g"
    and "list_all is_digit g0" and "1 \<le> length g0" "length g0 \<le> 3"
  shows "prefers (rmatches amount_re) \<lparr>pre = q, rest = g0 @ concat (map ((#) 46) gs), caps = cs\<rparr>
           \<lparr>pre = rev (g0 @ concat (map ((#) 46) gs)) @ q, rest = [], caps = cs\<rparr>"
proof -
  let ?r = "concat (map ((#) 46) gs)" and ?g = "RSeq (RChr is_gsep) digits13_re"
  let ?e = "\<lparr>pre = rev ?r @ rev g0 @ q, rest = [], caps = cs\<rparr>"
  have main: "prefers (rmatches (RAlt grouped_re (RPlus (RChr is_digit))))
      \<lparr>pre = q, rest = g0 @ ?r, caps = cs\<rparr> ?e"
  proof (cases gs)
    case Nil
    obtain d ds where g0: "g0 = d # ds" using assms(3) by (cases g0) auto
    have "prefers (rmatches (RPlus (RChr is_digit))) \<lparr>pre = q, rest = g0, caps = cs\<rparr>
        \<lparr>pre = rev g0 @ q, rest = [], caps = cs\<rparr>"
      using assms(2) prefers_star_chr [of is_digit ds "[]" "length ds" "d # q" cs]
      by (intro prefers_Seq [where u = "\<lparr>pre = d # q, rest = ds, caps = cs\<rparr>"])
        (auto simp: g0 prefers_def chr_step_def)
    then show ?thesis
      using Nil assms(2) by (intro prefers_AltR grouped_none) simp_all
  next
    case (Cons g gs')
    have "prefers (rmatches (RPlus ?g)) \<lparr>pre = rev g0 @ q, rest = ?r, caps = cs\<rparr> ?e"
    proof (rule prefers_Seq)
      let ?u = "\<lparr>pre = rev g @ 46 # rev g0 @ q, rest = concat (map ((#) 46) gs'), caps = cs\<rparr>"
      show "prefers (rmatches ?g) \<lparr>pre = rev g0 @ q, rest = ?r, caps = cs\<rparr> ?u"
        using assms(1) Cons prefers_sep_group [of g "rev g0 @ q"] by simp
      show "prefers (rmatches (RStar ?g)) ?u ?e"
        using assms(1) Cons prefers_groups [OF _ length_le_concat [of gs' 46],
          of "rev g @ 46 # rev g0 @ q" cs]
        by (intro prefers_Star) (simp del: rmatches.simps)
    qed
    then show ?thesis
      unfolding grouped_re_def
      using assms Cons digit_not_sep
      by (intro prefers_AltL prefers_Seq [OF prefers_digits13]) (auto simp: is_digit_def digit_val_def)
  qed
  have "rmatches cents_re ?e = []" by (simp add: cents_re_def chr_step_def)
  then show ?thesis
    unfolding amount_re_def using main
    by (intro prefers_Seq [OF _ prefers_OptNone]) simp_all
qed

lemma length_dec_digits: "0 \<le> n \<Longrightarrow> n < 10 ^ Suc k \<Longrightarrow> length (dec_digits n) \<le> Suc k"
proof (induction k arbitrary: n)
  case 0
  then show ?case by (subst dec_digits.simps) simp
next
  case (Suc k)
  show ?case
  proof (cases "n < 10")
    case True
    then show ?thesis by (subst dec_digits.simps) simp
  next
    case False
    have "n div 10 < 10 ^ Suc k" using Suc.prems by simp
    with Suc False have "length (dec_digits (n div 10)) \<le> Suc k" by simp
    with False show ?thesis by (subst dec_digits.simps) simp
  qed
qed

lemma drop_seps_append: "drop_seps (u @ v) = drop_seps u @ drop_seps v"
  by (simp add: drop_seps_def)

lemma drop_seps_digits: "list_all is_digit w \<Longrightarrow> drop_seps w = w"
  using digit_not_gsep by (auto simp: drop_seps_def list_all_iff filter_id_conv)

lemma drop_seps_groups:
  "list_all is_digit (concat gs) \<Longrightarrow> drop_seps (concat (map ((#) 46) gs)) = concat gs"
proof (induction gs)
  case Nil
  then show ?case by (simp add: drop_seps_def)
next
  case (Cons g gs)
  have "drop_seps (46 # w) = drop_seps w" for w
    by (simp add: drop_seps_def is_gsep_def is_sep_def)
  with Cons show ?case by (simp add: drop_seps_append drop_seps_digits)
qed

text \<open>Where no token can start.\<close>

lemma amount_none: "rest st = [] \<or> \<not> is_digit (hd (rest st)) \<Longrightarrow> rmatches amount_re st = []"
  by (simp add: amount_re_def grouped_re_def digits13_re_def numeral_eq_Suc chr_step_fail)

lemma money_skip:
  assumes "\<not> is_space c" and "\<not> is_digit c" and "c \<notin> {114, 82} \<or> d \<notin> {112, 80}"
    and "c \<notin> {45, 43} \<or> \<not> is_digit d"
  shows "rmatches money_re \<lparr>pre = p, rest = c # d # cs, caps = []\<rparr> = []"
proof -
  let ?st = "\<lparr>pre = p, rest = c # d # cs, caps = []\<rparr>"
  have "rmatches (RStar (RChr is_space)) ?st = [?st]"
    using assms(1) by (simp add: star_iter_stop chr_step_fail)
  moreover have "rmatches rp_re ?st = []"
    using assms(3) by (auto simp: rp_re_def chr_step_def)
  ultimately have pref: "set (rmatches money_prefix_re ?st) \<subseteq> {?st}"
    by (auto simp: money_prefix_re_def simp del: rmatches.simps(6) split: list.splits if_splits)
  have "rmatches (rseqs [RGroup 1 sign_re, RGroup 2 amount_re, RNotAhead is_ascii_digit]) ?st = []"
    using assms(2,4) by (auto simp: sign_re_def chr_step_def amount_none)
  with pref show ?thesis by (auto simp: money_re_def)
qed

lemma money_at_amount:
  assumes "\<forall>g \<in> set gs. length g = 3 \<and> list_all is_digit g"
    and "list_all is_digit g0" and "1 \<le> length g0" "length g0 \<le> 3"
    and "p = [] \<or> \<not> (is_ascii_digit (hd p) \<or> is_sep (hd p))"
  defines "w \<equiv> g0 @ concat (map ((#) 46) gs)"
  shows "prefers (rmatches money_re) \<lparr>pre = p, rest = 32 # w, caps = []\<rparr>
           \<lparr>pre = rev w @ 32 # p, rest = [], caps = [(2, w), (1, [])]\<rparr>"
proof -
  obtain d ds where w: "w = d # ds" and d: "is_digit d"
    using assms(2,3) unfolding w_def by (cases g0) auto
  let ?a = "\<lparr>pre = p, rest = 32 # w, caps = []\<rparr>" and ?b = "\<lparr>pre = 32 # p, rest = w, caps = []\<rparr>"
    and ?c = "\<lparr>pre = 32 # p, rest = w, caps = [(1, [])]\<rparr>"
    and ?e = "\<lparr>pre = rev w @ 32 # p, rest = [], caps = [(1, [])]\<rparr>"
  have nd: "d \<noteq> 45" "d \<noteq> 43" "d \<noteq> 114" "d \<noteq> 82"
    using d by (auto simp: is_digit_def digit_val_def)
  have 1: "prefers (rmatches (RNotBehind (\<lambda>c. is_ascii_digit c \<or> is_sep c))) ?a ?a"
    using assms(5) by (auto simp: prefers_def split: list.splits)
  have 2: "prefers (rmatches (RStar (RChr is_space))) ?a ?b"
    using prefers_star_chr [of is_space "[32]" w "length (32 # w)" p "[]"] digit_not_space [OF d]
    by (intro prefers_Star) (simp add: w is_space_def)
  have 3: "prefers (rmatches (ROpt rp_re)) ?b ?b"
    using nd by (intro prefers_OptNone) (simp add: rp_re_def chr_step_def w)
  have 4: "prefers (rmatches (RGroup 1 sign_re)) ?b ?c"
    using prefers_Group [of sign_re ?b ?b 1] nd
    by (simp add: sign_re_def prefers_def chr_step_def w consumed_def)
  have "prefers (rmatches amount_re) ?c ?e"
    unfolding w_def by (rule prefers_amount [OF assms(1-4)])
  from prefers_Group [OF this, of 2]
  have 5: "prefers (rmatches (RGroup 2 amount_re)) ?c (?e\<lparr>caps := [(2, w), (1, [])]\<rparr>)"
    by (simp add: consumed_def)
  have 6: "prefers (rmatches (RNotAhead is_ascii_digit)) (?e\<lparr>caps := [(2, w), (1, [])]\<rparr>)
             (?e\<lparr>caps := [(2, w), (1, [])]\<rparr>)"
    by (simp add: prefers_def)
  show ?thesis
    unfolding money_re_def money_prefix_re_def rseqs.simps
    using prefers_Seq [OF prefers_Seq [OF 1 prefers_Seq [OF 2 3]] prefers_Seq [OF 4 prefers_Seq [OF 5 6]]]
    by simp
qed

text \<open>The text \<open>IDR <amount>\<close>, with or without a sign before it: the sign is not in the token.\<close>

lemma search_formatted:
  assumes "\<forall>g \<in> set gs. length g = 3 \<and> list_all is_digit g"
    and "list_all is_digit g0" and "1 \<le> length g0" "length g0 \<le> 3" and "s = [] \<or> s = [45]"
  defines "w \<equiv> g0 @ concat (map ((#) 46) gs)"
  shows "\<exists>m. re_search money_re (s @ [73, 68, 82, 32] @ w) = Some m
           \<and> group_text m 1 = [] \<and> group_text m 2 = w"
proof -
  have "rsearch_from money_re p ([73, 68, 82, 32] @ w) = rsearch_from money_re ([82, 68, 73] @ p) (32 # w)" for p
    by (simp add: money_skip is_space_def is_digit_def digit_val_def)
  moreover have "\<exists>m. rsearch_from money_re ([82, 68, 73] @ p) (32 # w) = Some m
      \<and> group_text m 1 = [] \<and> group_text m 2 = w" for p
    using money_at_amount [OF assms(1-4), of "[82, 68, 73] @ p"] unfolding w_def [symmetric]
    by (auto simp: prefers_def group_text_def group_of_def is_ascii_digit_def is_sep_def
        simp del: rmatches.simps)
  moreover have "rsearch_from money_re [] (45 # [73, 68, 82, 32] @ w) =
      rsearch_from money_re [45] ([73, 68, 82, 32] @ w)"
    by (simp add: money_skip is_space_def is_digit_def digit_val_def)
  ultimately show ?thesis using assms(5) by (auto simp: re_search_def)
qed

lemma formatted_shape:
  obtains s g0 gs where "format_money n (U ''IDR'') = s @ [73, 68, 82, 32] @ g0 @ concat (map ((#) 46) gs)"
    and "s = [] \<or> s = [45]" and "\<forall>g \<in> set gs. length g = 3 \<and> list_all is_digit g"
    and "list_all is_digit g0" and "1 \<le> length g0" "length g0 \<le> 3" and "dec_digits \<bar>n\<bar> = g0 @ concat gs"
proof -
  obtain g0 gs where t: "map (\<lambda>c. if c = 44 then 46 else c) (thousands \<bar>n\<bar>) = g0 @ concat (map ((#) 46) gs)"
    and d: "dec_digits \<bar>n\<bar> = g0 @ concat gs" and g: "\<forall>g \<in> set gs. length g = 3" "1 \<le> length g0" "length g0 \<le> 3"
    using thousands_groups [of "\<bar>n\<bar>"] by auto
  have "list_all is_digit (dec_digits \<bar>n\<bar>)"
    using dec_digits_ascii [of "\<bar>n\<bar>"] ascii_digit_is_digit by (auto simp: list_all_iff)
  then have "list_all is_digit g0" "\<forall>g \<in> set gs. length g = 3 \<and> list_all is_digit g"
    using g by (auto simp: d list_all_iff)
  then show thesis
    using t g d
    by (intro that [of "if n < 0 then [45] else []" g0 gs]) (auto simp: format_money_def U_def)
qed

lemma parse_money_formatted:
  assumes "\<bar>n\<bar> < 10 ^ max_str_digits"
  shows "parse_money (format_money n (U ''IDR'')) = Some \<bar>n\<bar>"
proof -
  obtain s g0 gs where fm: "format_money n (U ''IDR'') = s @ [73, 68, 82, 32] @ g0 @ concat (map ((#) 46) gs)"
    and s: "s = [] \<or> s = [45]" and gd: "\<forall>g \<in> set gs. length g = 3 \<and> list_all is_digit g"
      "list_all is_digit g0" "1 \<le> length g0" "length g0 \<le> 3"
    and d: "dec_digits \<bar>n\<bar> = g0 @ concat gs"
    by (rule formatted_shape)
  let ?w = "g0 @ concat (map ((#) 46) gs)"
  have "\<not> is_digit 160" by (simp add: is_digit_def digit_val_def)
  then have "160 \<notin> set ?w" using gd by (auto simp: list_all_iff)
  then have no160: "map (\<lambda>c. if c = 160 then 32 else c) (s @ [73, 68, 82, 32] @ ?w) = s @ [73, 68, 82, 32] @ ?w"
    using s by (intro map_idI) auto
  obtain m where m: "re_search money_re (s @ [73, 68, 82, 32] @ ?w) = Some m"
    "group_text m 1 = []" "group_text m 2 = ?w"
    using search_formatted [OF gd s] by blast
  obtain g where "group_text m 2 = g" and "amount_word g" using money_match_left [OF m(1)] by metis
  then have strip: "py_strip ?w = ?w" using m(3) strip_amount_word by simp
  have dg: "list_all is_digit (g0 @ concat gs)" using gd by (auto simp: list_all_iff)
  then have cl: "drop_seps ?w = dec_digits \<bar>n\<bar>"
    by (simp add: drop_seps_append drop_seps_digits drop_seps_groups d)
  obtain k where "max_str_digits = Suc k" by (simp add: max_str_digits_def)
  then have "length (dec_digits \<bar>n\<bar>) \<le> max_str_digits"
    using assms length_dec_digits [of "\<bar>n\<bar>" k] by simp
  then have "py_int (dec_digits \<bar>n\<bar>) = Some \<bar>n\<bar>"
    using dg unfolding d [symmetric] by (simp add: py_int_digits digits_value_dec)
  then show ?thesis
    unfolding parse_money_def fm no160 m(1) using m(2,3) strip cl by (simp add: Let_def)
qed

lemma parse_money_needs_digit:
  assumes "\<forall>c \<in> set inp. \<not> is_digit c"
  shows "parse_money inp = None"
proof (rule ccontr)
  assume "parse_money inp \<noteq> None"
  then obtain v where "parse_money inp = Some v" by auto
  from parse_money_token [OF this] obtain u p sign g r
    where t: "map (\<lambda>c. if c = 160 then 32 else c) inp = u @ p @ sign @ g @ r" and g: "amount_word g" by blast
  have "hd g \<in> set (map (\<lambda>c. if c = 160 then 32 else c) inp)"
    using g by (simp add: t amount_word_def)
  moreover have "\<not> is_digit 32" by (simp add: is_digit_def digit_val_def)
  ultimately show False using g assms by (auto simp: amount_word_def)
qed

subsection \<open>Properties\<close>

text \<open>
  Property C14: an amount that is returned was read from the first token of the text: an optional
  sign and a word of digits and separators that starts and ends with a digit, not followed by another digit,
  and preceded, up to spaces and an \<open>rp\<close>, by nothing that is a digit, a point or a comma. Every digit
  before the token stands after a digit, a point or a comma, so that none could have started one; and a sign right
  before the digits is theirs, unless it stands after one of these itself. The
  absolute value is the number that the token's digits spell, whatever the separators are, and it is negative exactly
  under a minus sign.
\<close>

theorem parse_money_sound:
  assumes "parse_money inp = Some v"
  shows "\<exists>u p sign g r. map (\<lambda>c. if c = 160 then 32 else c) inp = u @ p @ sign @ g @ r
           \<and> label_word p \<and> \<not> blocked u
           \<and> (\<forall>a d b. u = a @ d # b \<and> is_digit d \<longrightarrow> blocked a)
           \<and> (sign = [] \<and> p = [] \<and> u \<noteq> [] \<and> last u \<in> set (U ''-+'') \<longrightarrow> blocked (butlast u))
           \<and> sign \<in> {[], U ''-'', U ''+''} \<and> amount_word g
           \<and> (r = [] \<or> \<not> is_ascii_digit (hd r))
           \<and> v = (if sign = U ''-'' then - 1 else 1) * digits_value (drop_seps g)"
  using parse_money_token [OF assms] unfolding delimited_def by blast

theorem parse_money_sound_witness:
  "parse_money (U ''.5 -27,800'') = Some (- 27800) \<and>
   (\<exists>u p sign g r. map (\<lambda>c. if c = 160 then 32 else c) (U ''.5 -27,800'') = u @ p @ sign @ g @ r
      \<and> \<not> blocked u \<and> sign \<in> {[], U ''-'', U ''+''} \<and> amount_word g
      \<and> - 27800 = (if sign = U ''-'' then - 1 else 1) * digits_value (drop_seps g))"
proof -
  have p: "parse_money (U ''.5 -27,800'') = Some (- 27800)" by code_simp
  from p parse_money_sound [OF p] show ?thesis by blast
qed

text \<open>
  Property C31: parsing a formatted rupiah amount gives its absolute value back, for every
  amount within the interpreter's limit on decimal text; the sign of a negative amount,
  which the formatter writes before the currency, is lost.
\<close>

theorem parse_format_money:
  assumes "\<bar>n\<bar> < 10 ^ max_str_digits"
  shows "parse_money (format_money n (U ''IDR'')) = Some \<bar>n\<bar>"
  using assms by (rule parse_money_formatted)

theorem parse_format_money_witness:
  "format_money (- 1234567) (U ''IDR'') = U ''-IDR 1.234.567''
   \<and> parse_money (format_money (- 1234567) (U ''IDR'')) = Some 1234567"
proof -
  have "(1234567 :: int) < 10 ^ 7" by simp
  also have "\<dots> \<le> 10 ^ max_str_digits"
    by (rule power_increasing) (simp_all add: max_str_digits_def)
  finally have "parse_money (format_money (- 1234567) (U ''IDR'')) = Some \<bar>- 1234567\<bar>"
    by (intro parse_format_money) simp
  moreover have "format_money (- 1234567) (U ''IDR'') = U ''-IDR 1.234.567''" by code_simp
  ultimately show ?thesis by simp
qed

text \<open>
  A text without a decimal digit holds no amount.
\<close>

lemma parse_money_no_digit:
  assumes "\<forall>c \<in> set inp. \<not> is_digit c"
  shows "parse_money inp = None"
  using assms by (rule parse_money_needs_digit)

lemma parse_money_no_digit_example: "parse_money (U ''Rp. '') = None"
  by (rule parse_money_no_digit) code_simp

end
