(* ===== verification/Ocr_Float.thy ===== *)
theory Ocr_Float
  imports Ocr_Python "HOL-Library.Log_Nat"
begin

text \<open>
  Python floats. A finite IEEE 754 binary64 value is a rational number, and comparisons of
  floats (and of a float with an \<open>int\<close>) are exact, so a float is a \<open>rat\<close>; what is not
  exact is arithmetic, and every arithmetic operation here rounds its exact result to the
  nearest binary64 value, ties to even (\<open>rnd\<close>), as the hardware does. Infinities, NaN and
  overflow beyond \<open>2 ^ 1024\<close> are not modelled. On top of \<open>rnd\<close>: the operations, the
  compensated \<open>sum\<close> of CPython 3.12, \<open>round(x, 4)\<close>, \<open>f"{x:.2f}"\<close> and \<open>int(x)\<close>.
  The laws of rounding that components rely on form the locale \<open>float_rounding\<close>.
\<close>

subsection \<open>Rounding to an integer, ties to even\<close>

definition rhe :: "rat \<Rightarrow> int" where
  "rhe x =
     (let f = \<lfloor>x\<rfloor>; d = x - of_int f
      in if d < 1 / 2 then f else if 1 / 2 < d then f + 1 else if even f then f else f + 1)"

lemma rhe_of_int [simp]: "rhe (of_int n) = n"
  by (simp add: rhe_def)

lemma rhe_err: "\<bar>of_int (rhe x) - x\<bar> \<le> 1 / 2"
proof -
  have f: "of_int \<lfloor>x\<rfloor> \<le> x" "x < of_int \<lfloor>x\<rfloor> + 1" by linarith+
  show ?thesis
    using f by (cases "rhe x = \<lfloor>x\<rfloor>") (auto simp: rhe_def Let_def abs_le_iff split: if_splits)
qed

lemma rhe_mono: "x \<le> y \<Longrightarrow> rhe x \<le> rhe y"
proof -
  assume le: "x \<le> y"
  show ?thesis
  proof (cases "\<lfloor>x\<rfloor> = \<lfloor>y\<rfloor>")
    case True
    with le show ?thesis by (auto simp: rhe_def Let_def)
  next
    case False
    with le have "\<lfloor>x\<rfloor> + 1 \<le> \<lfloor>y\<rfloor>" using floor_mono [OF le] by linarith
    moreover have "rhe x \<le> \<lfloor>x\<rfloor> + 1" by (auto simp: rhe_def Let_def)
    moreover have "\<lfloor>y\<rfloor> \<le> rhe y" by (auto simp: rhe_def Let_def)
    ultimately show ?thesis by linarith
  qed
qed

lemma rhe_minus: "rhe (- x) = - rhe x"
proof (cases "x = of_int \<lfloor>x\<rfloor>")
  case True
  then obtain n where n: "x = of_int n" by blast
  have "rhe (- x) = - n" unfolding n using rhe_of_int [of "- n"] by simp
  then show ?thesis by (simp add: n)
next
  case False
  then have c: "\<lfloor>- x\<rfloor> = - \<lfloor>x\<rfloor> - 1"
    by (intro floor_unique) (simp_all, linarith+)
  show ?thesis unfolding rhe_def c by (auto simp: Let_def)
qed

subsection \<open>The exponent\<close>

definition ilog2 :: "rat \<Rightarrow> int" where
  "ilog2 x =
     (let (p, q) = quotient_of x; k = bitlen p - bitlen q
      in if 2 powi k \<le> x then k else k - 1)"

lemma two_powi_pos [simp]: "0 < (2 :: rat) powi k"
  by simp

lemma two_powi_le_iff [simp]: "(2 :: rat) powi i \<le> 2 powi j \<longleftrightarrow> i \<le> j"
  by (meson linorder_not_le one_less_numeral_iff power_int_increasing power_int_strict_increasing
      order_less_imp_le semiring_norm(76))

lemma two_powi_less_iff [simp]: "(2 :: rat) powi i < 2 powi j \<longleftrightarrow> i < j"
  by (simp add: less_le_not_le)

lemma bitlen_powi: "0 < p \<Longrightarrow> 2 powi (bitlen p - 1) \<le> (of_int p :: rat) \<and> of_int p < (2 :: rat) powi bitlen p"
proof -
  assume p: "0 < p"
  then have b: "2 ^ nat (bitlen p - 1) \<le> p" "p < 2 ^ nat (bitlen p)"
    using bitlen_bounds [of p] by auto
  have n: "0 \<le> bitlen p - 1" using p bitlen_bounds [of p] by (smt (verit) bitlen_nonneg bitlen_eq_zero_iff)
  have "(2 :: rat) powi (bitlen p - 1) = of_int (2 ^ nat (bitlen p - 1))"
    and "(2 :: rat) powi bitlen p = of_int (2 ^ nat (bitlen p))"
    using n by (simp_all add: power_int_nonneg_exp)
  then show ?thesis using b by (metis of_int_le_iff of_int_less_iff)
qed

lemma ilog2_bounds:
  assumes "0 < x"
  shows "2 powi ilog2 x \<le> x \<and> x < 2 powi (ilog2 x + 1)"
proof -
  obtain p q where pq: "quotient_of x = (p, q)" by fastforce
  then have x: "x = of_int p / of_int q" and q: "0 < q"
    by (auto dest: quotient_of_div quotient_of_denom_pos)
  with assms have p: "0 < p" by (simp add: zero_less_divide_iff)
  let ?k = "bitlen p - bitlen q"
  note bp = bitlen_powi [OF p] and bq = bitlen_powi [OF q]
  have "2 powi (?k - 1) * of_int q \<le> 2 powi (?k - 1) * (2 :: rat) powi bitlen q"
    using bq by (intro mult_left_mono) auto
  also have "\<dots> = 2 powi (bitlen p - 1)"
    by (simp flip: power_int_add)
  also have "\<dots> \<le> of_int p" using bp by simp
  finally have lo: "2 powi (?k - 1) \<le> x"
    using q by (simp add: x pos_le_divide_eq)
  have "of_int p < (2 :: rat) powi bitlen p" using bp by simp
  also have "\<dots> = 2 powi (?k + 1) * 2 powi (bitlen q - 1)"
    by (simp flip: power_int_add)
  also have "\<dots> \<le> 2 powi (?k + 1) * of_int q"
    using bq by (intro mult_left_mono) auto
  finally have hi: "x < 2 powi (?k + 1)"
    using q by (simp add: x pos_divide_less_eq)
  show ?thesis using lo hi by (auto simp: ilog2_def pq Let_def)
qed

lemma ilog2_mono: "0 < x \<Longrightarrow> x \<le> y \<Longrightarrow> ilog2 x \<le> ilog2 y"
proof -
  assume "0 < x" "x \<le> y"
  then have "2 powi ilog2 x < (2 :: rat) powi (ilog2 y + 1)"
    using ilog2_bounds [of x] ilog2_bounds [of y] by linarith
  then show ?thesis by simp
qed

subsection \<open>Rounding to binary64\<close>

definition fl_exp :: "rat \<Rightarrow> int" where
  "fl_exp x = max (ilog2 \<bar>x\<bar> - 52) (- 1074)"

definition rnd :: "rat \<Rightarrow> rat" where
  "rnd x = (if x = 0 then 0 else of_int (rhe (x / 2 powi fl_exp x)) * 2 powi fl_exp x)"

definition representable :: "rat \<Rightarrow> bool" where
  "representable x \<longleftrightarrow> (\<exists>m e. x = of_int m * 2 powi e \<and> \<bar>m\<bar> \<le> 2 ^ 53 \<and> - 1074 \<le> e)"

lemma rnd_0 [simp]: "rnd 0 = 0"
  by (simp add: rnd_def)

lemma rnd_minus: "rnd (- x) = - rnd x"
  by (simp add: rnd_def fl_exp_def rhe_minus flip: minus_divide_left)

lemma rnd_err: "\<bar>rnd x - x\<bar> \<le> 2 powi fl_exp x / 2"
proof (cases "x = 0")
  case True
  then show ?thesis by simp
next
  case False
  let ?u = "(2 :: rat) powi fl_exp x"
  have "rnd x - x = (of_int (rhe (x / ?u)) - x / ?u) * ?u"
    using False by (simp add: rnd_def left_diff_distrib)
  then have "\<bar>rnd x - x\<bar> = \<bar>of_int (rhe (x / ?u)) - x / ?u\<bar> * ?u"
    by (simp add: abs_mult)
  also have "\<dots> \<le> 1 / 2 * ?u"
    by (intro mult_right_mono rhe_err) simp
  finally show ?thesis by simp
qed

lemma fl_exp_mono: "0 < x \<Longrightarrow> x \<le> y \<Longrightarrow> fl_exp x \<le> fl_exp y"
  using ilog2_mono [of x y] by (auto simp: fl_exp_def)

lemma fl_exp_upper: "0 < x \<Longrightarrow> x < 2 powi (fl_exp x + 53)"
proof -
  assume "0 < x"
  then have "x < 2 powi (ilog2 x + 1)" using ilog2_bounds by blast
  also have "\<dots> \<le> (2 :: rat) powi (fl_exp x + 53)"
    using \<open>0 < x\<close> by (simp add: fl_exp_def)
  finally show ?thesis .
qed

lemma rnd_nonneg: "0 \<le> x \<Longrightarrow> 0 \<le> rnd x"
  using rhe_mono [of 0 "x / 2 powi fl_exp x"] rhe_of_int [of 0] by (simp add: rnd_def)

lemma rnd_mono_pos:
  assumes "0 < x" and "x \<le> y"
  shows "rnd x \<le> rnd y"
proof (cases "fl_exp x = fl_exp y")
  case True
  have "x / 2 powi fl_exp y \<le> y / 2 powi fl_exp y"
    using assms by (simp add: divide_right_mono)
  then have "rhe (x / 2 powi fl_exp y) \<le> rhe (y / 2 powi fl_exp y)"
    by (rule rhe_mono)
  with True assms show ?thesis by (simp add: rnd_def)
next
  case False
  let ?ex = "fl_exp x" and ?ey = "fl_exp y"
  have lt: "?ex < ?ey" using False fl_exp_mono [OF assms] by linarith
  have ey: "?ey = ilog2 y - 52"
    using lt assms by (simp add: fl_exp_def max_def split: if_splits)
  have "2 powi (?ey + 52) \<le> y" using ilog2_bounds [of y] assms ey by simp
  then have "2 powi (?ey + 52) / 2 powi ?ey \<le> y / 2 powi ?ey"
    by (simp add: divide_right_mono)
  then have "of_int (2 ^ 52) \<le> y / 2 powi ?ey"
    by (simp add: power_int_add)
  then have y: "2 ^ 52 \<le> rhe (y / 2 powi ?ey)"
    using rhe_mono rhe_of_int by metis
  have "x / 2 powi ?ex \<le> 2 powi (?ex + 53) / 2 powi ?ex"
    using fl_exp_upper [OF assms(1)] by (intro divide_right_mono) auto
  then have "x / 2 powi ?ex \<le> of_int (2 ^ 53)"
    by (simp add: power_int_add)
  then have x: "rhe (x / 2 powi ?ex) \<le> 2 ^ 53"
    using rhe_mono rhe_of_int by metis
  have "rnd x \<le> of_int (2 ^ 53) * 2 powi ?ex"
    using assms x by (auto simp: rnd_def simp del: of_int_power intro!: mult_right_mono)
  also have "\<dots> = 2 powi (?ex + 53)"
    by (simp add: power_int_add)
  also have "\<dots> \<le> (2 :: rat) powi (?ey + 52)"
    using lt by simp
  also have "\<dots> = of_int (2 ^ 52) * 2 powi ?ey"
    by (simp add: power_int_add)
  also have "\<dots> \<le> rnd y"
    using assms y by (auto simp: rnd_def simp del: of_int_power intro!: mult_right_mono)
  finally show ?thesis .
qed

lemma rnd_mono: "x \<le> y \<Longrightarrow> rnd x \<le> rnd y"
proof -
  assume le: "x \<le> y"
  consider "0 < x" | "x \<le> 0" "0 \<le> y" | "y < 0" by linarith
  then show ?thesis
  proof cases
    case 1
    with le show ?thesis by (intro rnd_mono_pos)
  next
    case 2
    then have "rnd x \<le> 0" using rnd_nonneg [of "- x"] by (simp add: rnd_minus)
    also have "0 \<le> rnd y" using 2 by (intro rnd_nonneg)
    finally show ?thesis .
  next
    case 3
    with le have "rnd (- y) \<le> rnd (- x)" by (intro rnd_mono_pos) auto
    then show ?thesis by (simp add: rnd_minus)
  qed
qed

lemma rnd_small_mantissa:
  assumes "x = of_int m * 2 powi e" and "\<bar>m\<bar> < 2 ^ 53" and "- 1074 \<le> e"
  shows "rnd x = x"
proof (cases "x = 0")
  case True
  then show ?thesis by simp
next
  case False
  have ax: "\<bar>x\<bar> = of_int \<bar>m\<bar> * 2 powi e" by (simp add: assms(1) abs_mult)
  have "of_int \<bar>m\<bar> < (2 :: rat) ^ 53"
    using assms(2) by (metis of_int_less_iff of_int_numeral of_int_power)
  then have "\<bar>x\<bar> < 2 ^ 53 * 2 powi e" unfolding ax by (intro mult_strict_right_mono) auto
  also have "\<dots> = 2 powi (e + 53)" by (simp add: power_int_add)
  finally have "\<bar>x\<bar> < 2 powi (e + 53)" .
  then have "(2 :: rat) powi ilog2 \<bar>x\<bar> < 2 powi (e + 53)"
    using ilog2_bounds [of "\<bar>x\<bar>"] False by linarith
  then have le: "fl_exp x \<le> e" using assms(3) by (simp add: fl_exp_def)
  then have "x / 2 powi fl_exp x = of_int (m * 2 ^ nat (e - fl_exp x))"
    by (simp add: assms(1) power_int_diff flip: power_int_nonneg_exp)
  then have "of_int (rhe (x / 2 powi fl_exp x)) = x / 2 powi fl_exp x"
    by (metis rhe_of_int)
  then show ?thesis using False by (simp add: rnd_def)
qed

lemma rnd_representable:
  assumes "representable x"
  shows "rnd x = x"
proof -
  obtain m e where x: "x = of_int m * 2 powi e" and m: "\<bar>m\<bar> \<le> 2 ^ 53" and e: "- 1074 \<le> e"
    using assms by (auto simp: representable_def)
  show ?thesis
  proof (cases "\<bar>m\<bar> = 2 ^ 53")
    case True
    then have "m = 9007199254740992 \<or> m = - 9007199254740992" by auto
    then have "m = 2 * (m div 2)" and "\<bar>m div 2\<bar> < 2 ^ 53" by auto
    moreover have "x = of_int (m div 2) * 2 powi (e + 1)"
    proof -
      have "x = of_int (2 * (m div 2)) * 2 powi e"
        using \<open>m = 2 * (m div 2)\<close> x by simp
      then show ?thesis by (simp add: power_int_add)
    qed
    ultimately show ?thesis
      using e by (intro rnd_small_mantissa [of x "m div 2" "e + 1"]) auto
  next
    case False
    with m have "\<bar>m\<bar> < 2 ^ 53" by linarith
    with x e show ?thesis by (intro rnd_small_mantissa)
  qed
qed

lemma representable_int: "\<bar>n\<bar> \<le> 2 ^ 53 \<Longrightarrow> representable (of_int n)"
  unfolding representable_def by (intro exI [of _ n] exI [of _ 0]) simp

lemma representable_half: "\<bar>n\<bar> \<le> 2 ^ 53 \<Longrightarrow> representable (of_int n / 2)"
  unfolding representable_def
  by (intro exI [of _ n] exI [of _ "- 1"]) (simp add: power_int_minus)

subsection \<open>The operations on floats the code uses\<close>

definition fl_add :: "rat \<Rightarrow> rat \<Rightarrow> rat" where
  "fl_add x y = rnd (x + y)"

definition fl_sub :: "rat \<Rightarrow> rat \<Rightarrow> rat" where
  "fl_sub x y = rnd (x - y)"

definition fl_mul :: "rat \<Rightarrow> rat \<Rightarrow> rat" where
  "fl_mul x y = rnd (x * y)"

definition fl_div :: "rat \<Rightarrow> rat \<Rightarrow> rat" where
  "fl_div x y = rnd (x / y)"

text \<open>\<open>a / b\<close> on two \<open>int\<close>s: the correctly rounded quotient.\<close>

definition int_truediv :: "int \<Rightarrow> int \<Rightarrow> rat" where
  "int_truediv a b = rnd (of_int a / of_int b)"

text \<open>
  \<open>sum\<close> of a list of floats in CPython 3.12: the first addition is exact (the start value is
  the integer 0), and a compensation term collects what each later addition loses.
\<close>

definition add_error :: "rat \<Rightarrow> rat \<Rightarrow> rat \<Rightarrow> rat" where
  "add_error f x t = (if \<bar>x\<bar> \<le> \<bar>f\<bar> then fl_add (fl_sub f t) x else fl_add (fl_sub x t) f)"

fun neumaier :: "rat \<Rightarrow> rat \<Rightarrow> rat list \<Rightarrow> rat" where
  "neumaier f c [] = (if c \<noteq> 0 then fl_add f c else f)"
| "neumaier f c (x # xs) = neumaier (fl_add f x) (fl_add c (add_error f x (fl_add f x))) xs"

definition py_sum :: "rat list \<Rightarrow> rat" where
  "py_sum xs = (case xs of [] \<Rightarrow> 0 | x # ys \<Rightarrow> neumaier x 0 ys)"

text \<open>\<open>round(x, 4)\<close>, \<open>f"{x:.2f}"\<close> and \<open>int(x)\<close> on a float.\<close>

definition round4 :: "rat \<Rightarrow> rat" where
  "round4 x = rnd (of_int (rhe (x * 10000)) / 10000)"

definition fmt2 :: "rat \<Rightarrow> pystr" where
  "fmt2 x =
     (let n = rhe (\<bar>x\<bar> * 100)
      in (if x < 0 then [45] else []) @ dec_digits (n div 100) @ [46, 48 + n mod 100 div 10, 48 + n mod 10])"

definition py_trunc :: "rat \<Rightarrow> int" where
  "py_trunc x = (if x < 0 then \<lceil>x\<rceil> else \<lfloor>x\<rfloor>)"

subsection \<open>The laws of rounding\<close>

text \<open>
  What the code's uses of float arithmetic rely on: rounding is monotone and leaves the
  small integers and half-integers alone. The lemmas are proved from these laws alone.
\<close>

locale float_rounding =
  fixes fl :: "rat \<Rightarrow> rat"
  assumes fl_mono: "x \<le> y \<Longrightarrow> fl x \<le> fl y"
    and fl_int: "\<bar>n\<bar> \<le> 2 ^ 53 \<Longrightarrow> fl (of_int n) = of_int n"
    and fl_half: "\<bar>n\<bar> \<le> 2 ^ 53 \<Longrightarrow> fl (of_int n / 2) = of_int n / 2"
begin

lemma fl_between: "of_int m \<le> x \<Longrightarrow> x \<le> of_int n \<Longrightarrow> \<bar>m\<bar> \<le> 2 ^ 53 \<Longrightarrow> \<bar>n\<bar> \<le> 2 ^ 53 \<Longrightarrow>
    of_int m \<le> fl x \<and> fl x \<le> of_int n"
  using fl_mono [of "of_int m" x] fl_mono [of x "of_int n"] fl_int by auto

lemma fl_mid: "a \<le> b \<Longrightarrow> \<bar>a\<bar> \<le> 2 ^ 52 \<Longrightarrow> \<bar>b\<bar> \<le> 2 ^ 52 \<Longrightarrow>
    of_int a \<le> fl (of_int (a + b) / 2) \<and> fl (of_int (a + b) / 2) \<le> of_int b"
proof -
  assume ab: "a \<le> b" "\<bar>a\<bar> \<le> 2 ^ 52" "\<bar>b\<bar> \<le> 2 ^ 52"
  have "fl (of_int (a + b) / 2) = of_int (a + b) / 2"
    using ab by (intro fl_half) auto
  moreover have "(of_int a :: rat) \<le> of_int b" using ab by simp
  ultimately show ?thesis by simp
qed

lemma fl_unit: "0 \<le> x \<Longrightarrow> x \<le> 1 \<Longrightarrow> 0 \<le> fl x \<and> fl x \<le> 1"
  using fl_between [of 0 x 1] by simp

lemma fl_below_half:
  assumes "x \<le> of_int n + 1 / 2" and "0 \<le> n" and "n < 2 ^ 52"
  shows "fl x < of_int n + 1"
proof -
  have "fl x \<le> fl (of_int (2 * n + 1) / 2)"
    using assms by (intro fl_mono) simp
  also have "\<dots> = of_int (2 * n + 1) / 2"
    using assms by (intro fl_half) auto
  also have "\<dots> < of_int n + 1" by simp
  finally show ?thesis .
qed

end

interpretation binary64: float_rounding rnd
  by unfold_locales (intro rnd_mono rnd_representable representable_int representable_half; assumption)+

lemma py_sum_single [simp]: "py_sum [x] = x"
  by (simp add: py_sum_def)

lemma fl_div_1: "representable x \<Longrightarrow> fl_div x 1 = x"
  by (simp add: fl_div_def rnd_representable)

end
