(* ===== verification/Ocr_Schema.thy ===== *)
theory Ocr_Schema
  imports Ocr_Float Ocr_Regex
begin

text \<open>
  The recognised line every provider produces (\<open>ocr/base.py\<close>) and the extraction schemas
  (\<open>extraction/schema.py\<close>): the matcher model with its validators, the parsing of one YAML
  document and the loading of the schema directory. The YAML documents arrive decoded, in
  the order of the sorted file names. What pydantic makes of a value for a \<open>bool\<close>, \<open>int\<close> or
  \<open>float\<close> field and the compiler of regular expressions are parameters.
\<close>

subsection \<open>Lines\<close>

record line =
  l_text :: pystr
  l_score :: rat
  l_x1 :: int
  l_y1 :: int
  l_x2 :: int
  l_y2 :: int
  l_page :: int

subsection \<open>The libraries extraction calls\<close>

text \<open>
  \<open>l_compile p\<close> is \<open>re.compile(p, re.IGNORECASE)\<close> with \<open>None\<close> for \<open>re.error\<close>; \<open>l_bool\<close>,
  \<open>l_int\<close> and \<open>l_float\<close> are pydantic's lax conversions with \<open>None\<close> for a validation error;
  \<open>l_partial_ratio\<close> is rapidfuzz's, \<open>l_parse_date\<close> dateparser's result as \<open>%Y-%m-%d\<close>.
\<close>

record libs = interp +
  l_compile :: "pystr \<Rightarrow> re option"
  l_bool :: "pyv \<Rightarrow> bool option"
  l_int :: "pyv \<Rightarrow> int option"
  l_float :: "pyv \<Rightarrow> rat option"
  l_partial_ratio :: "pystr \<Rightarrow> pystr \<Rightarrow> rat"
  l_parse_date :: "pystr \<Rightarrow> pystr option"

subsection \<open>The model\<close>

datatype kind = Label | Regex | Positional

datatype ftype = TMoney | TText | TDate

record matcher =
  m_kind :: kind
  m_labels :: "pystr list"
  m_pattern :: "pystr option"
  m_near_right :: bool
  m_x_min_ratio :: "rat option"
  m_max_top_n :: "int option"
  m_label_fuzzy_min :: int

record field_schema =
  fs_name :: pyv
  fs_type :: ftype
  fs_required :: bool
  fs_threshold :: rat
  fs_currency :: pyv
  fs_matchers :: "matcher list"

record schema =
  sc_id :: pystr
  sc_doc_type :: pyv
  sc_fields :: "field_schema list"

text \<open>\<open>Schema.field\<close>.\<close>

definition schema_field :: "schema \<Rightarrow> pyv \<Rightarrow> field_schema option" where
  "schema_field sch n = first_some (\<lambda>f. if fs_name f = n then Some f else None) (sc_fields sch)"

subsection \<open>The matcher's validators\<close>

fun kind_of :: "pyv \<Rightarrow> kind option" where
  "kind_of (PStr s) =
     (if s = U ''label'' then Some Label
      else if s = U ''regex'' then Some Regex
      else if s = U ''positional'' then Some Positional else None)"
| "kind_of _ = None"

fun str_of :: "pyv \<Rightarrow> pystr option" where
  "str_of (PStr s) = Some s"
| "str_of _ = None"

fun strs_of :: "pyv \<Rightarrow> pystr list option" where
  "strs_of (PList vs) =
     (if list_all (\<lambda>v. str_of v \<noteq> None) vs then Some (map (\<lambda>v. the (str_of v)) vs) else None)"
| "strs_of _ = None"

text \<open>A field of type \<open>T | None\<close>.\<close>

definition optional :: "(pyv \<Rightarrow> 'a option) \<Rightarrow> pyv \<Rightarrow> 'a option option" where
  "optional conv v = (if v = PNone then Some None else map_option Some (conv v))"

definition bad_matcher :: "string \<Rightarrow> exn" where
  "bad_matcher what = ValueError (U ''1 validation error for Matcher: '' @ U what)"

text \<open>\<open>Matcher._validate\<close>, after every field has been validated.\<close>

definition check_matcher :: "matcher \<Rightarrow> matcher res" where
  "check_matcher m =
     (if m_kind m = Label \<and> m_labels m = [] then Inl (bad_matcher ''label matcher needs labels'')
      else if m_kind m = Regex \<and> (m_pattern m = None \<or> m_pattern m = Some [])
           then Inl (bad_matcher ''regex matcher needs pattern'')
      else if m_kind m = Positional \<and> m_x_min_ratio m = None \<and> m_max_top_n m = None
           then Inl (bad_matcher ''positional matcher needs x_min_ratio or max_top_n'')
      else Inr m)"

text \<open>
  The construction of a \<open>Matcher\<close>: a pattern that does not compile raises \<open>re.error\<close> out of
  the field validator; any other bad field is a validation error.
\<close>

definition make_matcher ::
  "libs \<Rightarrow> pyv \<Rightarrow> pyv \<Rightarrow> pyv \<Rightarrow> pyv \<Rightarrow> pyv \<Rightarrow> pyv \<Rightarrow> pyv \<Rightarrow> matcher res" where
  "make_matcher L kind labels pattern near_right x_min_ratio max_top_n fuzzy_min =
     rbind (case optional str_of pattern of
              Some (Some p) \<Rightarrow>
                if l_compile L p = None then Inl (LibraryError (U ''re.error'')) else Inr ()
            | _ \<Rightarrow> Inr ())
     (\<lambda>_. case (kind_of kind, strs_of labels, optional str_of pattern) of
        (Some k, Some ls, Some p) \<Rightarrow>
          (case (l_bool L near_right, optional (l_float L) x_min_ratio, optional (l_int L) max_top_n,
                 l_int L fuzzy_min) of
             (Some nr, Some x, Some n, Some fm) \<Rightarrow>
               check_matcher \<lparr>m_kind = k, m_labels = ls, m_pattern = p, m_near_right = nr,
                 m_x_min_ratio = x, m_max_top_n = n, m_label_fuzzy_min = fm\<rparr>
           | _ \<Rightarrow> Inl (bad_matcher ''input should be valid''))
      | _ \<Rightarrow> Inl (bad_matcher ''input should be valid''))"

subsection \<open>Parsing one document\<close>

text \<open>\<open>k in v\<close>, \<open>float(v)\<close>.\<close>

fun py_in :: "pystr \<Rightarrow> pyv \<Rightarrow> bool res" where
  "py_in k (PDict kvs) = Inr (k \<in> fst ` set kvs)"
| "py_in k (PList vs) = Inr (PStr k \<in> set vs)"
| "py_in k (PStr s) = Inr (py_find s k \<noteq> None)"
| "py_in k v = Inl (TypeError (U ''argument of type '' @ py_repr (U (py_class v)) @ U '' is not iterable''))"

fun py_float :: "libs \<Rightarrow> pyv \<Rightarrow> rat res" where
  "py_float L (PFloat x) = Inr x"
| "py_float L (PInt n) = Inr (rnd (of_int n))"
| "py_float L (PBool b) = Inr (if b then 1 else 0)"
| "py_float L (PStr s) =
     (case i_float_of_str L s of
        Some x \<Rightarrow> Inr x
      | None \<Rightarrow> Inl (ValueError (U ''could not convert string to float: '' @ py_repr s)))"
| "py_float L v =
     Inl (TypeError (U ''float() argument must be a string or a real number, not ''
                       @ py_repr (U (py_class v))))"

text \<open>The test \<open>ftype not in KNOWN_TYPES\<close>: a list or a dict has no hash.\<close>

fun ftype_of :: "pyv \<Rightarrow> ftype option res" where
  "ftype_of (PStr s) =
     Inr (if s = U ''money'' then Some TMoney else if s = U ''text'' then Some TText
          else if s = U ''date'' then Some TDate else None)"
| "ftype_of (PList _) = Inl (TypeError (U ''unhashable type: '' @ py_repr (U ''list'')))"
| "ftype_of (PDict _) = Inl (TypeError (U ''unhashable type: '' @ py_repr (U ''dict'')))"
| "ftype_of _ = Inr None"

definition parse_matcher :: "libs \<Rightarrow> pyv \<Rightarrow> matcher res" where
  "parse_matcher L m =
     rbind (py_item m (U ''kind'')) (\<lambda>kind.
     rbind (py_get m (U ''labels'') (PList [])) (\<lambda>labels.
     rbind (py_get m (U ''pattern'') PNone) (\<lambda>pattern.
     rbind (py_get m (U ''near_right'') (PBool False)) (\<lambda>near_right.
     rbind (py_get m (U ''x_min_ratio'') PNone) (\<lambda>x_min_ratio.
     rbind (py_get m (U ''max_top_n'') PNone) (\<lambda>max_top_n.
     rbind (py_get m (U ''label_fuzzy_min'') (PInt 82)) (\<lambda>fuzzy_min.
       make_matcher L kind labels pattern near_right x_min_ratio max_top_n fuzzy_min)))))))"

text \<open>The part of a field after its matchers: threshold, type and the rest.\<close>

definition parse_field_rest :: "libs \<Rightarrow> pystr \<Rightarrow> pyv \<Rightarrow> pyv \<Rightarrow> matcher list \<Rightarrow> field_schema res" where
  "parse_field_rest L source f name matchers =
     rbind (py_get f (U ''threshold'') (PFloat (rnd (7 / 10)))) (\<lambda>t.
     rbind (py_float L t) (\<lambda>threshold.
       if \<not> (0 \<le> threshold \<and> threshold \<le> 1)
       then Inl (ValueError (source @ U '': threshold for '' @ py_repr_v (interp.truncate L) name
                               @ U '' outside 0-1''))
       else
     rbind (py_get f (U ''type'') (PStr (U ''text''))) (\<lambda>ty.
     rbind (ftype_of ty) (\<lambda>known.
       case known of
         None \<Rightarrow> Inl (ValueError (source @ U '': unknown type '' @ py_repr_v (interp.truncate L) ty
                                   @ U '' for '' @ py_repr_v (interp.truncate L) name))
       | Some ftype \<Rightarrow>
     rbind (py_get f (U ''required'') (PBool True)) (\<lambda>required.
     rbind (py_get f (U ''currency'') (PStr (U ''IDR''))) (\<lambda>currency.
       Inr \<lparr>fs_name = name, fs_type = ftype, fs_required = truthy required,
            fs_threshold = threshold, fs_currency = currency, fs_matchers = matchers\<rparr>))))))"

definition parse_field :: "libs \<Rightarrow> pystr \<Rightarrow> pyv \<Rightarrow> field_schema res" where
  "parse_field L source f =
     rbind (py_in (U ''name'') f) (\<lambda>named.
       if \<not> named then Inl (ValueError (source @ U '': field without name''))
       else
     rbind (py_get f (U ''matchers'') (PList [])) (\<lambda>ms.
     rbind (py_iter ms) (\<lambda>items.
     rbind (rmap (parse_matcher L) items) (\<lambda>matchers.
     rbind (py_item f (U ''name'')) (\<lambda>name.
       if matchers = []
       then Inl (ValueError (source @ U '': field '' @ py_repr_v (interp.truncate L) name
                               @ U '' has no matchers''))
       else parse_field_rest L source f name matchers)))))"

definition parse_schema :: "libs \<Rightarrow> pyv \<Rightarrow> pystr \<Rightarrow> schema res" where
  "parse_schema L raw source =
     (case raw of
        PDict kvs \<Rightarrow>
          (case (map_of kvs (U ''schema_id''), map_of kvs (U ''fields'')) of
             (Some sid, Some fs) \<Rightarrow>
               rbind (py_iter fs) (\<lambda>items.
               rbind (rmap (parse_field L source) items) (\<lambda>fields.
                 if fields = [] then Inl (ValueError (source @ U '': schema has no fields''))
                 else (case sid of
                         PStr s \<Rightarrow>
                           Inr \<lparr>sc_id = s,
                                sc_doc_type = (case map_of kvs (U ''doc_type'') of
                                                 Some d \<Rightarrow> d | None \<Rightarrow> PStr (hd (py_split 64 s))),
                                sc_fields = fields\<rparr>
                       | _ \<Rightarrow> Inl (no_attr (py_class sid) ''split''))))
           | _ \<Rightarrow> Inl (ValueError (source @ U '': schema must define schema_id and fields'')))
      | _ \<Rightarrow> Inl (ValueError (source @ U '': schema must define schema_id and fields'')))"

subsection \<open>Loading the directory\<close>

type_synonym schema_map = "(pystr \<times> schema) list"

text \<open>
  \<open>docs\<close> lists, in the order of the sorted paths, the name of each \<open>*.yaml\<close> file with what
  reading and decoding it gives.
\<close>

fun load_docs :: "libs \<Rightarrow> (pystr \<times> pyv res) list \<Rightarrow> schema_map \<Rightarrow> schema_map res" where
  "load_docs L [] schemas = Inr schemas"
| "load_docs L ((name, doc) # docs) schemas =
     rbind doc (\<lambda>raw.
     rbind (parse_schema L raw name) (\<lambda>sch.
       if sc_id sch \<in> fst ` set schemas
       then Inl (ValueError (U ''duplicate schema_id '' @ py_repr (sc_id sch) @ U '' in '' @ name))
       else load_docs L docs (schemas @ [(sc_id sch, sch)])))"

definition load_schemas :: "libs \<Rightarrow> pystr \<Rightarrow> (pystr \<times> pyv res) list \<Rightarrow> schema_map res" where
  "load_schemas L dir docs =
     rbind (load_docs L docs []) (\<lambda>schemas.
       if schemas = [] then Inl (ValueError (U ''no extraction schemas found in '' @ dir))
       else Inr schemas)"

subsection \<open>Well-formed schemas\<close>

definition wf_matcher :: "libs \<Rightarrow> matcher \<Rightarrow> bool" where
  "wf_matcher L m \<longleftrightarrow>
     (case m_pattern m of Some p \<Rightarrow> l_compile L p \<noteq> None | None \<Rightarrow> True)
     \<and> (case m_kind m of
           Label \<Rightarrow> m_labels m \<noteq> []
         | Regex \<Rightarrow> m_pattern m \<noteq> None \<and> m_pattern m \<noteq> Some []
         | Positional \<Rightarrow> m_x_min_ratio m \<noteq> None \<or> m_max_top_n m \<noteq> None)"

definition wf_field :: "libs \<Rightarrow> field_schema \<Rightarrow> bool" where
  "wf_field L f \<longleftrightarrow>
     fs_matchers f \<noteq> [] \<and> list_all (wf_matcher L) (fs_matchers f)
     \<and> 0 \<le> fs_threshold f \<and> fs_threshold f \<le> 1"

definition wf_schema :: "libs \<Rightarrow> schema \<Rightarrow> bool" where
  "wf_schema L sch \<longleftrightarrow> sc_fields sch \<noteq> [] \<and> list_all (wf_field L) (sc_fields sch)"

lemma check_matcher_Inr:
  "check_matcher m = Inr n \<Longrightarrow>
     n = m \<and> (case m_kind m of
           Label \<Rightarrow> m_labels m \<noteq> []
         | Regex \<Rightarrow> m_pattern m \<noteq> None \<and> m_pattern m \<noteq> Some []
         | Positional \<Rightarrow> m_x_min_ratio m \<noteq> None \<or> m_max_top_n m \<noteq> None)"
  by (auto simp: check_matcher_def split: if_splits kind.splits)

lemma make_matcher_wf: "make_matcher L k ls p nr x n fm = Inr m \<Longrightarrow> wf_matcher L m"
  by (auto simp: make_matcher_def rbind_eq_Inr wf_matcher_def split: option.splits if_splits
      dest!: check_matcher_Inr)

lemma parse_matcher_wf: "parse_matcher L v = Inr m \<Longrightarrow> wf_matcher L m"
  by (auto simp: parse_matcher_def rbind_eq_Inr intro: make_matcher_wf)

lemma parse_field_rest_wf:
  "parse_field_rest L src f name ms = Inr fs \<Longrightarrow>
     fs_matchers fs = ms \<and> 0 \<le> fs_threshold fs \<and> fs_threshold fs \<le> 1"
  unfolding parse_field_rest_def
  by (elim rbind_InrE, simp split: if_splits option.splits) (elim rbind_InrE conjE, simp split: option.splits, elim rbind_InrE, auto)

lemma parse_field_wf:
  assumes "parse_field L src f = Inr fs"
  shows "wf_field L fs"
proof -
  obtain items ms name where ms: "rmap (parse_matcher L) items = Inr ms" and ne: "ms \<noteq> []"
      and rest: "parse_field_rest L src f name ms = Inr fs"
    using assms by (auto simp: parse_field_def rbind_eq_Inr split: if_splits)
  have "wf_matcher L m" if "m \<in> set ms" for m
    using rmap_Inr_all [OF ms _ that, of "wf_matcher L"] parse_matcher_wf by blast
  with ne parse_field_rest_wf [OF rest] show ?thesis by (simp add: wf_field_def list_all_iff)
qed

lemma parse_schema_Inr:
  assumes "parse_schema L raw src = Inr sch"
  obtains items where "rmap (parse_field L src) items = Inr (sc_fields sch)" and "sc_fields sch \<noteq> []"
proof -
  obtain kvs where raw: "raw = PDict kvs" using assms by (cases raw) (auto simp: parse_schema_def)
  obtain sid fs where "map_of kvs (U ''schema_id'') = Some sid" "map_of kvs (U ''fields'') = Some fs"
    using assms by (auto simp: parse_schema_def raw split: option.splits)
  then show thesis using assms that
    by (cases sid) (auto simp: parse_schema_def raw rbind_eq_Inr split: if_splits)
qed

lemma parse_schema_wf: 
  assumes "parse_schema L raw src = Inr sch"
  shows "wf_schema L sch"
proof -
  obtain items where fs: "rmap (parse_field L src) items = Inr (sc_fields sch)" and ne: "sc_fields sch \<noteq> []"
    using parse_schema_Inr [OF assms] .
  have "wf_field L f" if "f \<in> set (sc_fields sch)" for f
    using rmap_Inr_all [OF fs _ that, of "wf_field L"] parse_field_wf by blast
  with ne show ?thesis by (simp add: wf_schema_def list_all_iff)
qed

text \<open>The index of the schemas by their id, as the servicer and the worker use it.\<close>

definition wf_schemas :: "libs \<Rightarrow> schema_map \<Rightarrow> bool" where
  "wf_schemas L schemas \<longleftrightarrow>
     distinct (map fst schemas) \<and> (\<forall>(i, sch) \<in> set schemas. sc_id sch = i \<and> wf_schema L sch)"

lemma load_docs_wf:
  "load_docs L docs acc = Inr schemas \<Longrightarrow> wf_schemas L acc \<Longrightarrow>
     wf_schemas L schemas \<and> length schemas = length acc + length docs"
proof (induction L docs acc rule: load_docs.induct)
  case (1 L schemas)
  then show ?case by simp
next
  case (2 L name doc docs acc)
  then obtain raw sch where raw: "doc = Inr raw" and sch: "parse_schema L raw name = Inr sch"
      and new: "sc_id sch \<notin> fst ` set acc"
      and load: "load_docs L docs (acc @ [(sc_id sch, sch)]) = Inr schemas"
    by (auto simp: rbind_eq_Inr split: if_splits)
  have "wf_schemas L (acc @ [(sc_id sch, sch)])"
    using "2.prems"(2) new parse_schema_wf [OF sch] by (auto simp: wf_schemas_def)
  with 2(1) [OF raw sch new load] show ?case by simp
qed

lemma load_schemas_wf:
  assumes "load_schemas L dir docs = Inr schemas"
  shows "schemas \<noteq> [] \<and> wf_schemas L schemas \<and> length schemas = length docs"
proof -
  have "load_docs L docs [] = Inr schemas" and ne: "schemas \<noteq> []"
    using assms by (auto simp: load_schemas_def rbind_eq_Inr split: if_splits)
  moreover have "wf_schemas L []" by (simp add: wf_schemas_def)
  ultimately have "wf_schemas L schemas \<and> length schemas = length ([] :: schema_map) + length docs"
    by (intro load_docs_wf)
  with ne show ?thesis by simp
qed

lemma schemas_lookup:
  "wf_schemas L schemas \<Longrightarrow> map_of schemas i = Some sch \<Longrightarrow> sc_id sch = i \<and> wf_schema L sch"
  unfolding wf_schemas_def using map_of_SomeD [of schemas i sch] by fastforce

lemma load_docs_ids:
  assumes "list_all2 (\<lambda>d sch. \<exists>raw. snd d = Inr raw \<and> parse_schema L raw (fst d) = Inr sch) docs schs"
    and "distinct (map fst acc)"
  shows "if distinct (map fst acc @ map sc_id schs)
         then load_docs L docs acc = Inr (acc @ map (\<lambda>sch. (sc_id sch, sch)) schs)
         else \<exists>m. load_docs L docs acc = Inl (ValueError m)"
  using assms
proof (induction docs schs arbitrary: acc rule: list_all2_induct)
  case Nil
  then show ?case by simp
next
  case (Cons d docs sch schs)
  obtain name doc where d: "d = (name, doc)" by fastforce
  with Cons(1) obtain raw where raw: "doc = Inr raw" "parse_schema L raw name = Inr sch" by auto
  show ?case
  proof (cases "sc_id sch \<in> fst ` set acc")
    case True
    then have "\<not> distinct (map fst acc @ map sc_id (sch # schs))" by auto
    then show ?thesis using True by (simp add: d raw del: distinct_append)
  next
    case False
    have "distinct (map fst (acc @ [(sc_id sch, sch)]))" using Cons.prems False by simp
    from Cons.IH [OF this] False show ?thesis by (simp add: d raw)
  qed
qed

text \<open>
  Names and currencies come from the decoded document, which holds no object that
  \<open>json.dumps\<close> would refuse.
\<close>

definition plain_schema :: "schema \<Rightarrow> bool" where
  "plain_schema sch \<longleftrightarrow>
     list_all (\<lambda>f. serialisable (fs_name f) \<and> serialisable (fs_currency f)) (sc_fields sch)"

lemma py_get_plain: "py_get v k d = Inr w \<Longrightarrow> serialisable v \<Longrightarrow> serialisable d \<Longrightarrow> serialisable w"
  by (cases v) (auto simp: list_all_iff split: option.splits dest: map_of_SomeD)

lemma py_item_plain: "py_item v k = Inr w \<Longrightarrow> serialisable v \<Longrightarrow> serialisable w"
  by (cases v) (auto simp: list_all_iff split: option.splits dest: map_of_SomeD)

lemma py_iter_plain: "py_iter v = Inr ws \<Longrightarrow> serialisable v \<Longrightarrow> list_all serialisable ws"
  by (cases v) (auto simp: list_all_iff)

lemma parse_field_plain:
  assumes "parse_field L src f = Inr fs" and "serialisable f"
  shows "serialisable (fs_name fs) \<and> serialisable (fs_currency fs)"
proof -
  obtain name ms where n: "py_item f (U ''name'') = Inr name" and r: "parse_field_rest L src f name ms = Inr fs"
    using assms(1) unfolding parse_field_def by (auto elim!: rbind_InrE split: if_splits)
  have "fs_name fs = name \<and> (\<exists>c. py_get f (U ''currency'') (PStr (U ''IDR'')) = Inr c \<and> fs_currency fs = c)"
    using r unfolding parse_field_rest_def
    by (elim rbind_InrE, simp split: if_splits option.splits)
      (elim rbind_InrE conjE, simp split: option.splits, elim rbind_InrE, auto)
  then show ?thesis
    using py_item_plain [OF n assms(2)] py_get_plain [of f _ _ "fs_currency fs"] assms(2) by auto
qed

subsection \<open>A schema for the applications\<close>

definition demo_libs :: libs where
  "demo_libs = \<lparr>i_lower = map (\<lambda>c. if 65 \<le> c \<and> c \<le> 90 then c + 32 else c),
     i_upper = map (\<lambda>c. if 97 \<le> c \<and> c \<le> 122 then c - 32 else c),
     i_float_repr = (\<lambda>_. U ''0.75''), i_float_of_str = (\<lambda>_. None),
     l_compile = (\<lambda>_. Some (RStar (RChr is_digit))),
     l_bool = (\<lambda>v. case v of PBool b \<Rightarrow> Some b | _ \<Rightarrow> None),
     l_int = (\<lambda>v. case v of PInt n \<Rightarrow> Some n | _ \<Rightarrow> None),
     l_float = (\<lambda>v. case v of PFloat x \<Rightarrow> Some x | _ \<Rightarrow> None),
     l_partial_ratio = (\<lambda>label txt. if py_find txt label \<noteq> None then 100 else 0),
     l_parse_date = (\<lambda>_. None)\<rparr>"

definition demo_yaml :: pyv where
  "demo_yaml = PDict [(U ''schema_id'', PStr (U ''receipt@1'')),
     (U ''fields'', PList
       [PDict [(U ''name'', PStr (U ''merchant'')), (U ''required'', PBool False),
          (U ''threshold'', PFloat (3 / 4)),
          (U ''matchers'', PList [PDict [(U ''kind'', PStr (U ''positional'')), (U ''max_top_n'', PInt 3)]])],
        PDict [(U ''name'', PStr (U ''total'')), (U ''type'', PStr (U ''money'')),
          (U ''threshold'', PFloat (3 / 4)),
          (U ''matchers'', PList [PDict [(U ''kind'', PStr (U ''label'')),
             (U ''labels'', PList [PStr (U ''total'')]), (U ''near_right'', PBool True)]])]])]"

definition demo_merchant :: field_schema where
  "demo_merchant = \<lparr>fs_name = PStr (U ''merchant''), fs_type = TText, fs_required = False,
     fs_threshold = 3 / 4, fs_currency = PStr (U ''IDR''),
     fs_matchers = [\<lparr>m_kind = Positional, m_labels = [], m_pattern = None, m_near_right = False,
       m_x_min_ratio = None, m_max_top_n = Some 3, m_label_fuzzy_min = 82\<rparr>]\<rparr>"

definition demo_total :: field_schema where
  "demo_total = \<lparr>fs_name = PStr (U ''total''), fs_type = TMoney, fs_required = True,
     fs_threshold = 3 / 4, fs_currency = PStr (U ''IDR''),
     fs_matchers = [\<lparr>m_kind = Label, m_labels = [U ''total''], m_pattern = None, m_near_right = True,
       m_x_min_ratio = None, m_max_top_n = None, m_label_fuzzy_min = 82\<rparr>]\<rparr>"

definition demo_schema :: schema where
  "demo_schema = \<lparr>sc_id = U ''receipt@1'', sc_doc_type = PStr (U ''receipt''),
     sc_fields = [demo_merchant, demo_total]\<rparr>"

lemmas parse_defs = parse_schema_def parse_field_def parse_field_rest_def parse_matcher_def
  make_matcher_def check_matcher_def optional_def

lemma demo_matchers:
  "parse_matcher demo_libs (PDict [(U ''kind'', PStr (U ''positional'')), (U ''max_top_n'', PInt 3)])
     = Inr (hd (fs_matchers demo_merchant))"
  "parse_matcher demo_libs (PDict [(U ''kind'', PStr (U ''label'')),
      (U ''labels'', PList [PStr (U ''total'')]), (U ''near_right'', PBool True)])
     = Inr (hd (fs_matchers demo_total))"
  by (simp_all add: parse_matcher_def make_matcher_def check_matcher_def optional_def demo_libs_def
      demo_merchant_def demo_total_def)

lemma demo_parse: "parse_schema demo_libs demo_yaml src = Inr demo_schema"
  by (simp add: parse_schema_def parse_field_def parse_field_rest_def demo_yaml_def demo_matchers
      demo_schema_def demo_merchant_def demo_total_def) (simp add: U_def)

subsection \<open>Properties\<close>

text \<open>
  Property C34: when the schema directory loads, there is at least one schema, every file gave
  exactly one, no two have the same id, each is indexed by its own id, and every schema is
  well formed: it has fields, each field has matchers and a threshold between 0 and 1, a label
  matcher has labels, a regex matcher a pattern that compiles, a positional matcher a bound.
\<close>

theorem load_schemas_sound:
  assumes "load_schemas L dir docs = Inr schemas"
  shows "schemas \<noteq> [] \<and> length schemas = length docs \<and> distinct (map fst schemas)
    \<and> list_all (\<lambda>(i, sch). sc_id sch = i \<and> wf_schema L sch) schemas"
  using load_schemas_wf [OF assms] by (auto simp: wf_schemas_def list_all_iff)

theorem load_schemas_sound_witness: "wf_schema demo_libs demo_schema"
  using load_schemas_sound [of demo_libs "[]" "[(U ''receipt.yaml'', Inr demo_yaml)]"
      "[(U ''receipt@1'', demo_schema)]"]
  by (simp add: load_schemas_def demo_parse demo_schema_def)

text \<open>
  A directory whose files all parse boots exactly when their schema ids are
  distinct, and then the index holds them in the order of the files; a repeated id is a
  \<open>ValueError\<close>.
\<close>

lemma load_schemas_duplicates:
  assumes "list_all2 (\<lambda>d sch. \<exists>raw. snd d = Inr raw \<and> parse_schema L raw (fst d) = Inr sch) docs schs"
    and "docs \<noteq> []"
  shows "if distinct (map sc_id schs)
         then load_schemas L dir docs = Inr (map (\<lambda>sch. (sc_id sch, sch)) schs)
         else \<exists>m. load_schemas L dir docs = Inl (ValueError m)"
proof -
  have "schs \<noteq> []" using assms by auto
  then show ?thesis using load_docs_ids [OF assms(1), of "[]"] by (auto simp: load_schemas_def)
qed

lemma load_schemas_duplicates_example:
  "\<exists>m. load_schemas demo_libs (U ''schemas'')
     [(U ''a.yaml'', Inr demo_yaml), (U ''b.yaml'', Inr demo_yaml)] = Inl (ValueError m)"
  using load_schemas_duplicates [of demo_libs
      "[(U ''a.yaml'', Inr demo_yaml), (U ''b.yaml'', Inr demo_yaml)]" "[demo_schema, demo_schema]"]
  by (simp add: demo_parse)

end
