(* ===== verification/Ocr_Extract.thy ===== *)
theory Ocr_Extract
  imports Ocr_Money Ocr_Schema "HOL-Library.Product_Lexorder" "HOL-Library.Sublist"
begin

text \<open>
  Field extraction (\<open>extraction/extract.py\<close>): the lines ranked in reading order, the matchers
  of a field tried in the order of the schema, and for each the candidates, the label or the
  pattern, the value after a label or on the line to its right, and the typed parse.
  Identity of two lines (\<open>is\<close>) is their index in the recognised list.
\<close>

subsection \<open>Extracted fields\<close>

record extracted =
  ef_name :: pyv
  ef_value :: "pystr option"
  ef_amount :: "int option"
  ef_currency :: pyv
  ef_confidence :: rat
  ef_source :: "line option"

definition has_value :: "extracted \<Rightarrow> bool" where
  "has_value e \<longleftrightarrow> ef_value e \<noteq> None \<or> ef_amount e \<noteq> None"

definition not_found :: "pyv \<Rightarrow> extracted" where
  "not_found n = \<lparr>ef_name = n, ef_value = None, ef_amount = None, ef_currency = PNone,
     ef_confidence = 0, ef_source = None\<rparr>"

text \<open>A parsed value: \<open>str | int\<close>.\<close>

datatype typed = VStr pystr | VInt int

definition make_field :: "field_schema \<Rightarrow> line \<Rightarrow> typed \<Rightarrow> extracted" where
  "make_field fs line v =
     (case (fs_type fs, v) of
        (TMoney, VInt n) \<Rightarrow> \<lparr>ef_name = fs_name fs, ef_value = None, ef_amount = Some n,
          ef_currency = fs_currency fs, ef_confidence = l_score line, ef_source = Some line\<rparr>
      | (_, VStr s) \<Rightarrow> \<lparr>ef_name = fs_name fs, ef_value = Some s, ef_amount = None,
          ef_currency = PNone, ef_confidence = l_score line, ef_source = Some line\<rparr>
      | (_, VInt n) \<Rightarrow> \<lparr>ef_name = fs_name fs, ef_value = Some (int_str n), ef_amount = None,
          ef_currency = PNone, ef_confidence = l_score line, ef_source = Some line\<rparr>)"

text \<open>\<open>_parse_typed\<close>; the argument is \<open>None\<close> for an absent text or an unmatched group.\<close>

definition parse_typed :: "libs \<Rightarrow> field_schema \<Rightarrow> pystr option \<Rightarrow> typed option" where
  "parse_typed L fs raw =
     (let inp = py_strip (case raw of Some s \<Rightarrow> s | None \<Rightarrow> [])
      in if inp = [] then None
         else (case fs_type fs of
                 TMoney \<Rightarrow> map_option VInt (parse_money inp)
               | TDate \<Rightarrow> map_option VStr (l_parse_date L inp)
               | TText \<Rightarrow> Some (VStr inp)))"

subsection \<open>Geometry of the lines\<close>

type_synonym ranked = "(nat \<times> line) list"

definition reading_key :: "nat \<times> line \<Rightarrow> int \<times> int" where
  "reading_key p = (l_y1 (snd p), l_x1 (snd p))"

definition rank_lines :: "line list \<Rightarrow> ranked" where
  "rank_lines lines = sort_key reading_key (enumerate 0 lines)"

definition page_width :: "ranked \<Rightarrow> int" where
  "page_width ranked =
     (case map (\<lambda>p. l_x2 (snd p)) ranked of [] \<Rightarrow> 1 | x # xs \<Rightarrow> fold max xs x)"

definition vertically_overlaps :: "line \<Rightarrow> line \<Rightarrow> bool" where
  "vertically_overlaps a b =
     (let a_mid = int_truediv (l_y1 a + l_y2 a) 2
      in of_int (l_y1 b) \<le> a_mid \<and> a_mid \<le> of_int (l_y2 b))"

definition right_of :: "nat \<times> line \<Rightarrow> nat \<times> line \<Rightarrow> bool" where
  "right_of p q \<longleftrightarrow>
     fst q \<noteq> fst p \<and> l_x2 (snd p) \<le> l_x1 (snd q) \<and> vertically_overlaps (snd p) (snd q)"

definition closer :: "nat \<times> line \<Rightarrow> nat \<times> line \<Rightarrow> line option \<Rightarrow> line option" where
  "closer p q best =
     (if right_of p q
      then (case best of
              None \<Rightarrow> Some (snd q)
            | Some b \<Rightarrow> if l_x1 (snd q) < l_x1 b then Some (snd q) else best)
      else best)"

definition line_to_the_right :: "nat \<times> line \<Rightarrow> ranked \<Rightarrow> line option" where
  "line_to_the_right p ranked = fold (closer p) ranked None"

subsection \<open>Labels\<close>

definition label_matches :: "libs \<Rightarrow> pystr \<Rightarrow> pystr \<Rightarrow> int \<Rightarrow> bool" where
  "label_matches L txt label min_score \<longleftrightarrow> of_int min_score \<le> l_partial_ratio L label txt"

text \<open>The characters stripped after a label: space, full-width colon, colon, equals, minus.\<close>

definition label_seps :: pystr where
  "label_seps = [32, 65306, 58, 61, 45]"

definition value_after_label :: "libs \<Rightarrow> pystr \<Rightarrow> pystr \<Rightarrow> pystr" where
  "value_after_label L txt label =
     (case py_find (i_lower L txt) (take (min (length label) 6) label) of
        None \<Rightarrow> txt
      | Some i \<Rightarrow> py_lstrip label_seps (drop (i + length label) txt))"

subsection \<open>Matchers\<close>

text \<open>\<open>xs[:n]\<close>.\<close>

definition py_take :: "int \<Rightarrow> 'a list \<Rightarrow> 'a list" where
  "py_take n xs = (if 0 \<le> n then take (nat n) xs else take (length xs - nat (- n)) xs)"

text \<open>\<open>bool(match.groups())\<close>: the pattern has a group.\<close>

primrec has_groups :: "re \<Rightarrow> bool" where
  "has_groups REps = False"
| "has_groups (RChr p) = False"
| "has_groups (RSeq r s) = (has_groups r \<or> has_groups s)"
| "has_groups (RAlt r s) = (has_groups r \<or> has_groups s)"
| "has_groups (ROpt r) = has_groups r"
| "has_groups (RStar r) = has_groups r"
| "has_groups (RRep m n r) = has_groups r"
| "has_groups (RGroup k r) = True"
| "has_groups (RNotBehind p) = False"
| "has_groups (RNotAhead p) = False"

definition label_value :: "libs \<Rightarrow> field_schema \<Rightarrow> matcher \<Rightarrow> ranked \<Rightarrow> nat \<times> line \<Rightarrow> pystr \<Rightarrow> extracted option" where
  "label_value L fs m ranked p label =
     (let line = snd p; value_part = value_after_label L (l_text line) label
      in if \<not> label_matches L (i_lower L (l_text line)) label (m_label_fuzzy_min m) then None
         else if m_near_right m
         then (let right = line_to_the_right p ranked
               in case parse_typed L fs (Some value_part) of
                    Some v \<Rightarrow> Some (make_field fs line v)
                  | None \<Rightarrow>
                      (case right of
                         None \<Rightarrow> None
                       | Some r \<Rightarrow>
                           map_option (make_field fs (if l_text r = value_part then line else r))
                             (parse_typed L fs (Some (l_text r)))))
         else map_option (make_field fs line) (parse_typed L fs (Some value_part)))"

definition regex_value :: "libs \<Rightarrow> field_schema \<Rightarrow> re \<Rightarrow> line \<Rightarrow> extracted option" where
  "regex_value L fs r line =
     (case re_search r (l_text line) of
        None \<Rightarrow> None
      | Some mt \<Rightarrow> map_option (make_field fs line)
                    (parse_typed L fs (if has_groups r then group_of mt 1 else Some (group0 mt))))"

definition line_value :: "libs \<Rightarrow> field_schema \<Rightarrow> matcher \<Rightarrow> ranked \<Rightarrow> nat \<times> line \<Rightarrow> extracted option res" where
  "line_value L fs m ranked p =
     (case m_kind m of
        Label \<Rightarrow> Inr (first_some (label_value L fs m ranked p) (m_labels m))
      | Regex \<Rightarrow>
          (case m_pattern m of
             None \<Rightarrow> Inl (TypeError (U ''first argument must be string or compiled pattern''))
           | Some pat \<Rightarrow>
               (case l_compile L pat of
                  None \<Rightarrow> Inl (LibraryError (U ''re.error''))
                | Some r \<Rightarrow> Inr (regex_value L fs r (snd p))))
      | Positional \<Rightarrow> Inr None)"

text \<open>A loop that returns at the first value found and lets an exception out.\<close>

fun first_found :: "('a \<Rightarrow> 'b option res) \<Rightarrow> 'a list \<Rightarrow> 'b option res" where
  "first_found f [] = Inr None"
| "first_found f (x # xs) =
     rbind (f x) (\<lambda>r. case r of Some y \<Rightarrow> Inr (Some y) | None \<Rightarrow> first_found f xs)"

definition candidates_of :: "matcher \<Rightarrow> ranked \<Rightarrow> ranked" where
  "candidates_of m ranked = (case m_max_top_n m of None \<Rightarrow> ranked | Some n \<Rightarrow> py_take n ranked)"

definition positional_pool :: "matcher \<Rightarrow> ranked \<Rightarrow> ranked" where
  "positional_pool m candidates =
     filter (\<lambda>p. case m_x_min_ratio m of
               None \<Rightarrow> True
             | Some x \<Rightarrow> fl_mul x (rnd (of_int (page_width candidates))) \<le> of_int (l_x1 (snd p)))
       candidates"

definition positional_value :: "libs \<Rightarrow> field_schema \<Rightarrow> matcher \<Rightarrow> ranked \<Rightarrow> extracted option" where
  "positional_value L fs m candidates =
     first_some (\<lambda>p. map_option (make_field fs (snd p)) (parse_typed L fs (Some (l_text (snd p)))))
       (positional_pool m candidates)"

definition apply_matcher :: "libs \<Rightarrow> field_schema \<Rightarrow> ranked \<Rightarrow> matcher \<Rightarrow> extracted option res" where
  "apply_matcher L fs ranked m =
     (let candidates = candidates_of m ranked
      in case (if m_kind m = Positional then positional_value L fs m candidates else None) of
           Some e \<Rightarrow> Inr (Some e)
         | None \<Rightarrow> first_found (line_value L fs m ranked) candidates)"

definition extract_one :: "libs \<Rightarrow> ranked \<Rightarrow> field_schema \<Rightarrow> extracted res" where
  "extract_one L ranked fs =
     rbind (first_found (apply_matcher L fs ranked) (fs_matchers fs))
       (\<lambda>found. Inr (case found of Some e \<Rightarrow> e | None \<Rightarrow> not_found (fs_name fs)))"

definition extract_fields :: "libs \<Rightarrow> schema \<Rightarrow> line list \<Rightarrow> extracted list res" where
  "extract_fields L sch lines = rmap (extract_one L (rank_lines lines)) (sc_fields sch)"

subsection \<open>The loops\<close>

lemma first_found_split:
  assumes "first_found f xs = Inr (Some y)"
  shows "\<exists>us x vs. xs = us @ x # vs \<and> f x = Inr (Some y) \<and> (\<forall>u \<in> set us. f u = Inr None)"
  using assms
proof (induction xs)
  case Nil
  then show ?case by simp
next
  case (Cons a xs)
  from Cons.prems obtain r where r: "f a = Inr r"
      and c: "(case r of Some z \<Rightarrow> Inr (Some z) | None \<Rightarrow> first_found f xs) = Inr (Some y)"
    by (auto elim: rbind_InrE)
  show ?case
  proof (cases r)
    case None
    with c Cons.IH obtain us x vs
      where "xs = us @ x # vs" and "f x = Inr (Some y)" and "\<forall>u \<in> set us. f u = Inr None"
      by auto
    with None r have "a # xs = (a # us) @ x # vs \<and> f x = Inr (Some y) \<and> (\<forall>u \<in> set (a # us). f u = Inr None)"
      by simp
    then show ?thesis by blast
  next
    case (Some z)
    with c r have "a # xs = [] @ a # xs \<and> f a = Inr (Some y) \<and> (\<forall>u \<in> set []. f u = Inr None)" by simp
    then show ?thesis by blast
  qed
qed

lemma first_found_total:
  "(\<And>x. x \<in> set xs \<Longrightarrow> \<exists>r. f x = Inr r) \<Longrightarrow> \<exists>r. first_found f xs = Inr r"
proof (induction xs)
  case Nil
  then show ?case by simp
next
  case (Cons x xs)
  then obtain r r' where "f x = Inr r" and "first_found f xs = Inr r'" by fastforce
  then show ?case by (cases r) auto
qed

subsection \<open>Reading order\<close>

lemma set_rank_lines: "set (rank_lines lines) = set (enumerate 0 lines)"
  by (simp add: rank_lines_def)

lemma snd_rank_lines: "snd ` set (rank_lines lines) = set lines"
  by (metis set_rank_lines list.set_map map_snd_enumerate)

lemma sorted_rank_lines: "sorted (map reading_key (rank_lines lines))"
  by (simp add: rank_lines_def)

lemma candidates_prefix: "\<exists>n. candidates_of m ranked = take n ranked"
proof (cases "m_max_top_n m")
  case None
  then have "candidates_of m ranked = take (length ranked) ranked" by (simp add: candidates_of_def)
  then show ?thesis by blast
next
  case (Some k)
  then have "candidates_of m ranked = take (if 0 \<le> k then nat k else length ranked - nat (- k)) ranked"
    by (simp add: candidates_of_def py_take_def)
  then show ?thesis by blast
qed

lemma candidates_subset: "set (candidates_of m ranked) \<subseteq> set ranked"
  using candidates_prefix [of m ranked] set_take_subset [of _ ranked] by metis

lemma sorted_candidates:
  "sorted (map reading_key ranked) \<Longrightarrow> sorted (map reading_key (candidates_of m ranked))"
  using candidates_prefix [of m ranked] sorted_wrt_take [of _ "map reading_key ranked"]
  by (metis take_map)

subsection \<open>Where a value comes from\<close>

text \<open>
  \<open>e\<close> is the typed parse of a contiguous piece of the text of one of the lines \<open>S\<close>, with the
  score and the place of that line.
\<close>

definition from_lines :: "libs \<Rightarrow> field_schema \<Rightarrow> line set \<Rightarrow> extracted \<Rightarrow> bool" where
  "from_lines L fs S e \<longleftrightarrow>
     (\<exists>line \<in> S. \<exists>txt v. sublist txt (l_text line) \<and> parse_typed L fs (Some txt) = Some v
                  \<and> e = make_field fs line v)"

lemma from_linesI:
  "line \<in> S \<Longrightarrow> sublist txt (l_text line) \<Longrightarrow> map_option (make_field fs line) (parse_typed L fs (Some txt)) = Some e \<Longrightarrow>
     from_lines L fs S e"
  by (auto simp: from_lines_def)

lemma value_after_label_sublist: "sublist (value_after_label L txt label) txt"
proof (cases "py_find (i_lower L txt) (take (min (length label) 6) label)")
  case None
  then show ?thesis by (simp add: value_after_label_def)
next
  case (Some i)
  have "suffix (dropWhile P (drop k txt)) txt" for P k
    by (meson suffix_dropWhile suffix_drop suffix_order.trans)
  with Some show ?thesis
    by (simp add: value_after_label_def py_lstrip_def suffix_imp_sublist)
qed

text \<open>What a match captures lies in the text.\<close>

definition caps_in :: "pystr \<Rightarrow> mpos \<Rightarrow> bool" where
  "caps_in inp st \<longleftrightarrow> rev (pre st) @ rest st = inp \<and> (\<forall>(k, w) \<in> set (caps st). sublist w inp)"

lemma caps_in_chr: "t \<in> set (chr_step p s) \<Longrightarrow> caps_in inp s \<Longrightarrow> caps_in inp t"
  by (auto simp: chr_step_def caps_in_def split: list.splits if_splits)

lemma caps_in_group:
  assumes "t \<in> set (rmatches r s)" and "caps_in inp s" and "caps_in inp t"
  shows "caps_in inp (t\<lparr>caps := (k, consumed s t) # caps t\<rparr>)"
proof -
  obtain w where w: "advances s t w" using rmatches_lang [OF assms(1)] by blast
  then have "inp = rev (pre s) @ w @ rest t" using assms(2) by (simp add: caps_in_def advances_def)
  then have "sublist w inp" by (simp add: sublist_appendI)
  then show ?thesis using assms(3) consumed_advances [OF w] by (simp add: caps_in_def)
qed

lemma rmatches_caps_in: "t \<in> set (rmatches r s) \<Longrightarrow> caps_in inp s \<Longrightarrow> caps_in inp t"
proof (induction r arbitrary: s t)
  case (RChr p)
  then show ?case using caps_in_chr by simp
next
  case (RSeq r1 r2)
  obtain u where "u \<in> set (rmatches r1 s)" and "t \<in> set (rmatches r2 u)"
    using RSeq.prems(1) by (rule rmatches_SeqE)
  with RSeq show ?case by blast
next
  case (RStar r)
  show ?case using RStar by (intro star_iter_inv [of "rmatches r" "caps_in inp" t _ s]) auto
next
  case (RRep m n r)
  show ?case using RRep by (intro rep_iter_inv [of "rmatches r" "caps_in inp" t m n s]) auto
next
  case (RGroup k r)
  then show ?case using caps_in_group by auto
qed (auto split: list.splits if_splits)

lemma search_pieces:
  assumes "re_search r inp = Some mt"
  shows "sublist (group0 mt) inp" and "group_of mt k = Some w \<Longrightarrow> sublist w inp"
proof -
  obtain s t where mt: "mt = (s, t)" by fastforce
  have st: "rsearch_from r [] inp = Some (s, t)" using assms by (simp add: re_search_def mt)
  have t: "t \<in> set (rmatches r s)" and s: "caps_in inp s"
    using rsearch_from_Some [OF st] by (auto simp: caps_in_def)
  have "sublist (consumed s t) inp"
    using s sublist_appendI [of "consumed s t" "rev (pre s)" "rest t"]
      re_search_Some(4) [OF assms [unfolded mt]] by (simp add: caps_in_def)
  then show "sublist (group0 mt) inp" by (simp add: group0_def mt)
  show "sublist w inp" if "group_of mt k = Some w"
    using rmatches_caps_in [OF t s] that map_of_SomeD [of "caps t" k w]
    by (auto simp: caps_in_def group_of_def mt)
qed

lemma line_to_the_right_in:
  assumes "line_to_the_right p ranked = Some r"
  shows "r \<in> snd ` set ranked"
proof -
  have "fold (closer p) qs best = Some r \<Longrightarrow> best = Some r \<or> r \<in> snd ` set qs" for qs best
    by (induction qs arbitrary: best) (auto simp: closer_def split: if_splits option.splits)
  from this [OF assms [unfolded line_to_the_right_def]] show ?thesis by simp
qed

lemma label_value_from:
  assumes e: "label_value L fs m ranked p label = Some e" and p: "p \<in> set ranked"
  shows "from_lines L fs (snd ` set ranked) e"
proof -
  let ?part = "value_after_label L (l_text (snd p)) label"
  have here: "from_lines L fs (snd ` set ranked) e'"
    if "map_option (make_field fs (snd p)) (parse_typed L fs (Some ?part)) = Some e'" for e'
    using that p value_after_label_sublist by (intro from_linesI [of "snd p"]) auto
  show ?thesis
  proof (cases "m_near_right m \<and> parse_typed L fs (Some ?part) = None")
    case True
    then obtain r v where r: "line_to_the_right p ranked = Some r"
        and v: "parse_typed L fs (Some (l_text r)) = Some v"
        and ev: "e = make_field fs (if l_text r = ?part then snd p else r) v"
      using e by (auto simp: label_value_def Let_def split: if_splits option.splits)
    have "l_text r \<noteq> ?part" using True v by auto
    with ev v have "map_option (make_field fs r) (parse_typed L fs (Some (l_text r))) = Some e" by simp
    then show ?thesis using line_to_the_right_in [OF r] by (intro from_linesI [of r]) auto
  next
    case False
    then have "map_option (make_field fs (snd p)) (parse_typed L fs (Some ?part)) = Some e"
      using e by (auto simp: label_value_def Let_def split: if_splits option.splits)
    then show ?thesis by (rule here)
  qed
qed

lemma regex_value_from:
  assumes e: "regex_value L fs r line = Some e" and line: "line \<in> S"
  shows "from_lines L fs S e"
proof -
  obtain mt where mt: "re_search r (l_text line) = Some mt"
      and v: "map_option (make_field fs line)
                (parse_typed L fs (if has_groups r then group_of mt 1 else Some (group0 mt))) = Some e"
    using e by (auto simp: regex_value_def split: option.splits)
  then obtain w where w: "(if has_groups r then group_of mt 1 else Some (group0 mt)) = Some w"
    by (cases "if has_groups r then group_of mt 1 else Some (group0 mt)")
      (auto simp: parse_typed_def py_strip_def)
  then have "sublist w (l_text line)"
    using search_pieces [OF mt] by (auto split: if_splits)
  with v w line show ?thesis by (intro from_linesI [of line]) auto
qed

lemma line_value_from:
  assumes "line_value L fs m ranked p = Inr (Some e)" and "p \<in> set ranked"
  shows "from_lines L fs (snd ` set ranked) e"
  using assms label_value_from [of L fs m ranked p] regex_value_from [of L fs _ "snd p" e]
  by (auto simp: line_value_def split: kind.splits option.splits dest!: first_some_Some)

lemma apply_matcher_from:
  assumes "apply_matcher L fs ranked m = Inr (Some e)"
  shows "from_lines L fs (snd ` set ranked) e"
proof (cases "m_kind m = Positional \<and> positional_value L fs m (candidates_of m ranked) \<noteq> None")
  case True
  then have "positional_value L fs m (candidates_of m ranked) = Some e"
    using assms by (auto simp: apply_matcher_def)
  then obtain p where "p \<in> set ranked"
      and "map_option (make_field fs (snd p)) (parse_typed L fs (Some (l_text (snd p)))) = Some e"
    using candidates_subset [of m ranked]
    unfolding positional_value_def positional_pool_def by (auto dest!: first_some_Some)
  then show ?thesis by (intro from_linesI [of "snd p"]) auto
next
  case False
  then have "first_found (line_value L fs m ranked) (candidates_of m ranked) = Inr (Some e)"
    using assms by (auto simp: apply_matcher_def Let_def split: option.splits if_splits)
  then obtain p where "p \<in> set (candidates_of m ranked)" and "line_value L fs m ranked p = Inr (Some e)"
    using first_found_split by (metis in_set_conv_decomp)
  then show ?thesis using candidates_subset [of m ranked] line_value_from by blast
qed

subsection \<open>Lines for the applications\<close>

definition demo_lines :: "line list" where
  "demo_lines =
     [\<lparr>l_text = U ''Rp 27.500'', l_score = 7 / 8, l_x1 = 200, l_y1 = 100, l_x2 = 300, l_y2 = 120, l_page = 1\<rparr>,
      \<lparr>l_text = U ''Total:'', l_score = 7 / 8, l_x1 = 10, l_y1 = 100, l_x2 = 60, l_y2 = 120, l_page = 1\<rparr>,
      \<lparr>l_text = U ''Warung'', l_score = 7 / 8, l_x1 = 10, l_y1 = 10, l_x2 = 80, l_y2 = 30, l_page = 1\<rparr>]"

definition demo_extracted :: "extracted list" where
  "demo_extracted =
     [\<lparr>ef_name = PStr (U ''merchant''), ef_value = Some (U ''Warung''), ef_amount = None,
       ef_currency = PNone, ef_confidence = 7 / 8, ef_source = Some (demo_lines ! 2)\<rparr>,
      \<lparr>ef_name = PStr (U ''total''), ef_value = None, ef_amount = Some 27500,
       ef_currency = PStr (U ''IDR''), ef_confidence = 7 / 8, ef_source = Some (demo_lines ! 0)\<rparr>]"

lemma demo_wf: "wf_schema demo_libs demo_schema"
  using parse_schema_wf [OF demo_parse] .

lemma demo_rank: "rank_lines demo_lines = [(2, demo_lines ! 2), (1, demo_lines ! 1), (0, demo_lines ! 0)]"
  by code_simp

lemma demo_overlap: "vertically_overlaps (demo_lines ! 1) (demo_lines ! 0)"
  by code_simp

lemma demo_money: "parse_money (U ''Rp 27.500'') = Some 27500"
  by code_simp

lemma demo_extract: "extract_fields demo_libs demo_schema demo_lines = Inr demo_extracted"
  by code_simp

subsection \<open>Totality\<close>

lemma line_value_total: "wf_matcher L m \<Longrightarrow> \<exists>r. line_value L fs m ranked p = Inr r"
  by (auto simp: line_value_def wf_matcher_def split: kind.splits option.splits)

lemma apply_matcher_total: "wf_matcher L m \<Longrightarrow> \<exists>r. apply_matcher L fs ranked m = Inr r"
  using first_found_total [of "candidates_of m ranked" "line_value L fs m ranked"] line_value_total
  by (auto simp: apply_matcher_def Let_def split: option.splits)

lemma extract_one_Inr:
  assumes "extract_one L ranked fs = Inr e"
  obtains found where "first_found (apply_matcher L fs ranked) (fs_matchers fs) = Inr found"
    and "e = (case found of Some e \<Rightarrow> e | None \<Rightarrow> not_found (fs_name fs))"
  using assms by (auto simp: extract_one_def elim: rbind_InrE)

lemma make_field_name: "ef_name (make_field fs line v) = fs_name fs"
  by (simp add: make_field_def split: ftype.splits typed.splits)

lemma make_field_facts [simp]:
  "has_value (make_field fs line v)"
  "ef_confidence (make_field fs line v) = l_score line"
  "ef_source (make_field fs line v) = Some line"
  by (simp_all add: make_field_def has_value_def split: ftype.splits typed.splits)

lemma extract_one_found:
  assumes "extract_one L ranked fs = Inr e"
  shows "e = not_found (fs_name fs) \<or> from_lines L fs (snd ` set ranked) e"
proof -
  obtain found where f: "first_found (apply_matcher L fs ranked) (fs_matchers fs) = Inr found"
      and e: "e = (case found of Some e \<Rightarrow> e | None \<Rightarrow> not_found (fs_name fs))"
    using extract_one_Inr [OF assms] .
  show ?thesis
  proof (cases found)
    case None
    with e show ?thesis by simp
  next
    case (Some x)
    with f obtain m where "apply_matcher L fs ranked m = Inr (Some x)"
      using first_found_split [of "apply_matcher L fs ranked" "fs_matchers fs" x] by blast
    then show ?thesis using apply_matcher_from e Some by simp
  qed
qed

lemma extract_one_name: "extract_one L ranked fs = Inr e \<Longrightarrow> ef_name e = fs_name fs"
  using extract_one_found [of L ranked fs e] make_field_name
  by (auto simp: not_found_def from_lines_def)

lemma extract_one_total: "wf_field L fs \<Longrightarrow> \<exists>e. extract_one L ranked fs = Inr e"
  using first_found_total [of "fs_matchers fs" "apply_matcher L fs ranked"] apply_matcher_total
  by (auto simp: extract_one_def wf_field_def list_all_iff)

lemma make_field_typed:
  assumes "parse_typed L fs raw = Some v"
  shows "if fs_type fs = TMoney
         then ef_value (make_field fs line v) = None \<and> ef_amount (make_field fs line v) \<noteq> None
         else ef_amount (make_field fs line v) = None \<and> ef_value (make_field fs line v) \<noteq> None"
  using assms by (auto simp: parse_typed_def make_field_def Let_def split: if_splits ftype.splits)

lemma extract_fields_Inr: "wf_schema L sch \<Longrightarrow> \<exists>es. extract_fields L sch lines = Inr es"
  unfolding extract_fields_def
  by (rule rmap_total) (simp add: extract_one_total wf_schema_def list_all_iff)

text \<open>
  Property C32: with a well-formed schema extraction never raises, and it gives exactly one
  result per field of the schema, in the order of the schema and under the field's name.
\<close>

theorem extract_fields_total:
  assumes "wf_schema L sch"
  shows "\<exists>es. extract_fields L sch lines = Inr es \<and> map ef_name es = map fs_name (sc_fields sch)"
proof -
  obtain es where es: "extract_fields L sch lines = Inr es"
    using extract_fields_Inr [OF assms] by blast
  then have m: "rmap (extract_one L (rank_lines lines)) (sc_fields sch) = Inr es"
    by (simp add: extract_fields_def)
  have "map ef_name es = map fs_name (sc_fields sch)"
    using rmap_Inr_length [OF m] extract_one_name [OF rmap_Inr_nth [OF m]]
    by (auto intro!: nth_equalityI)
  with es show ?thesis by blast
qed

theorem extract_fields_total_witness:
  "\<exists>es. extract_fields demo_libs demo_schema [] = Inr es \<and> length es = 2"
  using extract_fields_total [OF demo_wf, of "[]"]
  by (auto simp: demo_schema_def dest: map_eq_imp_length_eq)

text \<open>
  Property C23: no value is invented. A field that has a value carries the typed parse of a
  contiguous piece of the text of one of the recognised lines, with the score of that line as
  its confidence and that line as its place; a money field then has an amount and no text, any
  other field a text and no amount.
\<close>

theorem extracted_from_line:
  assumes "extract_fields L sch lines = Inr es" and "i < length es" and "has_value (es ! i)"
  shows "\<exists>line \<in> set lines. \<exists>txt v. sublist txt (l_text line)
      \<and> parse_typed L (sc_fields sch ! i) (Some txt) = Some v
      \<and> es ! i = make_field (sc_fields sch ! i) line v
      \<and> ef_source (es ! i) = Some line \<and> ef_confidence (es ! i) = l_score line
      \<and> (ef_amount (es ! i) \<noteq> None \<longleftrightarrow> fs_type (sc_fields sch ! i) = TMoney)
      \<and> (ef_value (es ! i) \<noteq> None \<longleftrightarrow> fs_type (sc_fields sch ! i) \<noteq> TMoney)"
proof -
  let ?fs = "sc_fields sch ! i"
  have m: "rmap (extract_one L (rank_lines lines)) (sc_fields sch) = Inr es"
    using assms(1) by (simp add: extract_fields_def)
  then have "extract_one L (rank_lines lines) ?fs = Inr (es ! i)"
    using rmap_Inr_nth [OF m] rmap_Inr_length [OF m] assms(2) by simp
  then have "from_lines L ?fs (set lines) (es ! i)"
    using extract_one_found assms(3) snd_rank_lines by (fastforce simp: not_found_def has_value_def)
  then obtain line piece v where l: "line \<in> set lines" "sublist piece (l_text line)"
      "parse_typed L ?fs (Some piece) = Some v" "es ! i = make_field ?fs line v"
    by (auto simp: from_lines_def)
  then show ?thesis using make_field_typed [OF l(3), of line]
    by (intro bexI [OF _ l(1)] exI [of _ piece] exI [of _ v]) (simp split: if_splits)
qed

theorem extracted_from_line_witness: "\<exists>line \<in> set demo_lines. ef_source (demo_extracted ! 1) = Some line"
proof -
  have "1 < length demo_extracted" and "has_value (demo_extracted ! 1)"
    by (simp_all add: demo_extracted_def has_value_def)
  from extracted_from_line [OF demo_extract this] show ?thesis by blast
qed

subsection \<open>Priority\<close>

lemma sorted_split_key:
  assumes "sorted (map f (xs @ x # ys))" and "y \<in> set (xs @ x # ys)" and "f y < f x"
  shows "y \<in> set xs"
  using assms by (auto simp: sorted_append)

text \<open>
  The first matcher of the schema that yields a value wins: all the matchers
  before it found nothing. When it is a label or a regex matcher, the line it stops at is the
  first of its candidates in reading order (top to bottom, then left to right): no candidate
  that comes strictly before it yields a value.
\<close>

lemma first_matcher_first_line:
  assumes "extract_one L (rank_lines lines) fs = Inr e" and "has_value e"
  shows "\<exists>us m vs. fs_matchers fs = us @ m # vs
      \<and> (\<forall>u \<in> set us. apply_matcher L fs (rank_lines lines) u = Inr None)
      \<and> apply_matcher L fs (rank_lines lines) m = Inr (Some e)
      \<and> (m_kind m = Positional \<or>
         (\<exists>p \<in> set (candidates_of m (rank_lines lines)).
            line_value L fs m (rank_lines lines) p = Inr (Some e)
            \<and> (\<forall>q \<in> set (candidates_of m (rank_lines lines)). reading_key q < reading_key p \<longrightarrow>
                  line_value L fs m (rank_lines lines) q = Inr None)))"
proof -
  let ?R = "rank_lines lines"
  obtain found where f: "first_found (apply_matcher L fs ?R) (fs_matchers fs) = Inr found"
      and "e = (case found of Some e \<Rightarrow> e | None \<Rightarrow> not_found (fs_name fs))"
    using extract_one_Inr [OF assms(1)] .
  then have "found = Some e" using assms(2) by (cases found) (auto simp: has_value_def not_found_def)
  then obtain us m vs where split: "fs_matchers fs = us @ m # vs"
      and m: "apply_matcher L fs ?R m = Inr (Some e)"
      and us: "\<forall>u \<in> set us. apply_matcher L fs ?R u = Inr None"
    using first_found_split [of "apply_matcher L fs ?R" "fs_matchers fs" e] f by blast
  have "\<exists>p \<in> set (candidates_of m ?R). line_value L fs m ?R p = Inr (Some e)
      \<and> (\<forall>q \<in> set (candidates_of m ?R). reading_key q < reading_key p \<longrightarrow> line_value L fs m ?R q = Inr None)"
    if "m_kind m \<noteq> Positional"
  proof -
    have "first_found (line_value L fs m ?R) (candidates_of m ?R) = Inr (Some e)"
      using m that by (simp add: apply_matcher_def)
    then obtain xs p ys where c: "candidates_of m ?R = xs @ p # ys"
        and v: "line_value L fs m ?R p = Inr (Some e)"
        and n: "\<forall>q \<in> set xs. line_value L fs m ?R q = Inr None"
      using first_found_split [of "line_value L fs m ?R" "candidates_of m ?R" e] by blast
    have "sorted (map reading_key (xs @ p # ys))"
      using sorted_candidates [OF sorted_rank_lines, of m lines] c by simp
    then have "q \<in> set xs" if "q \<in> set (candidates_of m ?R)" "reading_key q < reading_key p" for q
      using sorted_split_key [of reading_key xs p ys q] that c by simp
    with v n c show ?thesis by (intro bexI [of _ p]) auto
  qed
  then show ?thesis using split m us
    by (intro exI [of _ us] exI [of _ m] exI [of _ vs] conjI) auto
qed

lemma first_matcher_first_line_example:
  "apply_matcher demo_libs demo_total (rank_lines demo_lines) (hd (fs_matchers demo_total))
     = Inr (Some (demo_extracted ! 1))"
proof -
  have e: "extract_one demo_libs (rank_lines demo_lines) demo_total = Inr (demo_extracted ! 1)"
    by code_simp
  have v: "has_value (demo_extracted ! 1)" by (simp add: demo_extracted_def has_value_def)
  from first_matcher_first_line [OF e v] show ?thesis
    by (auto simp: demo_total_def Cons_eq_append_conv)
qed

subsection \<open>The line to the right\<close>

lemma fold_closer:
  "case fold (closer p) qs best of
     None \<Rightarrow> best = None \<and> (\<forall>q \<in> set qs. \<not> right_of p q)
   | Some r \<Rightarrow>
       (best = Some r \<and> (\<forall>q \<in> set qs. right_of p q \<longrightarrow> l_x1 r \<le> l_x1 (snd q)))
       \<or> (\<exists>xs q ys. qs = xs @ q # ys \<and> right_of p q \<and> snd q = r \<and> (\<forall>b. best = Some b \<longrightarrow> l_x1 r < l_x1 b)
            \<and> (\<forall>x \<in> set xs. right_of p x \<longrightarrow> l_x1 r < l_x1 (snd x)) \<and> (\<forall>y \<in> set ys. right_of p y \<longrightarrow> l_x1 r \<le> l_x1 (snd y)))"
proof (induction qs arbitrary: best)
  case Nil
  then show ?case by (simp split: option.splits)
next
  case (Cons q qs)
  show ?case
  proof (cases "fold (closer p) (q # qs) best")
    case None
    then have f: "fold (closer p) qs (closer p q best) = None" by simp
    have ih: "closer p q best = None" "\<forall>q \<in> set qs. \<not> right_of p q"
      using Cons.IH [of "closer p q best"] unfolding f option.case by blast+
    have "best = None \<and> \<not> right_of p q"
      using ih(1) by (cases best) (auto simp: closer_def split: if_splits)
    then show ?thesis unfolding None option.case using ih(2) by simp
  next
    case (Some r)
    then have f: "fold (closer p) qs (closer p q best) = Some r" by simp
    consider (kept) "closer p q best = Some r" "\<forall>q \<in> set qs. right_of p q \<longrightarrow> l_x1 r \<le> l_x1 (snd q)"
      | (later) xs x ys where "qs = xs @ x # ys" "right_of p x" "snd x = r" "\<forall>b. closer p q best = Some b \<longrightarrow> l_x1 r < l_x1 b"
          "\<forall>x \<in> set xs. right_of p x \<longrightarrow> l_x1 r < l_x1 (snd x)" "\<forall>y \<in> set ys. right_of p y \<longrightarrow> l_x1 r \<le> l_x1 (snd y)"
      using Cons.IH [of "closer p q best"] unfolding f option.case by blast
    then show ?thesis
    proof cases
      case kept
      show ?thesis
      proof (cases "best = Some r \<and> (right_of p q \<longrightarrow> l_x1 r \<le> l_x1 (snd q))")
        case True
        then show ?thesis using kept(2) Some by auto
      next
        case False
        then have "right_of p q" "snd q = r" "\<forall>b. best = Some b \<longrightarrow> l_x1 r < l_x1 b"
          using kept(1) by (auto simp: closer_def split: option.splits if_splits)
        then show ?thesis using kept(2) unfolding Some option.case
          by (intro disjI2 exI [of _ "[]"] exI [of _ q] exI [of _ qs]) simp
      qed
    next
      case (later xs x ys)
      have "\<forall>b. best = Some b \<longrightarrow> l_x1 r < l_x1 b" "right_of p q \<longrightarrow> l_x1 r < l_x1 (snd q)"
        using later(4) by (auto simp: closer_def split: option.splits if_splits)
      then show ?thesis using later(1-3,5,6) unfolding Some option.case
        by (intro disjI2 exI [of _ "q # xs"] exI [of _ x] exI [of _ ys]) simp
    qed
  qed
qed

lemma vertically_overlaps_exact:
  assumes "\<bar>l_y1 a + l_y2 a\<bar> \<le> 2 ^ 53"
  shows "vertically_overlaps a b \<longleftrightarrow> 2 * l_y1 b \<le> l_y1 a + l_y2 a \<and> l_y1 a + l_y2 a \<le> 2 * l_y2 b"
proof -
  have "int_truediv (l_y1 a + l_y2 a) 2 = of_int (l_y1 a + l_y2 a) / 2"
    using rnd_representable [OF representable_half [OF assms]] by (simp add: int_truediv_def)
  moreover have "of_int m \<le> (of_int s / 2 :: rat) \<longleftrightarrow> 2 * m \<le> s" for m s
    by (simp add: pos_le_divide_eq) (metis mult.commute of_int_le_iff of_int_mult of_int_numeral)
  moreover have "(of_int s / 2 :: rat) \<le> of_int m \<longleftrightarrow> s \<le> 2 * m" for m s
    by (simp add: pos_divide_le_eq) (metis mult.commute of_int_le_iff of_int_mult of_int_numeral)
  ultimately show ?thesis by (simp only: vertically_overlaps_def Let_def)
qed

text \<open>
  Property C33: for coordinates below \<open>2 ^ 52\<close> in absolute value the line to the right of a
  line is one that begins at or after its right edge and whose vertical extent contains its
  vertical middle; none of those begins further left, and of several that begin as far left it is the first in
  reading order; there is no such line exactly when the search returns nothing. The halving of the
  code is exact on these coordinates.
\<close>

theorem line_to_the_right_spec:
  assumes "\<bar>l_y1 (snd p)\<bar> \<le> 2 ^ 52" and "\<bar>l_y2 (snd p)\<bar> \<le> 2 ^ 52"
  shows "let eligible = (\<lambda>q. fst q \<noteq> fst p \<and> l_x2 (snd p) \<le> l_x1 (snd q)
                \<and> 2 * l_y1 (snd q) \<le> l_y1 (snd p) + l_y2 (snd p)
                \<and> l_y1 (snd p) + l_y2 (snd p) \<le> 2 * l_y2 (snd q))
         in case line_to_the_right p ranked of
              None \<Rightarrow> \<not> list_ex eligible ranked
            | Some r \<Rightarrow> \<exists>xs q ys. ranked = xs @ q # ys \<and> eligible q \<and> snd q = r
                \<and> list_all (\<lambda>x. l_x1 r < l_x1 (snd x)) (filter eligible xs)
                \<and> list_all (\<lambda>y. l_x1 r \<le> l_x1 (snd y)) (filter eligible ys)"
proof -
  have r: "right_of p q \<longleftrightarrow> fst q \<noteq> fst p \<and> l_x2 (snd p) \<le> l_x1 (snd q)
              \<and> 2 * l_y1 (snd q) \<le> l_y1 (snd p) + l_y2 (snd p)
              \<and> l_y1 (snd p) + l_y2 (snd p) \<le> 2 * l_y2 (snd q)" for q
    using assms vertically_overlaps_exact [of "snd p" "snd q"] by (simp add: right_of_def)
  have filtered: "list_all P (filter Q xs) \<longleftrightarrow> (\<forall>x \<in> set xs. Q x \<longrightarrow> P x)" for P Q and xs :: ranked
    by (auto simp: list_all_iff)
  show ?thesis
    using fold_closer [where p = p and qs = ranked and best = None]
    unfolding Let_def filtered r [symmetric] list_ex_iff line_to_the_right_def
    by (simp split: option.splits)
qed

theorem line_to_the_right_spec_witness:
  "line_to_the_right (1, demo_lines ! 1) (rank_lines demo_lines) \<noteq> None"
proof -
  have "\<bar>l_y1 (snd (1 :: nat, demo_lines ! 1))\<bar> \<le> 2 ^ 52" "\<bar>l_y2 (snd (1 :: nat, demo_lines ! 1))\<bar> \<le> 2 ^ 52"
    by (simp_all add: demo_lines_def)
  note spec = line_to_the_right_spec [OF this, of "rank_lines demo_lines"]
  have eligible: "\<exists>q \<in> set (rank_lines demo_lines). fst q \<noteq> Suc 0
      \<and> l_x2 (demo_lines ! 1) \<le> l_x1 (snd q)
      \<and> 2 * l_y1 (snd q) \<le> l_y1 (demo_lines ! 1) + l_y2 (demo_lines ! 1)
      \<and> l_y1 (demo_lines ! 1) + l_y2 (demo_lines ! 1) \<le> 2 * l_y2 (snd q)"
    unfolding demo_rank by (simp add: demo_lines_def)
  show ?thesis
  proof
    assume "line_to_the_right (1, demo_lines ! 1) (rank_lines demo_lines) = None"
    with spec eligible show False by (simp add: list_ex_iff) blast
  qed
qed

subsection \<open>The value after a label\<close>

lemma value_after_label_found:
  assumes "py_find (i_lower L (lab @ seps @ v)) (take 6 label) = Some 0" and "length lab = length label"
    and "set seps \<subseteq> set label_seps" and "v = [] \<or> hd v \<notin> set label_seps"
  shows "value_after_label L (lab @ seps @ v) label = v"
proof -
  have "dropWhile (\<lambda>c. c \<in> set label_seps) (seps @ v) = dropWhile (\<lambda>c. c \<in> set label_seps) v"
    using assms(3) by (intro dropWhile_append2) auto
  also have "\<dots> = v" using assms(4) by (cases v) auto
  finally have d: "dropWhile (\<lambda>c. c \<in> set label_seps) (seps @ v) = v" .
  have "take (min (length label) 6) label = take 6 label" by (simp add: min_def)
  then show ?thesis using assms(1,2) d by (simp add: value_after_label_def py_lstrip_def)
qed

lemma format_money_ends:
  assumes "0 \<le> n"
  shows "hd (format_money n (U ''IDR'')) = 73 \<and> format_money n (U ''IDR'') \<noteq> []
    \<and> py_strip (format_money n (U ''IDR'')) = format_money n (U ''IDR'')"
proof -
  obtain s g0 gs where fm: "format_money n (U ''IDR'') = s @ [73, 68, 82, 32] @ g0 @ concat (map ((#) 46) gs)"
    and g: "\<forall>g \<in> set gs. length g = 3 \<and> list_all is_digit g"
      "list_all is_digit g0" "1 \<le> length g0" "length g0 \<le> 3"
    by (rule formatted_shape)
  have h: "hd (format_money n (U ''IDR'')) = 73"
    using assms by (simp add: format_money_def U_def)
  have "is_digit (last (format_money n (U ''IDR'')))"
  proof (cases gs rule: rev_cases)
    case Nil
    with fm g show ?thesis by (cases g0 rule: rev_cases) auto
  next
    case (snoc hs g)
    then have "length g = 3" "list_all is_digit g" using g(1) by auto
    with fm snoc show ?thesis by (cases g rule: rev_cases) auto
  qed
  then have "\<not> is_space (last (format_money n (U ''IDR'')))" by (rule digit_not_space)
  with h fm show ?thesis by (intro conjI py_strip_ends_id) (auto simp: is_space_def)
qed

text \<open>
  A line that reads as a label, any of the separators and a formatted rupiah
  amount gives that amount to a money field with this label, with the line's own score and
  place, whether or not the matcher also looks to the right.
\<close>

lemma label_reads_amount:
  assumes "fs_type fs = TMoney" and "0 \<le> n" and "n < 10 ^ max_str_digits"
    and "l_text (snd p) = lab @ seps @ format_money n (U ''IDR'')"
    and "length lab = length label" and "set seps \<subseteq> set label_seps"
    and "py_find (i_lower L (l_text (snd p))) (take 6 label) = Some 0"
    and "label_matches L (i_lower L (l_text (snd p))) label (m_label_fuzzy_min m)"
  shows "label_value L fs m ranked p label =
    Some \<lparr>ef_name = fs_name fs, ef_value = None, ef_amount = Some n, ef_currency = fs_currency fs,
          ef_confidence = l_score (snd p), ef_source = Some (snd p)\<rparr>"
proof -
  let ?v = "format_money n (U ''IDR'')"
  note ends = format_money_ends [OF assms(2)]
  have part: "value_after_label L (l_text (snd p)) label = ?v"
    using assms(4-7) ends by (simp add: value_after_label_found label_seps_def)
  have "parse_money ?v = Some \<bar>n\<bar>" using assms(2,3) by (intro parse_money_formatted) simp
  then have "parse_typed L fs (Some ?v) = Some (VInt n)"
    using assms(1,2) ends by (simp add: parse_typed_def)
  then show ?thesis using assms(1,8) part by (simp add: label_value_def make_field_def Let_def)
qed

lemma label_reads_amount_example:
  "label_value demo_libs demo_total (hd (fs_matchers demo_total)) []
     (0, (demo_lines ! 1)\<lparr>l_text := U ''Total: IDR 27.500''\<rparr>) (U ''total'') \<noteq> None"
proof -
  let ?p = "(0 :: nat, (demo_lines ! 1)\<lparr>l_text := U ''Total: IDR 27.500''\<rparr>)"
  have small: "(27500 :: int) < 10 ^ max_str_digits"
  proof -
    have "(27500 :: int) < 10 ^ 5" by simp
    also have "\<dots> \<le> 10 ^ max_str_digits" by (rule power_increasing) (simp_all add: max_str_digits_def)
    finally show ?thesis .
  qed
  have "label_value demo_libs demo_total (hd (fs_matchers demo_total)) [] ?p (U ''total'') =
    Some \<lparr>ef_name = fs_name demo_total, ef_value = None, ef_amount = Some 27500,
          ef_currency = fs_currency demo_total, ef_confidence = l_score (snd ?p), ef_source = Some (snd ?p)\<rparr>"
  proof (rule label_reads_amount [where lab = "U ''Total''" and seps = "U '': ''" and n = 27500])
    show "l_text (snd ?p) = U ''Total'' @ U '': '' @ format_money 27500 (U ''IDR'')" by code_simp
    show "fs_type demo_total = TMoney" by (simp add: demo_total_def)
    show "(27500 :: int) < 10 ^ max_str_digits" by (rule small)
    show "set (U '': '') \<subseteq> set label_seps" by code_simp
    show "py_find (i_lower demo_libs (l_text (snd ?p))) (take 6 (U ''total'')) = Some 0" by code_simp
    show "label_matches demo_libs (i_lower demo_libs (l_text (snd ?p))) (U ''total'')
            (m_label_fuzzy_min (hd (fs_matchers demo_total)))" by code_simp
  qed simp_all
  then show ?thesis by simp
qed

end
