(* ===== verification/Ocr_Validate.thy ===== *)
theory Ocr_Validate
  imports Ocr_Extract
begin

text \<open>
  From extracted fields to the result of the contract (\<open>extraction/validate.py\<close>): one
  dictionary per schema field with its status, the issues, the mean confidence (in floating
  point, as \<open>sum\<close> and \<open>/\<close> compute it) and the terminal status of the document.
\<close>

record document_result =
  dr_schema_version :: pystr
  dr_avg_confidence :: rat
  dr_fields :: "pyv list"
  dr_issues :: "pyv list"

definition to_dict :: "document_result \<Rightarrow> pyv" where
  "to_dict r = PDict
     [(U ''schema_version'', PStr (dr_schema_version r)),
      (U ''avg_confidence'', PFloat (round4 (dr_avg_confidence r))),
      (U ''fields'', PList (dr_fields r)),
      (U ''issues'', PList (dr_issues r))]"

text \<open>\<open>d[k] = v\<close> on the items of a dictionary.\<close>

fun dict_set :: "pystr \<Rightarrow> pyv \<Rightarrow> (pystr \<times> pyv) list \<Rightarrow> (pystr \<times> pyv) list" where
  "dict_set k v [] = [(k, v)]"
| "dict_set k v ((k', w) # kvs) = (if k' = k then (k', v) # kvs else (k', w) # dict_set k v kvs)"

definition opt_str :: "pystr option \<Rightarrow> pyv" where
  "opt_str s = (case s of Some t \<Rightarrow> PStr t | None \<Rightarrow> PNone)"

definition opt_int :: "int option \<Rightarrow> pyv" where
  "opt_int n = (case n of Some k \<Rightarrow> PInt k | None \<Rightarrow> PNone)"

text \<open>The field dictionaries: \<open>_extracted\<close>, \<open>_low_confidence\<close> and \<open>_missing\<close>.\<close>

definition extracted_dict :: "field_schema \<Rightarrow> extracted \<Rightarrow> (pystr \<times> pyv) list" where
  "extracted_dict fs e =
     [(U ''name'', fs_name fs), (U ''confidence'', PFloat (round4 (ef_confidence e))),
      (U ''status'', PStr (U ''extracted''))]
     @ (if fs_type fs = TMoney
        then [(U ''amount'', opt_int (ef_amount e)), (U ''currency'', ef_currency e)]
        else [(U ''value'', opt_str (ef_value e))])
     @ (case ef_source e of
          None \<Rightarrow> []
        | Some l \<Rightarrow>
            [(U ''bbox'', PDict [(U ''x1'', PInt (l_x1 l)), (U ''y1'', PInt (l_y1 l)),
                               (U ''x2'', PInt (l_x2 l)), (U ''y2'', PInt (l_y2 l))]),
             (U ''page'', PInt (l_page l))])"

definition low_confidence_dict :: "field_schema \<Rightarrow> extracted \<Rightarrow> (pystr \<times> pyv) list" where
  "low_confidence_dict fs e = dict_set (U ''status'') (PStr (U ''low_confidence'')) (extracted_dict fs e)"

definition missing_dict :: "field_schema \<Rightarrow> (pystr \<times> pyv) list" where
  "missing_dict fs =
     [(U ''name'', fs_name fs), (U ''confidence'', PFloat 0), (U ''status'', PStr (U ''missing''))]
     @ (if fs_type fs = TMoney then [(U ''amount'', PInt 0), (U ''currency'', fs_currency fs)]
        else [(U ''value'', PStr [])])"

definition issue :: "string \<Rightarrow> pyv \<Rightarrow> pystr \<Rightarrow> pyv" where
  "issue code field detail =
     PDict [(U ''code'', PStr (U code)), (U ''field'', field), (U ''detail'', PStr detail)]"

text \<open>The three lists the loop appends to.\<close>

record acc =
  a_fields :: "pyv list"
  a_issues :: "pyv list"
  a_confidences :: "rat list"

definition add_field :: "acc \<Rightarrow> field_schema \<times> extracted \<Rightarrow> acc" where
  "add_field a p =
     (let fs = fst p; e = snd p
      in if \<not> has_value e
         then a\<lparr>a_fields := a_fields a @ [PDict (missing_dict fs)],
                a_issues := a_issues a
                  @ (if fs_required fs
                     then [issue ''VALIDATION_FAILED'' (fs_name fs) (U ''not found'')] else [])\<rparr>
         else if ef_confidence e < fs_threshold fs
         then a\<lparr>a_fields := a_fields a @ [PDict (low_confidence_dict fs e)],
                a_confidences := a_confidences a @ [ef_confidence e],
                a_issues := a_issues a
                  @ [issue ''LOW_CONFIDENCE'' (fs_name fs)
                       (fmt2 (ef_confidence e) @ U '' < threshold '' @ fmt2 (fs_threshold fs))]\<rparr>
         else a\<lparr>a_fields := a_fields a @ [PDict (extracted_dict fs e)],
                a_confidences := a_confidences a @ [ef_confidence e]\<rparr>)"

definition status_in :: "pystr list \<Rightarrow> pyv \<Rightarrow> bool" where
  "status_in names f =
     (case f of PDict kvs \<Rightarrow> (case map_of kvs (U ''status'') of Some (PStr s) \<Rightarrow> s \<in> set names | _ \<Rightarrow> False)
      | _ \<Rightarrow> False)"

definition blocking_statuses :: "pystr list" where
  "blocking_statuses = [U ''missing'', U ''low_confidence'', U ''invalid'']"

definition build_result :: "schema \<Rightarrow> extracted list \<Rightarrow> (document_result \<times> pystr) res" where
  "build_result sch es =
     (if length (sc_fields sch) \<noteq> length es
      then Inl (ValueError (U ''zip() arguments differ in length''))
      else
        (let a = foldl add_field \<lparr>a_fields = [], a_issues = [], a_confidences = []\<rparr> (zip (sc_fields sch) es);
             cs = a_confidences a;
             avg = (if cs = [] then 0 else fl_div (py_sum cs) (rnd (of_nat (length cs))));
             blocking = list_ex (\<lambda>(f, fs). fs_required fs \<and> status_in blocking_statuses f)
                          (zip (a_fields a) (sc_fields sch));
             status = (if blocking \<or> a_issues a \<noteq> [] then U ''needs_review'' else U ''completed'')
         in Inr (\<lparr>dr_schema_version = U ''1.0'', dr_avg_confidence = avg,
                  dr_fields = a_fields a, dr_issues = a_issues a\<rparr>, status)))"

subsection \<open>The loop, field by field\<close>

definition field_dict :: "field_schema \<Rightarrow> extracted \<Rightarrow> pyv" where
  "field_dict fs e =
     PDict (if \<not> has_value e then missing_dict fs
            else if ef_confidence e < fs_threshold fs then low_confidence_dict fs e
            else extracted_dict fs e)"

definition field_issues :: "field_schema \<Rightarrow> extracted \<Rightarrow> pyv list" where
  "field_issues fs e =
     (if \<not> has_value e
      then (if fs_required fs then [issue ''VALIDATION_FAILED'' (fs_name fs) (U ''not found'')] else [])
      else if ef_confidence e < fs_threshold fs
      then [issue ''LOW_CONFIDENCE'' (fs_name fs)
              (fmt2 (ef_confidence e) @ U '' < threshold '' @ fmt2 (fs_threshold fs))]
      else [])"

lemma foldl_add_field:
  "foldl add_field a ps =
     \<lparr>a_fields = a_fields a @ map (\<lambda>(fs, e). field_dict fs e) ps,
      a_issues = a_issues a @ concat (map (\<lambda>(fs, e). field_issues fs e) ps),
      a_confidences = a_confidences a @ map (\<lambda>(fs, e). ef_confidence e) (filter (\<lambda>(fs, e). has_value e) ps)\<rparr>"
proof (induction ps arbitrary: a)
  case Nil
  then show ?case by simp
next
  case (Cons p ps)
  obtain fs e where p: "p = (fs, e)" by fastforce
  show ?case
    using Cons.IH by (simp add: p add_field_def field_dict_def field_issues_def)
qed

lemma build_result_Inr:
  assumes "build_result sch es = Inr (r, st)"
  shows "length es = length (sc_fields sch)"
    and "dr_fields r = map (\<lambda>(fs, e). field_dict fs e) (zip (sc_fields sch) es)"
    and "dr_issues r = concat (map (\<lambda>(fs, e). field_issues fs e) (zip (sc_fields sch) es))"
    and "st = (if list_ex (\<lambda>(f, fs). fs_required fs \<and> status_in blocking_statuses f)
                     (zip (dr_fields r) (sc_fields sch)) \<or> dr_issues r \<noteq> []
               then U ''needs_review'' else U ''completed'')"
  using assms by (auto simp: build_result_def foldl_add_field Let_def split: if_splits)

lemma build_result_total:
  "length es = length (sc_fields sch) \<Longrightarrow> \<exists>r st. build_result sch es = Inr (r, st)"
  by (simp add: build_result_def Let_def)

subsection \<open>The statuses\<close>

definition field_status :: "field_schema \<Rightarrow> extracted \<Rightarrow> pystr" where
  "field_status fs e =
     (if \<not> has_value e then U ''missing''
      else if ef_confidence e < fs_threshold fs then U ''low_confidence'' else U ''extracted'')"

lemma dict_set_map_of: "map_of (dict_set k v kvs) = (map_of kvs)(k \<mapsto> v)"
  by (induction kvs) auto

lemma dict_set_keys: "k \<in> fst ` set kvs \<Longrightarrow> map fst (dict_set k v kvs) = map fst kvs"
  by (induction kvs) force+

lemma extracted_dict_status: "map_of (extracted_dict fs e) (U ''status'') = Some (PStr (U ''extracted''))"
  by (simp add: extracted_dict_def)

lemma extracted_dict_keys:
  "map fst (extracted_dict fs e) =
     [U ''name'', U ''confidence'', U ''status'']
     @ (if fs_type fs = TMoney then [U ''amount'', U ''currency''] else [U ''value''])
     @ (if ef_source e = None then [] else [U ''bbox'', U ''page''])"
  by (simp add: extracted_dict_def split: option.splits)

lemma low_confidence_keys: "map fst (low_confidence_dict fs e) = map fst (extracted_dict fs e)"
  unfolding low_confidence_dict_def by (rule dict_set_keys) (simp add: extracted_dict_def)

definition field_items :: "field_schema \<Rightarrow> extracted \<Rightarrow> (pystr \<times> pyv) list" where
  "field_items fs e = (case field_dict fs e of PDict kvs \<Rightarrow> kvs | _ \<Rightarrow> [])"

lemma field_dict_items: "field_dict fs e = PDict (field_items fs e)"
  by (simp add: field_dict_def field_items_def)

lemma field_items_keys:
  "map fst (field_items fs e) =
     [U ''name'', U ''confidence'', U ''status'']
     @ (if fs_type fs = TMoney then [U ''amount'', U ''currency''] else [U ''value''])
     @ (if has_value e \<and> ef_source e \<noteq> None then [U ''bbox'', U ''page''] else [])"
  using low_confidence_keys [of fs e] extracted_dict_keys [of fs e]
  by (simp add: field_items_def field_dict_def missing_dict_def)

lemma field_items_status: "map_of (field_items fs e) (U ''status'') = Some (PStr (field_status fs e))"
  by (simp add: field_items_def field_dict_def field_status_def missing_dict_def extracted_dict_status
      low_confidence_dict_def dict_set_map_of)

lemma field_items_name: "map_of (field_items fs e) (U ''name'') = Some (fs_name fs)"
  by (simp add: field_items_def field_dict_def missing_dict_def extracted_dict_def
      low_confidence_dict_def dict_set_map_of)

text \<open>A field the reviewer need not look at: present when required, confident when present.\<close>

definition settled :: "field_schema \<Rightarrow> extracted \<Rightarrow> bool" where
  "settled fs e \<longleftrightarrow>
     (fs_required fs \<longrightarrow> has_value e) \<and> (has_value e \<longrightarrow> fs_threshold fs \<le> ef_confidence e)"

lemma field_issues_settled: "field_issues fs e = [] \<longleftrightarrow> settled fs e"
  by (auto simp: field_issues_def settled_def)

lemma blocking_settled: "settled fs e \<Longrightarrow> \<not> (fs_required fs \<and> status_in blocking_statuses (field_dict fs e))"
  by (auto simp: field_dict_items status_in_def field_items_status field_status_def settled_def
      blocking_statuses_def)

text \<open>
  Property C15: the document is \<open>completed\<close> exactly when every required field was found and every
  field that was found reaches its threshold; otherwise it is \<open>needs_review\<close>. There is no third
  status.
\<close>

theorem build_result_status:
  assumes "build_result sch es = Inr (r, st)"
  shows "if list_all2 (\<lambda>fs e. (\<not> fs_required fs \<or> has_value e)
              \<and> (\<not> has_value e \<or> fs_threshold fs \<le> ef_confidence e)) (sc_fields sch) es
         then st = U ''completed'' \<and> dr_issues r = [] else st = U ''needs_review'' \<and> dr_issues r \<noteq> []"
proof -
  let ?ps = "zip (sc_fields sch) es"
  note b = build_result_Inr [OF assms]
  have i: "dr_issues r = [] \<longleftrightarrow> (\<forall>(fs, e) \<in> set ?ps. settled fs e)"
    by (auto simp: b(3) field_issues_settled)
  have all: "list_all2 (\<lambda>fs e. (\<not> fs_required fs \<or> has_value e)
        \<and> (\<not> has_value e \<or> fs_threshold fs \<le> ef_confidence e)) (sc_fields sch) es
      \<longleftrightarrow> (\<forall>(fs, e) \<in> set ?ps. settled fs e)"
    using b(1) by (auto simp: list_all2_iff settled_def)
  have "zip (dr_fields r) (sc_fields sch) = map (\<lambda>(fs, e). (field_dict fs e, fs)) ?ps"
    using b(1) by (auto simp: b(2) intro!: nth_equalityI)
  then have "list_ex (\<lambda>(f, fs). fs_required fs \<and> status_in blocking_statuses f) (zip (dr_fields r) (sc_fields sch))
      \<longleftrightarrow> (\<exists>(fs, e) \<in> set ?ps. fs_required fs \<and> status_in blocking_statuses (field_dict fs e))"
    by (simp add: list_ex_iff case_prod_beta)
  then have "\<not> list_ex (\<lambda>(f, fs). fs_required fs \<and> status_in blocking_statuses f)
      (zip (dr_fields r) (sc_fields sch))" if "dr_issues r = []"
    using i that blocking_settled by fast
  then show ?thesis using i all b(4) by auto
qed

theorem build_result_status_witness:
  "\<exists>r. build_result demo_schema demo_extracted = Inr (r, U ''completed'')"
proof -
  have "length demo_extracted = length (sc_fields demo_schema)"
    by (simp add: demo_extracted_def demo_schema_def)
  then obtain r st where b: "build_result demo_schema demo_extracted = Inr (r, st)"
    using build_result_total by blast
  from build_result_status [OF b] have "st = U ''completed''"
    by (simp add: demo_schema_def demo_extracted_def demo_merchant_def demo_total_def has_value_def)
  with b show ?thesis by blast
qed

text \<open>
  The result has one dictionary per field of the schema, in order. Each has distinct
  keys, the field's name, a status that tells missing, low confidence and extracted apart, an
  amount and a currency exactly for a money field and a value exactly for any other, and a place
  in the document only when something was found there.
\<close>

lemma build_result_fields:
  assumes "build_result sch es = Inr (r, st)" and "i < length (dr_fields r)"
  shows "length (dr_fields r) = length (sc_fields sch)
    \<and> (let fs = sc_fields sch ! i; e = es ! i
       in case dr_fields r ! i of
            PDict kvs \<Rightarrow>
              distinct (map fst kvs)
              \<and> map_of kvs (U ''name'') = Some (fs_name fs)
              \<and> map_of kvs (U ''status'') = Some (PStr (field_status fs e))
              \<and> (map_of kvs (U ''amount'') \<noteq> None \<longleftrightarrow> fs_type fs = TMoney)
              \<and> (map_of kvs (U ''currency'') \<noteq> None \<longleftrightarrow> fs_type fs = TMoney)
              \<and> (map_of kvs (U ''value'') \<noteq> None \<longleftrightarrow> fs_type fs \<noteq> TMoney)
              \<and> (map_of kvs (U ''page'') \<noteq> None \<longleftrightarrow> has_value e \<and> ef_source e \<noteq> None)
          | _ \<Rightarrow> False)"
proof -
  note b = build_result_Inr [OF assms(1)]
  have len: "length (dr_fields r) = length (sc_fields sch)" using b(1,2) by simp
  let ?fs = "sc_fields sch ! i" and ?e = "es ! i"
  have f: "dr_fields r ! i = PDict (field_items ?fs ?e)"
    using assms(2) b(1,2) by (simp add: field_dict_items)
  have k: "map_of (field_items ?fs ?e) x \<noteq> None \<longleftrightarrow> x \<in> set (map fst (field_items ?fs ?e))" for x
    by (simp add: map_of_eq_None_iff)
  have d: "distinct (map fst (field_items ?fs ?e))" unfolding field_items_keys by simp
  show ?thesis
    using len d unfolding f Let_def
    by (simp only: pyv.case field_items_name field_items_status k field_items_keys) simp
qed

lemma build_result_fields_example:
  "\<exists>r st. build_result demo_schema demo_extracted = Inr (r, st) \<and> length (dr_fields r) = 2"
proof -
  have l: "length demo_extracted = length (sc_fields demo_schema)"
    by (simp add: demo_extracted_def demo_schema_def)
  then obtain r st where b: "build_result demo_schema demo_extracted = Inr (r, st)"
    using build_result_total by blast
  have "1 < length (dr_fields r)" using l by (simp add: build_result_Inr(2) [OF b] demo_extracted_def)
  from build_result_fields [OF b this] b show ?thesis by (auto simp: demo_schema_def)
qed

subsection \<open>The result as JSON\<close>

lemma serialisable_dict_set:
  "serialisable v \<Longrightarrow> serialisable (PDict kvs) \<Longrightarrow> serialisable (PDict (dict_set k v kvs))"
  by (induction kvs) auto

lemma field_dict_serialisable:
  assumes "serialisable (fs_name fs)" and "serialisable (fs_currency fs)" and "serialisable (ef_currency e)"
  shows "serialisable (field_dict fs e)"
proof -
  have "serialisable (PDict (extracted_dict fs e))"
    using assms by (simp add: extracted_dict_def opt_int_def opt_str_def split: option.splits)
  moreover from this have "serialisable (PDict (low_confidence_dict fs e))"
    unfolding low_confidence_dict_def by (intro serialisable_dict_set) simp_all
  moreover have "serialisable (PDict (missing_dict fs))" using assms by (simp add: missing_dict_def)
  ultimately show ?thesis by (simp only: field_dict_def split: if_splits) simp
qed

lemma field_issues_serialisable: "serialisable (fs_name fs) \<Longrightarrow> list_all serialisable (field_issues fs e)"
  by (simp add: field_issues_def issue_def)

lemma build_result_serialisable:
  assumes "build_result sch es = Inr (r, st)" and "plain_schema sch"
    and "list_all (\<lambda>e. serialisable (ef_currency e)) es"
  shows "serialisable (to_dict r)"
proof -
  note b = build_result_Inr [OF assms(1)]
  have p: "serialisable (fs_name fs) \<and> serialisable (fs_currency fs) \<and> serialisable (ef_currency e)"
    if "(fs, e) \<in> set (zip (sc_fields sch) es)" for fs e
    using assms(2,3) set_zip_leftD [OF that] set_zip_rightD [OF that]
    by (auto simp: plain_schema_def list_all_iff)
  have "list_all serialisable (dr_fields r)"
    using p field_dict_serialisable by (fastforce simp: b(2) list_all_iff)
  moreover have "list_all serialisable (dr_issues r)"
    using p field_issues_serialisable by (fastforce simp: b(3) list_all_iff)
  ultimately show ?thesis by (simp add: to_dict_def)
qed

lemma make_field_currency:
  "ef_currency (make_field fs line v) = PNone \<or> ef_currency (make_field fs line v) = fs_currency fs"
  by (simp add: make_field_def split: ftype.splits typed.splits)

lemma extract_one_currency:
  "extract_one L ranked fs = Inr e \<Longrightarrow> ef_currency e = PNone \<or> ef_currency e = fs_currency fs"
  using extract_one_found [of L ranked fs e] make_field_currency
  by (auto simp: not_found_def from_lines_def)

lemma extract_fields_currencies:
  assumes "extract_fields L sch lines = Inr es" and "plain_schema sch"
  shows "list_all (\<lambda>e. serialisable (ef_currency e)) es"
proof -
  have m: "rmap (extract_one L (rank_lines lines)) (sc_fields sch) = Inr es"
    using assms(1) by (simp add: extract_fields_def)
  have "serialisable (ef_currency e)" if "e \<in> set es" for e
  proof (rule rmap_Inr_all [OF m _ that])
    fix fs x
    assume fs: "fs \<in> set (sc_fields sch)" and x: "extract_one L (rank_lines lines) fs = Inr x"
    show "serialisable (ef_currency x)"
      using extract_one_currency [OF x] assms(2) fs by (auto simp: plain_schema_def list_all_iff)
  qed
  then show ?thesis by (simp add: list_all_iff)
qed

end
