(* ===== verification/Ocr_Settings.thy ===== *)
theory Ocr_Settings
  imports Ocr_Python
begin

text \<open>
  The configuration of the service (\<open>settings.py\<close>): the fields the code reads, the splitting
  of the bucket allowlist, the validation that runs once at boot and refuses the process
  when any condition fails, and the size of the OCR semaphore. The reading of environment
  variables into the typed fields is pydantic's; secrets are their text, durations are finite
  floats. The file system test of \<open>schema_dir\<close> and the number of processors are parameters.
\<close>

datatype provider = BAIDU_AISTUDIO | PADDLEOCR_LOCAL

datatype baidu_mode = SYNC | ASYNC

record settings =
  database_dsn :: pystr
  redis_url :: pystr
  kafka_brokers :: pystr
  kafka_topic :: pystr
  allowed_buckets :: "pystr list"
  max_file_bytes :: int
  max_pages :: int
  max_image_dim :: int
  grpc_port :: int
  worker_concurrency :: int
  semaphore_override :: "int option"
  storage_endpoint_url :: "pystr option"
  storage_access_key_id :: "pystr option"
  storage_secret_access_key :: "pystr option"
  storage_region :: pystr
  schema_dir :: pystr
  provider :: provider
  baidu_api_url :: "pystr option"
  baidu_async_url :: pystr
  baidu_mode :: baidu_mode
  baidu_unwarp :: bool
  baidu_poll_interval :: rat
  baidu_poll_timeout :: rat
  baidu_token :: "pystr option"
  baidu_timeout :: rat
  log_level :: pystr
  log_format :: pystr
  service_name :: pystr
  service_env :: pystr
  otel_endpoint :: "pystr option"
  otel_sdk_disabled :: bool
  metric_interval_ms :: int
  sync_max_bytes :: int

definition baidu_retryable_http :: "int list" where
  "baidu_retryable_http = [429, 503, 504]"

definition baidu_async_error_permanent :: "int list" where
  "baidu_async_error_permanent =
     [401, 10001, 10002, 10003, 10004, 10005, 10006, 10007, 10008, 11001, 11002, 11003]"

text \<open>\<open>Settings._split_buckets\<close> on the text of the variable.\<close>

definition split_buckets :: "pystr \<Rightarrow> pystr list" where
  "split_buckets value = [py_strip item. item \<leftarrow> py_split 44 value, py_strip item \<noteq> []]"

text \<open>An optional text that is present and not empty, as \<open>if x\<close> tests it.\<close>

definition given :: "pystr option \<Rightarrow> bool" where
  "given x \<longleftrightarrow> x \<noteq> None \<and> x \<noteq> Some []"

definition is_https :: "pystr \<Rightarrow> bool" where
  "is_https s \<longleftrightarrow> py_startswith s (U ''https://'')"

definition baidu_problems :: "settings \<Rightarrow> pystr list" where
  "baidu_problems s =
     (if \<not> given (baidu_token s)
      then [U ''OCR_BAIDU_TOKEN is required when OCR_PROVIDER=baidu_aistudio''] else [])
   @ (if baidu_mode s = SYNC \<and> \<not> given (baidu_api_url s)
      then [U ''OCR_BAIDU_API_URL is required when OCR_BAIDU_MODE=sync''] else [])
   @ (if given (baidu_api_url s) \<and> \<not> is_https (the (baidu_api_url s))
      then [U ''OCR_BAIDU_API_URL must be https''] else [])
   @ (if baidu_mode s = ASYNC \<and> \<not> is_https (baidu_async_url s)
      then [U ''OCR_BAIDU_ASYNC_URL must be https''] else [])
   @ (if baidu_poll_interval s \<le> 0 \<or> baidu_poll_timeout s \<le> 0
      then [U ''OCR_BAIDU_POLL_INTERVAL / OCR_BAIDU_POLL_TIMEOUT must be > 0''] else [])"

definition settings_problems :: "interp \<Rightarrow> (pystr \<Rightarrow> bool) \<Rightarrow> settings \<Rightarrow> pystr list" where
  "settings_problems I is_dir s =
     (if database_dsn s = [] then [U ''OCR_DATABASE_DSN must not be empty''] else [])
   @ (if kafka_brokers s = [] then [U ''OCR_KAFKA_BROKERS must not be empty''] else [])
   @ (if allowed_buckets s = []
      then [U ''OCR_ALLOWED_BUCKETS must not be empty - an empty allowlist reads nothing''] else [])
   @ (if max_file_bytes s \<le> 0 \<or> max_pages s \<le> 0 \<or> max_image_dim s \<le> 0
      then [U ''OCR_MAX_FILE_BYTES / OCR_MAX_PAGES / OCR_MAX_IMAGE_DIM must be > 0''] else [])
   @ (if worker_concurrency s \<le> 0 then [U ''OCR_WORKER_CONCURRENCY must be > 0''] else [])
   @ (if \<not> is_dir (schema_dir s)
      then [U ''OCR_SCHEMA_DIR does not exist: '' @ schema_dir s] else [])
   @ (if i_upper I (log_level s) \<notin> {U ''DEBUG'', U ''INFO'', U ''WARNING'', U ''ERROR''}
      then [U ''LOG_LEVEL must be one of debug|info|warning|error''] else [])
   @ (if log_format s \<notin> {U ''json'', U ''text''}
      then [U ''LOG_FORMAT must be one of json|text''] else [])
   @ (if given (otel_endpoint s) \<and> \<not> py_startswith (the (otel_endpoint s)) (U ''http://'')
           \<and> \<not> is_https (the (otel_endpoint s))
      then [U ''OTEL_EXPORTER_OTLP_ENDPOINT requires a scheme - the scheme selects TLS (http:// locally, https:// in production)'']
      else [])
   @ (if sync_max_bytes s \<le> 0 then [U ''OCR_SYNC_MAX_BYTES must be > 0'']
      else if sync_max_bytes s > max_file_bytes s
           then [U ''OCR_SYNC_MAX_BYTES must not exceed OCR_MAX_FILE_BYTES''] else [])
   @ (if metric_interval_ms s \<le> 0
      then [U ''OTEL_METRIC_EXPORT_INTERVAL must be > 0 (milliseconds)''] else [])
   @ (if provider s = BAIDU_AISTUDIO then baidu_problems s else [])"

definition validate_settings :: "interp \<Rightarrow> (pystr \<Rightarrow> bool) \<Rightarrow> settings \<Rightarrow> settings res" where
  "validate_settings I is_dir s =
     (let problems = settings_problems I is_dir s
      in if problems \<noteq> [] then Inl (ValueError (U ''invalid settings:'' @ [10] @ py_join [10] problems))
         else Inr s)"

text \<open>\<open>Settings.ocr_semaphore\<close>; \<open>cpus\<close> is what \<open>os.cpu_count()\<close> returns.\<close>

definition ocr_semaphore :: "int option \<Rightarrow> settings \<Rightarrow> int" where
  "ocr_semaphore cpus s =
     (case semaphore_override s of
        Some n \<Rightarrow> if n > 0 then n
                  else max 1 ((case cpus of Some c \<Rightarrow> if c \<noteq> 0 then c else 2 | None \<Rightarrow> 2) div 2)
      | None \<Rightarrow> max 1 ((case cpus of Some c \<Rightarrow> if c \<noteq> 0 then c else 2 | None \<Rightarrow> 2) div 2))"

subsection \<open>A validated configuration\<close>

text \<open>What the components of the engine rely on once the process has booted.\<close>

definition bounds_ok :: "settings \<Rightarrow> bool" where
  "bounds_ok s \<longleftrightarrow>
     0 < max_file_bytes s \<and> 0 < max_pages s \<and> 0 < max_image_dim s \<and> 0 < worker_concurrency s
     \<and> 0 < sync_max_bytes s \<and> sync_max_bytes s \<le> max_file_bytes s \<and> 0 < metric_interval_ms s"

definition baidu_ready :: "settings \<Rightarrow> bool" where
  "baidu_ready s \<longleftrightarrow>
     given (baidu_token s)
     \<and> (case baidu_mode s of
           SYNC \<Rightarrow> (case baidu_api_url s of Some u \<Rightarrow> is_https u | None \<Rightarrow> False)
         | ASYNC \<Rightarrow> is_https (baidu_async_url s))
     \<and> 0 < baidu_poll_interval s \<and> 0 < baidu_poll_timeout s"

lemma no_problems_bounds: "settings_problems I is_dir s = [] \<Longrightarrow> bounds_ok s"
  by (simp add: settings_problems_def bounds_ok_def split: if_splits)

lemma no_problems_text:
  "settings_problems I is_dir s = [] \<Longrightarrow>
     database_dsn s \<noteq> [] \<and> kafka_brokers s \<noteq> [] \<and> allowed_buckets s \<noteq> [] \<and> is_dir (schema_dir s)"
  by (simp add: settings_problems_def split: if_splits)

lemma no_problems_baidu:
  "settings_problems I is_dir s = [] \<Longrightarrow> provider s = BAIDU_AISTUDIO \<Longrightarrow> baidu_problems s = []"
  by (simp add: settings_problems_def)

lemma no_baidu_problems: "baidu_problems s = [] \<Longrightarrow> baidu_ready s"
  by (auto simp: baidu_problems_def baidu_ready_def given_def split: if_splits baidu_mode.splits option.splits)

lemma validate_settings_Inr:
  "validate_settings I is_dir s = Inr t \<longleftrightarrow> t = s \<and> settings_problems I is_dir s = []"
  by (auto simp: validate_settings_def Let_def split: if_splits)

text \<open>A configuration that passes, for the applications of the theorems.\<close>

definition id_interp :: interp where
  "id_interp = \<lparr>i_lower = map (\<lambda>c. if 65 \<le> c \<and> c \<le> 90 then c + 32 else c),
     i_upper = map (\<lambda>c. if 97 \<le> c \<and> c \<le> 122 then c - 32 else c),
     i_float_repr = (\<lambda>_. U ''0.0''), i_float_of_str = (\<lambda>_. None)\<rparr>"

definition demo_settings :: settings where
  "demo_settings = \<lparr>database_dsn = U ''postgres://db'', redis_url = U ''redis://localhost:6379/0'',
     kafka_brokers = U ''kafka:9092'',
     kafka_topic = U ''ocr.document.processed.v1'', allowed_buckets = [U ''docs''],
     max_file_bytes = 26214400, max_pages = 10, max_image_dim = 4000, grpc_port = 9094, worker_concurrency = 8,
     semaphore_override = None, storage_endpoint_url = None, storage_access_key_id = None,
     storage_secret_access_key = None, storage_region = U ''us-east-1'', schema_dir = U ''./schemas'', provider = BAIDU_AISTUDIO,
     baidu_api_url = Some (U ''https://ocr.example/layout''),
     baidu_async_url = U ''https://paddleocr.aistudio-app.com'', baidu_mode = SYNC,
     baidu_unwarp = True, baidu_poll_interval = 5, baidu_poll_timeout = 300,
     baidu_token = Some (U ''secret''), baidu_timeout = 90, log_level = U ''info'', log_format = U ''json'',
     service_name = U ''ocr'', service_env = U ''development'',
     otel_endpoint = None, otel_sdk_disabled = False, metric_interval_ms = 15000, sync_max_bytes = 10485760\<rparr>"

lemma demo_settings_valid: "validate_settings id_interp (\<lambda>_. True) demo_settings = Inr demo_settings"
  by (simp add: validate_settings_Inr settings_problems_def baidu_problems_def demo_settings_def
      id_interp_def given_def is_https_def py_startswith_def U_def)

text \<open>
  A configuration that passes the validation at boot is returned unchanged, its
  bounds are positive, the synchronous cap does not exceed the file cap, the allowlist is not
  empty, and with the Baidu provider the token is there, the endpoint of the configured mode
  is https and the poll interval and deadline are positive.
\<close>

lemma validate_settings_guarantees:
  assumes "validate_settings I is_dir s = Inr t"
  shows "t = s \<and> bounds_ok t \<and> database_dsn t \<noteq> [] \<and> kafka_brokers t \<noteq> [] \<and> allowed_buckets t \<noteq> []
    \<and> is_dir (schema_dir t) \<and> (provider t = BAIDU_AISTUDIO \<longrightarrow> baidu_ready t)"
proof -
  have t: "t = s" and n: "settings_problems I is_dir s = []"
    using assms by (simp_all add: validate_settings_Inr)
  show ?thesis
    using t no_problems_bounds [OF n] no_problems_text [OF n] no_problems_baidu [OF n]
      no_baidu_problems by blast
qed

lemma validate_settings_guarantees_example:
  "bounds_ok demo_settings \<and> baidu_ready demo_settings"
  using validate_settings_guarantees [OF demo_settings_valid] by (simp add: demo_settings_def)

text \<open>
  Whatever the processor count and the override, at least one document can be
  recognised at a time, and a positive override is taken as it is.
\<close>

lemma ocr_semaphore_pos:
  "1 \<le> ocr_semaphore cpus s \<and> (\<forall>n. \<not> (semaphore_override s = Some n \<and> 0 < n \<and> ocr_semaphore cpus s \<noteq> n))"
  by (auto simp: ocr_semaphore_def split: option.splits)

subsection \<open>The bucket allowlist\<close>

text \<open>An item of the allowlist as the code keeps it: not empty, without a comma, stripped.\<close>

definition clean_item :: "pystr \<Rightarrow> bool" where
  "clean_item w \<longleftrightarrow> w \<noteq> [] \<and> 44 \<notin> set w \<and> py_strip w = w"

lemma py_strip_idem [simp]: "py_strip (py_strip s) = py_strip s"
proof (cases "py_strip s = []")
  case True
  have "py_strip [] = []" by (simp add: py_strip_def)
  with True show ?thesis by (simp only:)
next
  case False
  then show ?thesis using py_strip_ends by (intro py_strip_ends_id) auto
qed

lemma py_strip_subset: "set (py_strip s) \<subseteq> set s"
  unfolding py_strip_def by (metis set_dropWhileD set_rev subsetI)

lemma py_strip_pad: "list_all is_space pad \<Longrightarrow> py_strip (pad @ s) = py_strip s"
  by (induction pad) (auto simp: py_strip_def)

lemma split_buckets_clean: "w \<in> set (split_buckets v) \<Longrightarrow> clean_item w"
  using py_strip_subset py_split_no_sep by (fastforce simp: split_buckets_def clean_item_def)

lemma py_split_append_sep: "sep \<notin> set w \<Longrightarrow> py_split sep (w @ sep # s) = w # py_split sep s"
  by (induction w) auto

lemma split_buckets_one: "clean_item w \<Longrightarrow> list_all is_space pad \<Longrightarrow> split_buckets (pad @ w) = [w]"
proof -
  assume w: "clean_item w" and pad: "list_all is_space pad"
  have "44 \<notin> set (pad @ w)" using w pad by (auto simp: clean_item_def list_all_iff is_space_def)
  then show ?thesis using w pad
    by (simp add: split_buckets_def py_split_no_sep_id py_strip_pad clean_item_def)
qed

lemma split_buckets_more:
  assumes "clean_item w" and "list_all is_space pad"
  shows "split_buckets (pad @ w @ 44 # s) = w # split_buckets s"
proof -
  have "44 \<notin> set (pad @ w)" using assms by (auto simp: clean_item_def list_all_iff is_space_def)
  then have "py_split 44 ((pad @ w) @ 44 # s) = (pad @ w) # py_split 44 s"
    by (rule py_split_append_sep)
  then show ?thesis using assms by (simp add: split_buckets_def py_strip_pad clean_item_def)
qed

lemma split_buckets_join:
  assumes "list_all clean_item ws" and "list_all is_space pad"
  shows "split_buckets (pad @ py_join (44 # pad) ws) = ws"
  using assms(1)
proof (induction ws)
  case Nil
  have "44 \<notin> set pad" using assms(2) by (auto simp: list_all_iff is_space_def)
  then have "py_split 44 pad = [pad]" by (rule py_split_no_sep_id)
  moreover have "py_strip pad = []" using py_strip_pad [OF assms(2), of "[]"] by (simp add: py_strip_def)
  ultimately show ?case by (simp add: split_buckets_def)
next
  case (Cons w ws)
  show ?case
  proof (cases ws)
    case Nil
    with Cons.prems assms(2) show ?thesis by (simp add: split_buckets_one)
  next
    case (Cons v vs)
    with Cons.IH Cons.prems assms(2) show ?thesis by (simp add: split_buckets_more)
  qed
qed

text \<open>
  Reading the allowlist back from its text, with any white space after the
  commas, gives the buckets written, in order; and whatever the text, every entry of the
  allowlist is a stripped, non-empty name without a comma.
\<close>

lemma split_buckets_roundtrip:
  assumes "list_all clean_item ws" and "list_all is_space pad"
  shows "split_buckets (pad @ py_join (44 # pad) ws) = ws \<and> list_all clean_item (split_buckets v)"
  using split_buckets_join [OF assms] split_buckets_clean by (auto simp: list_all_iff)

lemma split_buckets_roundtrip_example:
  "split_buckets (U '' docs, scans'') = [U ''docs'', U ''scans'']"
proof -
  have 1: "list_all clean_item [U ''docs'', U ''scans'']"
    by (simp add: clean_item_def U_def py_strip_def is_space_def)
  have 2: "list_all is_space (U '' '')"
    by (simp add: U_def is_space_def)
  have "U '' '' @ py_join (44 # U '' '') [U ''docs'', U ''scans''] = U '' docs, scans''"
    by (simp add: U_def)
  with split_buckets_roundtrip [OF 1 2] show ?thesis by simp
qed

end
