(* ===== verification/Ocr_Inspect.thy ===== *)
theory Ocr_Inspect
  imports Ocr_Schema Ocr_Settings
begin

text \<open>
  File inspection (\<open>pipeline/inspect_file.py\<close>): the magic bytes, the limits, the text layer of a
  digital-born PDF as lines, and the scaling of images. PyMuPDF and Pillow are parameters: a
  document is the list of its pages, an image its size.
\<close>

type_synonym bytes = "8 word list"

definition B :: "string \<Rightarrow> bytes" where
  "B s = map of_char s"

text \<open>
  \<open>fitz_open\<close> decodes a PDF; a page has its plain text, its text blocks (corners and text) and
  its rendering at 200 dpi as PNG. \<open>image_size\<close> is \<open>Image.open\<close> and \<open>img.size\<close>;
  \<open>image_jpeg c w h\<close> is the resizing to \<open>(w, h)\<close> and the encoding as JPEG.
\<close>

record pdf_page =
  pg_text :: pystr
  pg_blocks :: "(rat \<times> rat \<times> rat \<times> rat \<times> pystr) list"
  pg_png :: bytes

record media =
  fitz_open :: "bytes \<Rightarrow> pdf_page list res"
  image_size :: "bytes \<Rightarrow> (int \<times> int) res"
  image_jpeg :: "bytes \<Rightarrow> int \<Rightarrow> int \<Rightarrow> bytes res"

record inspected =
  i_mime :: pystr
  i_pages :: int

definition starts :: "bytes \<Rightarrow> bytes \<Rightarrow> bool" where
  "starts content p \<longleftrightarrow> take (length p) content = p"

definition sniff :: "bytes \<Rightarrow> pystr res" where
  "sniff content =
     (if starts content (B ''%PDF'') then Inr (U ''application/pdf'')
      else if starts content (0x89 # B ''PNG'') then Inr (U ''image/png'')
      else if starts content [0xff, 0xd8, 0xff] then Inr (U ''image/jpeg'')
      else if take 3 content = B ''GIF'' then Inr (U ''image/gif'')
      else if starts content (B ''II*'' @ [0]) \<or> starts content (B ''MM'' @ [0] @ B ''*'')
           then Inr (U ''image/tiff'')
      else if take 4 content = B ''BM'' @ [0x8a, 0] \<or> take 2 content = B ''BM''
           then Inr (U ''image/bmp'')
      else if take 4 content = B ''RIFF'' \<and> take 4 (drop 8 content) = B ''WEBP''
           then Inr (U ''image/webp'')
      else Inl (UnsupportedFileType (U ''magic bytes do not match a supported image or PDF'')))"

definition inspect_file :: "media \<Rightarrow> bytes \<Rightarrow> settings \<Rightarrow> inspected res" where
  "inspect_file M content s =
     rbind (sniff content) (\<lambda>mime.
       if int (length content) > max_file_bytes s
       then Inl (ResourceLimit (U ''file exceeds OCR_MAX_FILE_BYTES ('' @ int_str (max_file_bytes s) @ U '')''))
       else if mime = U ''application/pdf''
       then rbind (fitz_open M content) (\<lambda>doc.
              let pages = int (length doc)
              in if pages > max_pages s
                 then Inl (ResourceLimit (U ''PDF has '' @ int_str pages @ U '' pages, limit is ''
                                            @ int_str (max_pages s)))
                 else Inr \<lparr>i_mime = mime, i_pages = pages\<rparr>)
       else Inr \<lparr>i_mime = mime, i_pages = 1\<rparr>)"

definition page_count :: "media \<Rightarrow> bytes \<Rightarrow> int res" where
  "page_count M content = rbind (fitz_open M content) (\<lambda>doc. Inr (int (length doc)))"

subsection \<open>The text layer of a PDF\<close>

definition block_lines :: "int \<Rightarrow> rat \<times> rat \<times> rat \<times> rat \<times> pystr \<Rightarrow> line list" where
  "block_lines page b =
     (case b of (x0, y0, x1, y1, raw) \<Rightarrow>
        let t = py_strip raw
        in if t = [] then []
           else [\<lparr>l_text = map (\<lambda>c. if c = 10 then 32 else c) t, l_score = 1, l_x1 = py_trunc x0,
                  l_y1 = py_trunc y0, l_x2 = py_trunc x1, l_y2 = py_trunc y1, l_page = page\<rparr>])"

fun page_lines :: "int \<Rightarrow> pdf_page list \<Rightarrow> line list \<Rightarrow> line list option" where
  "page_lines n [] acc = (if acc = [] then None else Some acc)"
| "page_lines n (pg # pages) acc =
     (if py_strip (pg_text pg) = [] then None
      else page_lines (n + 1) pages (acc @ concat (map (block_lines n) (pg_blocks pg))))"

definition digitalborn_lines :: "media \<Rightarrow> bytes \<Rightarrow> line list option res" where
  "digitalborn_lines M content =
     (if \<not> starts content (B ''%PDF'') then Inr None
      else rbind (fitz_open M content) (\<lambda>doc. Inr (page_lines 1 doc [])))"

subsection \<open>Scaling\<close>

definition scaled :: "int \<Rightarrow> rat \<Rightarrow> int" where
  "scaled w scale = max 1 (py_trunc (fl_mul (rnd (of_int w)) scale))"

definition downscale_if_needed :: "media \<Rightarrow> bytes \<Rightarrow> settings \<Rightarrow> bytes res" where
  "downscale_if_needed M content s =
     rbind (image_size M content) (\<lambda>(w, h).
       let largest = max w h
       in if largest \<le> max_image_dim s then Inr content
          else let scale = int_truediv (max_image_dim s) largest
               in image_jpeg M content (scaled w scale) (scaled h scale))"

definition pdf_page_images :: "media \<Rightarrow> bytes \<Rightarrow> settings \<Rightarrow> bytes list res" where
  "pdf_page_images M content s =
     rbind (fitz_open M content) (rmap (\<lambda>pg. downscale_if_needed M (pg_png pg) s))"

definition file_suffix :: "pystr \<Rightarrow> pystr" where
  "file_suffix mime =
     (if mime = U ''application/pdf'' then U ''.pdf''
      else if mime = U ''image/png'' then U ''.png''
      else if mime = U ''image/jpeg'' then U ''.jpg'' else [])"

subsection \<open>The limits\<close>

definition supported_mimes :: "pystr list" where
  "supported_mimes = [U ''application/pdf'', U ''image/png'', U ''image/jpeg'', U ''image/gif'',
     U ''image/tiff'', U ''image/bmp'', U ''image/webp'']"

lemma sniff_supported: "sniff content = Inr mime \<Longrightarrow> mime \<in> set supported_mimes"
  by (auto simp: sniff_def supported_mimes_def split: if_splits)

lemma sniff_pdf: "sniff content = Inr (U ''application/pdf'') \<longleftrightarrow> starts content (B ''%PDF'')"
  by (auto simp: sniff_def)

text \<open>
  A file that passes the inspection is of a supported type and within the size cap,
  a PDF that passes has at most \<open>OCR_MAX_PAGES\<close> pages, all counted, and any other file counts as
  one page.
\<close>

lemma inspect_file_bounds:
  assumes "inspect_file M content s = Inr r"
  shows "i_mime r \<in> set supported_mimes \<and> int (length content) \<le> max_file_bytes s
    \<and> (if i_mime r = U ''application/pdf''
       then i_pages r \<le> max_pages s \<and> page_count M content = Inr (i_pages r) else i_pages r = 1)"
  using assms sniff_supported [of content]
  by (auto simp: inspect_file_def page_count_def Let_def elim!: rbind_InrE split: if_splits)

definition demo_page :: pdf_page where
  "demo_page = \<lparr>pg_text = U ''Total'', pg_blocks = [(1, 2, 30, 14, U '' Total'' @ [10, 32] @ U ''27'')], pg_png = [1]\<rparr>"

definition demo_media :: media where
  "demo_media = \<lparr>fitz_open = (\<lambda>_. Inr [demo_page]), image_size = (\<lambda>_. Inr (8000, 6000)),
     image_jpeg = (\<lambda>c w h. Inr (0xff # c))\<rparr>"

lemma demo_inspect:
  "inspect_file demo_media (B ''%PDF-1.7'') demo_settings = Inr \<lparr>i_mime = U ''application/pdf'', i_pages = 1\<rparr>"
  by code_simp

lemma inspect_file_bounds_example: "(1 :: int) \<le> max_pages demo_settings"
  using inspect_file_bounds [OF demo_inspect] by simp

text \<open>
  The type of a file is decided by its first bytes only, and a PDF is recognised
  exactly by its header, whatever follows; two contents with the same first twelve bytes have the
  same type.
\<close>

lemma starts_take: "length p \<le> 12 \<Longrightarrow> starts content p = starts (take 12 content) p"
  by (simp add: starts_def min_absorb2)

lemma sniff_take: "sniff content = sniff (take 12 content)"
proof -
  have "take 4 (drop 8 (take 12 content)) = take 4 (drop 8 content)" by (simp add: drop_take)
  then show ?thesis
    unfolding sniff_def by (simp add: starts_def B_def)
qed

lemma sniff_prefix:
  "(sniff content = sniff (take 12 content)) \<and>
   (sniff content = Inr (U ''application/pdf'') \<longleftrightarrow> take 4 content = B ''%PDF'')"
proof -
  have "length (B ''%PDF'') = 4" by (simp add: B_def)
  then show ?thesis using sniff_take [of content] sniff_pdf [of content] by (simp only: starts_def)
qed

subsection \<open>Well-formed lines\<close>

text \<open>
  What the rest of the engine relies on for a line: a text that is not empty, a page that
  exists, and a positive score.
\<close>

definition wf_line :: "int \<Rightarrow> line \<Rightarrow> bool" where
  "wf_line pages l \<longleftrightarrow>
     l_text l \<noteq> [] \<and> 1 \<le> l_page l \<and> l_page l \<le> pages \<and> 0 < l_score l"

lemma block_lines_wf:
  "l \<in> set (block_lines n b) \<Longrightarrow> l_text l \<noteq> [] \<and> 10 \<notin> set (l_text l) \<and> l_page l = n \<and> l_score l = 1"
  by (auto simp: block_lines_def Let_def split: prod.splits if_splits)

lemma page_lines_wf:
  "page_lines n pages acc = Some ls \<Longrightarrow> l \<in> set ls \<Longrightarrow>
     l \<in> set acc \<or> (l_text l \<noteq> [] \<and> 10 \<notin> set (l_text l) \<and> n \<le> l_page l
                       \<and> l_page l < n + int (length pages) \<and> l_score l = 1)"
proof (induction n pages acc rule: page_lines.induct)
  case (1 n acc)
  then show ?case by (auto split: if_splits)
next
  case (2 n pg pages acc)
  then have "l \<in> set (acc @ concat (map (block_lines n) (pg_blocks pg)))
      \<or> (l_text l \<noteq> [] \<and> 10 \<notin> set (l_text l) \<and> n + 1 \<le> l_page l
           \<and> l_page l < n + 1 + int (length pages) \<and> l_score l = 1)"
    by (auto split: if_splits)
  then show ?case using block_lines_wf [of l n] by auto
qed

lemma page_lines_some: "page_lines n pages acc = Some ls \<Longrightarrow>
    ls \<noteq> [] \<and> list_all (\<lambda>pg. py_strip (pg_text pg) \<noteq> []) pages"
  by (induction n pages acc rule: page_lines.induct) (auto split: if_splits)

lemma digitalborn_Some:
  assumes "digitalborn_lines M content = Inr (Some ls)"
  obtains doc where "fitz_open M content = Inr doc" and "page_lines 1 doc [] = Some ls"
    and "starts content (B ''%PDF'')"
  using assms by (auto simp: digitalborn_lines_def elim!: rbind_InrE split: if_splits)

text \<open>
  The text layer is used only when every page of the PDF has text; the lines it
  gives are never empty, contain no line break, are scored 1, and carry the number of a page of
  the document.
\<close>

lemma digitalborn_lines_wf:
  assumes "digitalborn_lines M content = Inr (Some ls)"
  shows "\<exists>doc. fitz_open M content = Inr doc \<and> ls \<noteq> []
      \<and> list_all (\<lambda>pg. py_strip (pg_text pg) \<noteq> []) doc
      \<and> list_all (\<lambda>l. wf_line (int (length doc)) l \<and> 10 \<notin> set (l_text l) \<and> l_score l = 1) ls"
proof -
  obtain doc where d: "fitz_open M content = Inr doc" and p: "page_lines 1 doc [] = Some ls"
    using digitalborn_Some [OF assms] .
  have "wf_line (int (length doc)) l \<and> 10 \<notin> set (l_text l) \<and> l_score l = 1" if "l \<in> set ls" for l
    using page_lines_wf [OF p that] by (auto simp: wf_line_def)
  with d page_lines_some [OF p] show ?thesis by (auto simp: list_all_iff)
qed

lemma digitalborn_lines_wf_example:
  "\<exists>ls. digitalborn_lines demo_media (B ''%PDF-1.7'') = Inr (Some ls) \<and> ls \<noteq> []"
proof -
  have "digitalborn_lines demo_media (B ''%PDF-1.7'') =
      Inr (Some [\<lparr>l_text = U ''Total  27'', l_score = 1, l_x1 = 1, l_y1 = 2, l_x2 = 30, l_y2 = 14, l_page = 1\<rparr>])"
    by code_simp
  from digitalborn_lines_wf [OF this] this show ?thesis by blast
qed

subsection \<open>Scaling stays within the cap\<close>

lemma rnd_relative:
  assumes "2 powi (- 1022) \<le> x"
  shows "rnd x \<le> x + x / 2 ^ 53"
proof -
  have pos: "0 < x" using assms two_powi_pos [of "- 1022"] by linarith
  have "2 powi (- 1022) < (2 :: rat) powi (ilog2 x + 1)"
    using ilog2_bounds [OF pos] assms by linarith
  then have "- 1022 < ilog2 x + 1" by (simp only: two_powi_less_iff)
  then have e: "fl_exp x = ilog2 x - 52" using pos by (simp add: fl_exp_def)
  have "2 powi fl_exp x / 2 = 2 powi (ilog2 x) / (2 :: rat) ^ 53"
    by (simp add: e power_int_diff)
  also have "\<dots> \<le> x / 2 ^ 53" using ilog2_bounds [OF pos] by (intro divide_right_mono) simp_all
  finally have half: "2 powi fl_exp x / 2 \<le> x / 2 ^ 53" .
  have "rnd x - x \<le> 2 powi fl_exp x / 2" using rnd_err [of x] by linarith
  with half show ?thesis by linarith
qed

lemma scaled_bounds:
  assumes "0 < m" and "m < l" and "l \<le> 2 ^ 52" and "0 < w" and "w \<le> l"
  shows "1 \<le> scaled w (int_truediv m l) \<and> scaled w (int_truediv m l) \<le> m"
proof -
  let ?q = "of_int m / of_int l :: rat"
  have l0: "0 < (of_int l :: rat)" using assms by simp
  have "of_int l * 2 powi (- 1022) \<le> (of_int m :: rat)"
  proof -
    have "of_int l \<le> (2 :: rat) ^ 52" using assms(3) by (metis of_int_le_iff of_int_numeral of_int_power)
    then have "of_int l * 2 powi (- 1022) \<le> (2 :: rat) ^ 52 * 2 powi (- 1022)"
      by (intro mult_right_mono) simp_all
    also have "\<dots> = 2 powi (- 970)" using power_int_add [of "2 :: rat" 52 "- 1022"] by simp
    also have "\<dots> \<le> 2 powi 0" by (rule two_powi_le_iff [THEN iffD2]) simp
    also have "\<dots> \<le> of_int m" using assms(1) by simp
    finally show ?thesis .
  qed
  then have "2 powi (- 1022) \<le> ?q" using l0 by (simp add: pos_le_divide_eq mult.commute)
  then have s: "rnd ?q \<le> ?q + ?q / 2 ^ 53" by (rule rnd_relative)
  have s0: "0 \<le> rnd ?q" using assms l0 by (intro rnd_nonneg) simp
  have wl: "rnd (of_int w) = of_int w"
    using assms by (intro rnd_representable representable_int) simp
  have "of_int w * rnd ?q \<le> of_int l * (?q + ?q / 2 ^ 53)"
    using s s0 assms by (intro mult_mono) auto
  also have "\<dots> = of_int m + of_int m / 2 ^ 53" using l0 by (simp add: field_simps)
  also have "\<dots> \<le> of_int m + 1 / 2"
  proof -
    have "m \<le> 2 ^ 52" using assms by linarith
    then have "of_int m \<le> (2 :: rat) ^ 52" by (metis of_int_le_iff of_int_numeral of_int_power)
    then show ?thesis by simp
  qed
  finally have "rnd (of_int w * rnd ?q) < of_int m + 1"
    using assms by (intro binary64.fl_below_half) simp_all
  moreover have "0 \<le> rnd (of_int w * rnd ?q)" using s0 assms by (intro rnd_nonneg) simp
  ultimately have "py_trunc (rnd (of_int w * rnd ?q)) \<le> m"
    by (simp add: py_trunc_def floor_le_iff)
  then show ?thesis using assms(1) by (simp add: scaled_def fl_mul_def int_truediv_def wl)
qed

text \<open>
  Property C36: an image is handed on unchanged exactly when its larger side is within the cap, and
  otherwise it is resized to sides that are at least 1 and never above the cap: the rounding of
  the two floating-point operations cannot push a side over it.
\<close>

theorem downscale_within_cap:
  assumes "image_size M content = Inr (w, h)" and "0 < w" and "0 < h" and "max w h \<le> 2 ^ 52"
    and "0 < max_image_dim s"
  shows "if max w h \<le> max_image_dim s then downscale_if_needed M content s = Inr content
    else (\<exists>w' h'. downscale_if_needed M content s = image_jpeg M content w' h'
            \<and> 1 \<le> w' \<and> w' \<le> max_image_dim s \<and> 1 \<le> h' \<and> h' \<le> max_image_dim s)"
proof (cases "max w h \<le> max_image_dim s")
  case True
  then show ?thesis using assms(1) by (simp add: downscale_if_needed_def Let_def)
next
  case False
  let ?sc = "int_truediv (max_image_dim s) (max w h)"
  have "max_image_dim s < max w h" using False by linarith
  then have "1 \<le> scaled d ?sc \<and> scaled d ?sc \<le> max_image_dim s" if "0 < d" "d \<le> max w h" for d
    using that assms(4,5) by (intro scaled_bounds)
  then have "1 \<le> scaled w ?sc \<and> scaled w ?sc \<le> max_image_dim s"
    and "1 \<le> scaled h ?sc \<and> scaled h ?sc \<le> max_image_dim s"
    using assms(2,3) by simp_all
  moreover have "downscale_if_needed M content s = image_jpeg M content (scaled w ?sc) (scaled h ?sc)"
    using False assms(1) by (simp add: downscale_if_needed_def Let_def del: max.bounded_iff)
  ultimately show ?thesis using False by auto
qed

theorem downscale_within_cap_witness:
  "\<exists>w' h'. downscale_if_needed demo_media [1] demo_settings = image_jpeg demo_media [1] w' h'
     \<and> 1 \<le> w' \<and> w' \<le> 4000 \<and> 1 \<le> h' \<and> h' \<le> 4000"
  using downscale_within_cap [of demo_media "[1]" 8000 6000 demo_settings]
  by (simp add: demo_media_def demo_settings_def)

end
