(* ===== verification/Ocr_Lines.thy ===== *)
theory Ocr_Lines
  imports Ocr_Validate Ocr_Inspect
begin

text \<open>
  The interface between recognition and extraction: what every source of lines promises, as the
  locale \<open>line_source\<close>, and what extraction may then promise about its fields, whatever the
  source. The text layer of a PDF is the first source; the provider and the pipeline
  interpret the locale in their own theories.
\<close>

locale line_source =
  fixes gives :: "'c \<Rightarrow> line list \<Rightarrow> bool"
  assumes gives_text: "gives c ls \<Longrightarrow> l \<in> set ls \<Longrightarrow> l_text l \<noteq> []"
    and gives_score: "gives c ls \<Longrightarrow> l \<in> set ls \<Longrightarrow> 0 < l_score l"
    and gives_page: "gives c ls \<Longrightarrow> l \<in> set ls \<Longrightarrow> 1 \<le> l_page l"
begin

lemma source_field:
  assumes "gives c ls" and "extract_fields L sch ls = Inr es" and "e \<in> set es" and "has_value e"
  shows "0 < ef_confidence e \<and> (\<exists>l \<in> set ls. ef_source e = Some l \<and> 1 \<le> l_page l)"
proof -
  have m: "rmap (extract_one L (rank_lines ls)) (sc_fields sch) = Inr es"
    using assms(2) by (simp add: extract_fields_def)
  obtain i where i: "i < length es" "es ! i = e" using assms(3) by (auto simp: in_set_conv_nth)
  then have "extract_one L (rank_lines ls) (sc_fields sch ! i) = Inr e"
    using rmap_Inr_nth [OF m] rmap_Inr_length [OF m] by auto
  then have "from_lines L (sc_fields sch ! i) (set ls) e"
    using extract_one_found assms(4) snd_rank_lines by (fastforce simp: not_found_def has_value_def)
  then obtain l v where l: "l \<in> set ls" and e: "e = make_field (sc_fields sch ! i) l v"
    by (auto simp: from_lines_def)
  show ?thesis using gives_score [OF assms(1) l] gives_page [OF assms(1) l] l by (simp add: e)
qed

text \<open>A value of a field type is never the empty text, and only a missing field scores zero.\<close>

lemma source_zero_confidence:
  assumes "gives c ls" and "extract_fields L sch ls = Inr es" and "e \<in> set es"
  shows "ef_confidence e = 0 \<longleftrightarrow> \<not> has_value e"
proof (cases "has_value e")
  case True
  then show ?thesis using source_field [OF assms True] by simp
next
  case False
  have m: "rmap (extract_one L (rank_lines ls)) (sc_fields sch) = Inr es"
    using assms(2) by (simp add: extract_fields_def)
  have "has_value e \<or> ef_confidence e = 0"
  proof (rule rmap_Inr_all [OF m _ assms(3)])
    fix fs x
    assume "extract_one L (rank_lines ls) fs = Inr x"
    from extract_one_found [OF this] show "has_value x \<or> ef_confidence x = 0"
      by (auto simp: not_found_def from_lines_def)
  qed
  with False show ?thesis by simp
qed

end

definition digital_gives :: "media \<times> bytes \<Rightarrow> line list \<Rightarrow> bool" where
  "digital_gives c ls \<longleftrightarrow> digitalborn_lines (fst c) (snd c) = Inr (Some ls)"

interpretation digital: line_source digital_gives
proof
  fix c :: "media \<times> bytes" and ls l
  assume "digital_gives c ls" and l: "l \<in> set ls"
  then obtain doc where "page_lines 1 doc [] = Some ls"
    by (auto simp: digital_gives_def elim: digitalborn_Some)
  from page_lines_wf [OF this l] show "l_text l \<noteq> []" and "0 < l_score l" and "1 \<le> l_page l"
    by auto
qed

end
