(* ===== verification/Ocr_Requests.thy ===== *)
theory Ocr_Requests
  imports Ocr_Inspect
begin

text \<open>
  What the recognition provider sends (\<open>ocr/baidu.py\<close>): the URLs, the headers with the token and
  the payload of the synchronous call, with the file in base64, of the job and of its polls.
\<close>

subsection \<open>Base64\<close>

text \<open>\<open>base64.b64encode(content).decode()\<close>: six bits for each character, three bytes at a time.\<close>

definition b64_char :: "int \<Rightarrow> int" where
  "b64_char n =
     (if n < 26 then 65 + n else if n < 52 then 71 + n else if n < 62 then n - 4 else if n = 62 then 43 else 47)"

fun b64encode :: "bytes \<Rightarrow> pystr" where
  "b64encode [] = []"
| "b64encode [a] = [b64_char (uint a div 4), b64_char (uint a mod 4 * 16), 61, 61]"
| "b64encode [a, b] =
     [b64_char (uint a div 4), b64_char (uint a mod 4 * 16 + uint b div 16), b64_char (uint b mod 16 * 4), 61]"
| "b64encode (a # b # c # later) =
     b64_char (uint a div 4) # b64_char (uint a mod 4 * 16 + uint b div 16)
       # b64_char (uint b mod 16 * 4 + uint c div 64) # b64_char (uint c mod 64) # b64encode later"

text \<open>The other direction, for what the receiver reads.\<close>

definition b64_value :: "int \<Rightarrow> int" where
  "b64_value c =
     (if 65 \<le> c \<and> c \<le> 90 then c - 65 else if 97 \<le> c \<and> c \<le> 122 then c - 71
      else if 48 \<le> c \<and> c \<le> 57 then c + 4 else if c = 43 then 62 else 63)"

fun b64decode :: "pystr \<Rightarrow> bytes" where
  "b64decode (p # q # r # s # later) =
     (let p' = b64_value p; q' = b64_value q; r' = b64_value r; s' = b64_value s
      in word_of_int (p' * 4 + q' div 16) #
         (if r = 61 then []
          else word_of_int (q' mod 16 * 16 + r' div 4) #
               (if s = 61 then [] else word_of_int (r' mod 4 * 64 + s') # b64decode later)))"
| "b64decode _ = []"

lemma b64_value_char: "0 \<le> n \<Longrightarrow> n < 64 \<Longrightarrow> b64_value (b64_char n) = n"
  by (auto simp: b64_value_def b64_char_def)

lemma b64_char_padding: "0 \<le> n \<Longrightarrow> b64_char n \<noteq> 61"
  by (auto simp: b64_char_def)

lemma byte_range [simp]: "0 \<le> uint (a :: 8 word)" "uint (a :: 8 word) < 256"
  using uint_bounded [of a] by simp_all

lemma sextets:
  fixes a b c :: "8 word"
  shows "b64_value (b64_char (uint a div 4)) = uint a div 4"
    "b64_value (b64_char (uint a mod 4 * 16)) = uint a mod 4 * 16"
    "b64_value (b64_char (uint a mod 4 * 16 + uint b div 16)) = uint a mod 4 * 16 + uint b div 16"
    "b64_value (b64_char (uint b mod 16 * 4)) = uint b mod 16 * 4"
    "b64_value (b64_char (uint b mod 16 * 4 + uint c div 64)) = uint b mod 16 * 4 + uint c div 64"
    "b64_value (b64_char (uint c mod 64)) = uint c mod 64"
proof -
  have a: "0 \<le> uint a" "uint a < 256" and b: "0 \<le> uint b" "uint b < 256" and c: "0 \<le> uint c" "uint c < 256" by simp_all
  show "b64_value (b64_char (uint a div 4)) = uint a div 4" by (rule b64_value_char) (use a in presburger)+
  show "b64_value (b64_char (uint a mod 4 * 16)) = uint a mod 4 * 16" by (rule b64_value_char) (use a in presburger)+
  show "b64_value (b64_char (uint a mod 4 * 16 + uint b div 16)) = uint a mod 4 * 16 + uint b div 16"
    by (rule b64_value_char) (use a b in presburger)+
  show "b64_value (b64_char (uint b mod 16 * 4)) = uint b mod 16 * 4" by (rule b64_value_char) (use b in presburger)+
  show "b64_value (b64_char (uint b mod 16 * 4 + uint c div 64)) = uint b mod 16 * 4 + uint c div 64"
    by (rule b64_value_char) (use b c in presburger)+
  show "b64_value (b64_char (uint c mod 64)) = uint c mod 64" by (rule b64_value_char) (use c in presburger)+
qed

lemma byte_parts:
  fixes a :: "8 word"
  shows "0 \<le> uint a div 16" "uint a div 16 < 16" "0 \<le> uint a div 64" "uint a div 64 < 4"
proof -
  have "0 \<le> uint a" "uint a < 256" by simp_all
  then show "0 \<le> uint a div 16" "uint a div 16 < 16" "0 \<le> uint a div 64" "uint a div 64 < 4" by presburger+
qed

lemma high_digit: "0 \<le> y \<Longrightarrow> y < k \<Longrightarrow> (x * k + y) div k = x" for x y k :: int
  by simp

lemma low_digit: "0 \<le> y \<Longrightarrow> y < k \<Longrightarrow> (x * k + y) mod k = y" for x y k :: int
  by simp

lemma octets:
  fixes a b c :: "8 word"
  shows "uint a div 4 * 4 + (uint a mod 4 * 16) div 16 = uint a"
    "uint a div 4 * 4 + (uint a mod 4 * 16 + uint b div 16) div 16 = uint a"
    "(uint a mod 4 * 16 + uint b div 16) mod 16 * 16 + (uint b mod 16 * 4) div 4 = uint b"
    "(uint a mod 4 * 16 + uint b div 16) mod 16 * 16 + (uint b mod 16 * 4 + uint c div 64) div 4 = uint b"
    "(uint b mod 16 * 4 + uint c div 64) mod 4 * 64 + uint c mod 64 = uint c"
  by (simp_all only: high_digit low_digit byte_parts div_mult_mod_eq nonzero_mult_div_cancel_right [of 16]
      nonzero_mult_div_cancel_right [of 4])

lemma octet_words:
  fixes a b c :: "8 word"
  shows "word_of_int (uint a div 4 * 4 + (uint a mod 4 * 16) div 16) = a"
    "word_of_int (uint a div 4 * 4 + (uint a mod 4 * 16 + uint b div 16) div 16) = a"
    "word_of_int ((uint a mod 4 * 16 + uint b div 16) mod 16 * 16 + (uint b mod 16 * 4) div 4) = b"
    "word_of_int ((uint a mod 4 * 16 + uint b div 16) mod 16 * 16 + (uint b mod 16 * 4 + uint c div 64) div 4) = b"
    "word_of_int ((uint b mod 16 * 4 + uint c div 64) mod 4 * 64 + uint c mod 64) = c"
  by (simp_all only: octets word_of_int_uint)

lemma paddings:
  fixes a b c :: "8 word"
  shows "b64_char (uint a mod 4 * 16) \<noteq> 61" "b64_char (uint b mod 16 * 4) \<noteq> 61"
    "b64_char (uint b mod 16 * 4 + uint c div 64) \<noteq> 61" "b64_char (uint c mod 64) \<noteq> 61"
  by (rule b64_char_padding; simp add: pos_imp_zdiv_nonneg_iff)+

lemma b64decode_encode: "b64decode (b64encode content) = content"
  by (induction content rule: b64encode.induct)
    (simp_all only: b64encode.simps b64decode.simps Let_def sextets octet_words paddings if_False if_True refl)

subsection \<open>The requests\<close>

text \<open>
  The synchronous call posts JSON, the job a form with the file, a poll only asks. A URL that is not
  configured is \<open>None\<close>. \<open>secret\<close> is \<open>baidu_token.get_secret_value()\<close>.
\<close>

record sync_post =
  sp_url :: "pystr option"
  sp_json :: "(pystr \<times> pyv) list"
  sp_headers :: "(pystr \<times> pystr) list"
  sp_timeout :: rat

record job_post =
  jp_url :: pystr
  jp_file :: "pystr \<times> bytes \<times> pystr"
  jp_data :: "(pystr \<times> pystr) list"
  jp_headers :: "(pystr \<times> pystr) list"

record poll_get =
  gp_url :: pystr
  gp_headers :: "(pystr \<times> pystr) list"

definition secret :: "settings \<Rightarrow> pystr res" where
  "secret s = (case baidu_token s of Some t \<Rightarrow> Inr t | None \<Rightarrow> Inl (no_attr ''NoneType'' ''get_secret_value''))"

definition sync_headers :: "settings \<Rightarrow> (pystr \<times> pystr) list res" where
  "sync_headers s =
     rbind (secret s) (\<lambda>t. Inr [(U ''Authorization'', U ''token '' @ t), (U ''Content-Type'', U ''application/json'')])"

definition bearer :: "settings \<Rightarrow> (pystr \<times> pystr) list res" where
  "bearer s = rbind (secret s) (\<lambda>t. Inr [(U ''Authorization'', U ''Bearer '' @ t)])"

definition sync_payload :: "settings \<Rightarrow> bytes \<Rightarrow> pystr \<Rightarrow> (pystr \<times> pyv) list" where
  "sync_payload s content mime =
     [(U ''file'', PStr (b64encode content)),
      (U ''fileType'', PInt (if mime = U ''application/pdf'' then 0 else 1)),
      (U ''useDocOrientationClassify'', PBool (baidu_unwarp s)),
      (U ''useDocUnwarping'', PBool (baidu_unwarp s)),
      (U ''visualize'', PBool False)]"

definition sync_request :: "settings \<Rightarrow> bytes \<Rightarrow> pystr \<Rightarrow> sync_post res" where
  "sync_request s content mime =
     rbind (sync_headers s) (\<lambda>headers.
       Inr \<lparr>sp_url = baidu_api_url s, sp_json = sync_payload s content mime, sp_headers = headers,
            sp_timeout = baidu_timeout s\<rparr>)"

text \<open>\<open>json.dumps\<close> of the two options of a job.\<close>

definition json_bool :: "bool \<Rightarrow> pystr" where
  "json_bool b = (if b then U ''true'' else U ''false'')"

definition optional_payload :: "settings \<Rightarrow> pystr" where
  "optional_payload s =
     U ''{\"useDocOrientationClassify\": '' @ json_bool (baidu_unwarp s)
       @ U '', \"useDocUnwarping\": '' @ json_bool (baidu_unwarp s) @ U ''}''"

definition jobs_url :: "settings \<Rightarrow> pystr" where
  "jobs_url s = baidu_async_url s @ U ''/api/v2/ocr/jobs''"

definition job_request :: "settings \<Rightarrow> bytes \<Rightarrow> pystr \<Rightarrow> job_post res" where
  "job_request s content mime =
     rbind (bearer s) (\<lambda>headers.
       Inr \<lparr>jp_url = jobs_url s, jp_file = (U ''document'', content, mime),
            jp_data = [(U ''model'', U ''PP-StructureV3''), (U ''optionalPayload'', optional_payload s)],
            jp_headers = headers\<rparr>)"

definition poll_request :: "settings \<Rightarrow> pystr \<Rightarrow> poll_get res" where
  "poll_request s job =
     rbind (bearer s) (\<lambda>headers. Inr \<lparr>gp_url = jobs_url s @ U ''/'' @ job, gp_headers = headers\<rparr>)"

subsection \<open>Requests of a validated configuration\<close>

lemma startswith_append: "py_startswith u p \<Longrightarrow> py_startswith (u @ v) p"
proof -
  assume "py_startswith u p"
  then have t: "take (length p) u = p" by (simp add: py_startswith_def)
  have "length p \<le> length u" using arg_cong [OF t, of length] by simp
  then show ?thesis using t by (simp add: py_startswith_def)
qed

lemma https_append [simp]: "is_https u \<Longrightarrow> is_https (u @ v)"
  unfolding is_https_def by (rule startswith_append)

text \<open>
  Property C13: once the configuration has passed the validation, no request fails for want of a
  token or a URL, and the token only goes out over https: the synchronous call sends it, with a
  payload in which the receiver reads exactly the content of the file, to the configured https
  address; a job and its polls send it to the https address of the asynchronous service.
\<close>

theorem token_only_over_https:
  assumes "validate_settings I is_dir s = Inr s'" and "provider s = BAIDU_AISTUDIO"
  shows "case baidu_mode s of
      SYNC \<Rightarrow> (\<exists>rq url token. sync_request s content mime = Inr rq \<and> sp_url rq = Some url \<and> is_https url
                 \<and> baidu_token s = Some token \<and> map_of (sp_headers rq) (U ''Authorization'') = Some (U ''token '' @ token)
                 \<and> (\<exists>t. map_of (sp_json rq) (U ''file'') = Some (PStr t) \<and> b64decode t = content))
    | ASYNC \<Rightarrow> (\<exists>rq. job_request s content mime = Inr rq \<and> is_https (jp_url rq) \<and> fst (snd (jp_file rq)) = content)
               \<and> (\<exists>rq. poll_request s job = Inr rq \<and> is_https (gp_url rq))"
proof -
  have ready: "baidu_ready s"
    using assms no_baidu_problems no_problems_baidu by (auto simp: validate_settings_Inr)
  then obtain token where token: "baidu_token s = Some token" by (auto simp: baidu_ready_def given_def)
  show ?thesis
  proof (cases "baidu_mode s")
    case SYNC
    with ready obtain url where "baidu_api_url s = Some url" "is_https url"
      by (auto simp: baidu_ready_def split: option.splits)
    then show ?thesis using SYNC token
      by (simp add: sync_request_def sync_headers_def secret_def sync_payload_def b64decode_encode)
  next
    case ASYNC
    then show ?thesis using ready token
      by (simp add: baidu_ready_def job_request_def poll_request_def bearer_def secret_def jobs_url_def)
  qed
qed

theorem token_only_over_https_witness:
  "\<exists>rq t. sync_request demo_settings (B ''%PDF-1.7'') (U ''application/pdf'') = Inr rq
     \<and> map_of (sp_json rq) (U ''file'') = Some (PStr t) \<and> b64decode t = B ''%PDF-1.7''"
proof -
  have "provider demo_settings = BAIDU_AISTUDIO" "baidu_mode demo_settings = SYNC" by (simp_all add: demo_settings_def)
  then show ?thesis
    using token_only_over_https [OF demo_settings_valid, of "B ''%PDF-1.7''" "U ''application/pdf''" "[]"] by auto
qed

end
