(* ===== verification/Ocr_Baidu.thy ===== *)
theory Ocr_Baidu
  imports Ocr_Lines Ocr_Requests
begin

text \<open>
  The recognition provider (\<open>ocr/baidu.py\<close>, \<open>ocr/registry.py\<close>): the synchronous call and the
  asynchronous job with its poll loop, the classification of every answer as a permanent or a
  transient failure, and the normalisation of Baidu's JSON into lines. The HTTP client and the
  clock of the event loop are parameters: an answer is a response or the exception raised.
\<close>

subsection \<open>The client\<close>

record response =
  r_status :: int
  r_text :: pystr
  r_json :: "pyv res"

text \<open>
  \<open>c_post_sync\<close> and \<open>c_post_job\<close> answer the two POST requests, \<open>c_poll rq k\<close> is the answer to the
  \<open>k\<close>-th poll of a job, \<open>c_time k\<close> the clock read after it, \<open>c_start\<close> the clock when
  polling starts, \<open>c_get\<close> the request for the result and \<open>c_loads\<close> is \<open>json.loads\<close>.
\<close>

record client =
  c_post_sync :: "sync_post \<Rightarrow> response res"
  c_post_job :: "job_post \<Rightarrow> response res"
  c_poll :: "poll_get \<Rightarrow> nat \<Rightarrow> response res"
  c_start :: rat
  c_time :: "nat \<Rightarrow> rat"
  c_get :: "pyv \<Rightarrow> response res"
  c_loads :: "pystr \<Rightarrow> pyv res"

text \<open>\<open>_safe_json\<close>.\<close>

definition safe_json :: "response \<Rightarrow> pyv res" where
  "safe_json r =
     (case r_json r of
        Inl (ValueError m) \<Rightarrow>
          Inl (ProviderTransientError (U ''baidu non-JSON response '' @ int_str (r_status r)))
      | x \<Rightarrow> x)"

text \<open>Equality with an integer: \<open>False == 0\<close> and \<open>0.0 == 0\<close> in Python.\<close>

fun eq_int :: "pyv \<Rightarrow> int \<Rightarrow> bool" where
  "eq_int (PInt n) k = (n = k)"
| "eq_int (PFloat x) k = (x = of_int k)"
| "eq_int (PBool b) k = ((if b then 1 else 0) = k)"
| "eq_int _ k = False"

fun hashable :: "pyv \<Rightarrow> bool" where
  "hashable (PList _) = False"
| "hashable (PDict _) = False"
| "hashable _ = True"

definition in_int_set :: "pyv \<Rightarrow> int list \<Rightarrow> bool res" where
  "in_int_set v ks =
     (if hashable v then Inr (list_ex (eq_int v) ks)
      else Inl (TypeError (U ''unhashable type: '' @ py_repr (U (py_class v)))))"

definition job_codes :: "int list" where
  "job_codes = [401, 413]"

subsection \<open>The synchronous call\<close>

definition extract_sync :: "interp \<Rightarrow> settings \<Rightarrow> client \<Rightarrow> bytes \<Rightarrow> pystr \<Rightarrow> pyv res" where
  "extract_sync I s C content mime =
     rbind (rbind (sync_request s content mime) (c_post_sync C)) (\<lambda>r.
       if r_status r \<in> set baidu_retryable_http
       then Inl (ProviderTransientError (U ''baidu sync '' @ int_str (r_status r)))
       else if r_status r \<noteq> 200
       then Inl (ProviderPermanentError (U ''baidu sync '' @ int_str (r_status r) @ U '': ''
                                           @ take 200 (r_text r)))
       else rbind (r_json r) (\<lambda>body.
            rbind (py_get body (U ''errorCode'') PNone) (\<lambda>code.
              if \<not> (eq_int code 0 \<or> code = PNone)
              then rbind (py_get body (U ''errorMsg'') PNone) (\<lambda>msg.
                     Inl (ProviderPermanentError (U ''baidu sync errorCode='' @ py_str I code
                                                    @ U '': '' @ py_str I msg)))
              else Inr body)))"

subsection \<open>The asynchronous job\<close>

definition submit_job :: "interp \<Rightarrow> settings \<Rightarrow> client \<Rightarrow> bytes \<Rightarrow> pystr \<Rightarrow> pystr res" where
  "submit_job I s C content mime =
     rbind (rbind (job_request s content mime) (c_post_job C)) (\<lambda>r.
     rbind (safe_json r) (\<lambda>body.
     rbind (py_get body (U ''code'') PNone) (\<lambda>code.
       if eq_int code 0
       then rbind (py_item body (U ''data'')) (\<lambda>d.
            rbind (py_item d (U ''jobId'')) (\<lambda>j. Inr (py_str I j)))
       else rbind (in_int_set code baidu_async_error_permanent) (\<lambda>permanent.
              if permanent \<or> r_status r \<in> set job_codes
              then rbind (py_get body (U ''msg'') PNone) (\<lambda>msg.
                     Inl (ProviderPermanentError (U ''baidu async submit code='' @ py_str I code
                                                    @ U '': '' @ py_str I msg)))
              else Inl (ProviderTransientError (U ''baidu async submit code='' @ py_str I code
                                                  @ U '' http='' @ int_str (r_status r)))))))"

text \<open>One turn of the poll loop: \<open>Some\<close> the way it ends the loop, \<open>None\<close> to sleep and go on.\<close>

definition poll_turn :: "interp \<Rightarrow> client \<Rightarrow> poll_get \<Rightarrow> rat \<Rightarrow> pystr \<Rightarrow> nat \<Rightarrow> pyv res option" where
  "poll_turn I C rq deadline job k =
     (case rbind (c_poll C rq k) safe_json of
        Inl e \<Rightarrow> Some (Inl e)
      | Inr body \<Rightarrow>
          (case rbind (py_get body (U ''data'') PNone) (\<lambda>d. py_get (py_or d (PDict [])) (U ''state'') PNone) of
             Inl e \<Rightarrow> Some (Inl e)
           | Inr state \<Rightarrow>
               if state = PStr (U ''done'')
               then Some (rbind (py_item body (U ''data'')) (\<lambda>d.
                          rbind (py_item d (U ''resultUrl'')) (\<lambda>u. py_item u (U ''jsonUrl''))))
               else if state = PStr (U ''failed'')
               then Some (rbind (py_get body (U ''data'') PNone) (\<lambda>d.
                          rbind (py_get (py_or d (PDict [])) (U ''errorMsg'') (PStr [])) (\<lambda>detail.
                            Inl (ProviderPermanentError (U ''baidu async job failed: '' @ py_str I detail)))))
               else if c_time C k > deadline
               then Some (Inl (ProviderTransientError (U ''baidu async job '' @ job @ U '' poll timeout'')))
               else None))"

partial_function (option) poll_from :: "interp \<Rightarrow> client \<Rightarrow> poll_get \<Rightarrow> rat \<Rightarrow> pystr \<Rightarrow> nat \<Rightarrow> pyv res option" where
  "poll_from I C rq deadline job k =
     (case poll_turn I C rq deadline job k of
        Some r \<Rightarrow> Some r
      | None \<Rightarrow> poll_from I C rq deadline job (Suc k))"

definition poll_job :: "interp \<Rightarrow> settings \<Rightarrow> client \<Rightarrow> pystr \<Rightarrow> pyv res option" where
  "poll_job I s C job =
     (case poll_request s job of
        Inl e \<Rightarrow> Some (Inl e)
      | Inr rq \<Rightarrow> poll_from I C rq (fl_add (c_start C) (baidu_poll_timeout s)) job 0)"

definition is_linebreak :: "int \<Rightarrow> bool" where
  "is_linebreak c \<longleftrightarrow> (10 \<le> c \<and> c \<le> 13) \<or> (28 \<le> c \<and> c \<le> 30) \<or> c = 133 \<or> c = 8232 \<or> c = 8233"

text \<open>\<open>None\<close> if the poll loop never returns.\<close>

definition extract_async :: "interp \<Rightarrow> settings \<Rightarrow> client \<Rightarrow> bytes \<Rightarrow> pystr \<Rightarrow> pyv res option" where
  "extract_async I s C content mime =
     (case submit_job I s C content mime of
        Inl e \<Rightarrow> Some (Inl e)
      | Inr job \<Rightarrow>
          map_option (\<lambda>polled.
            rbind polled (\<lambda>url.
            rbind (c_get C url) (\<lambda>r.
              if \<not> (200 \<le> r_status r \<and> r_status r \<le> 299)
              then Inl (HTTPError (U ''HTTPStatusError '' @ int_str (r_status r)))
              else (let t = py_strip (r_text r)
                    in if t = [] then Inl IndexError
                       else c_loads C (takeWhile (\<lambda>c. \<not> is_linebreak c) t)))))
          (poll_job I s C job))"

subsection \<open>Normalisation\<close>

text \<open>\<open>int(v)\<close> and \<open>float(v)\<close> and \<open>v <= 0.0\<close> on JSON values.\<close>

fun json_int :: "pyv \<Rightarrow> int res" where
  "json_int (PInt n) = Inr n"
| "json_int (PBool b) = Inr (if b then 1 else 0)"
| "json_int (PFloat x) = Inr (py_trunc x)"
| "json_int (PStr t) =
     (case py_int t of
        Some n \<Rightarrow> Inr n
      | None \<Rightarrow> Inl (ValueError (U ''invalid literal for int() with base 10: '' @ py_repr t)))"
| "json_int v = Inl (TypeError (U ''int() argument must be a string, a bytes-like object or a real number, not ''
                                  @ py_repr (U (py_class v))))"

fun json_score :: "pyv \<Rightarrow> rat res" where
  "json_score (PInt n) = Inr (rnd (of_int n))"
| "json_score (PBool b) = Inr (if b then 1 else 0)"
| "json_score (PFloat x) = Inr x"
| "json_score v = Inl (TypeError (py_repr (U ''<='') @ U '' not supported between instances of ''
                                    @ py_repr (U (py_class v)) @ U '' and '' @ py_repr (U ''float'')))"

definition box_of :: "pyv \<Rightarrow> (int \<times> int \<times> int \<times> int) res" where
  "box_of box =
     rbind (py_iter box) (\<lambda>vs.
       if 4 \<le> length vs
       then rbind (rmap json_int (take 4 vs)) (\<lambda>ns. Inr (ns ! 0, ns ! 1, ns ! 2, ns ! 3))
       else Inr (0, 0, 0, 0))"

definition line_of :: "interp \<Rightarrow> int \<Rightarrow> pyv \<times> pyv \<times> pyv \<Rightarrow> line list res" where
  "line_of I page t =
     (case t of (raw, score, box) \<Rightarrow>
        let cleaned = py_strip (py_str I raw)
        in if cleaned = [] then Inr []
           else rbind (json_score score) (\<lambda>sc.
             if sc \<le> 0 then Inr []
             else if length cleaned = 1 \<and> \<not> list_all (\<lambda>c. c < 128) cleaned then Inr []
             else rbind (box_of box) (\<lambda>(x1, y1, x2, y2).
               Inr [\<lparr>l_text = cleaned, l_score = sc, l_x1 = x1, l_y1 = y1, l_x2 = x2, l_y2 = y2,
                     l_page = page\<rparr>])))"

definition page_of :: "interp \<Rightarrow> int \<Rightarrow> pyv \<Rightarrow> line list res" where
  "page_of I page v =
     rbind (py_get v (U ''prunedResult'') PNone) (\<lambda>pruned.
     rbind (py_get (py_or pruned (PDict [])) (U ''overall_ocr_res'') PNone) (\<lambda>res.
       let ocr = py_or res (PDict [])
       in rbind (py_get ocr (U ''rec_texts'') PNone) (\<lambda>texts.
          rbind (py_get ocr (U ''rec_scores'') PNone) (\<lambda>scores.
          rbind (py_get ocr (U ''rec_boxes'') PNone) (\<lambda>boxes.
          rbind (py_iter (py_or texts (PList []))) (\<lambda>ts.
          rbind (py_iter (py_or scores (PList []))) (\<lambda>ss.
          rbind (py_iter (py_or boxes (PList []))) (\<lambda>bs.
          rbind (rmap (line_of I page) (zip ts (zip ss bs))) (\<lambda>lss. Inr (concat lss))))))))))"

fun pages_of :: "interp \<Rightarrow> int \<Rightarrow> pyv list \<Rightarrow> line list res" where
  "pages_of I n [] = Inr []"
| "pages_of I n (v # vs) =
     rbind (page_of I n v) (\<lambda>ls. rbind (pages_of I (n + 1) vs) (\<lambda>rest. Inr (ls @ rest)))"

definition normalize_layout_parsing :: "interp \<Rightarrow> pyv \<Rightarrow> line list res" where
  "normalize_layout_parsing I body =
     rbind (py_get body (U ''result'') (PDict [])) (\<lambda>result.
     rbind (py_get result (U ''layoutParsingResults'') (PList [])) (\<lambda>pages.
     rbind (py_iter pages) (pages_of I 1)))"

subsection \<open>The provider\<close>

definition as_provider_error :: "exn \<Rightarrow> exn" where
  "as_provider_error e =
     (case e of
        ProviderTransientError m \<Rightarrow> ProviderTransientError m
      | HTTPError m \<Rightarrow> ProviderTransientError m
      | TimeoutError m \<Rightarrow> ProviderTransientError m
      | _ \<Rightarrow> e)"

definition extract_lines :: "interp \<Rightarrow> settings \<Rightarrow> client \<Rightarrow> bytes \<Rightarrow> pystr \<Rightarrow> line list res option" where
  "extract_lines I s C content mime =
     map_option (\<lambda>r. case r of Inl e \<Rightarrow> Inl (as_provider_error e) | Inr raw \<Rightarrow> normalize_layout_parsing I raw)
       (if baidu_mode s = ASYNC then extract_async I s C content mime
        else Some (extract_sync I s C content mime))"

text \<open>\<open>build_provider\<close>: \<open>Inr\<close> the recognition function of the provider.\<close>

definition build_provider ::
  "interp \<Rightarrow> settings \<Rightarrow> client \<Rightarrow> (bytes \<Rightarrow> pystr \<Rightarrow> line list res option) res" where
  "build_provider I s C =
     (case provider s of
        BAIDU_AISTUDIO \<Rightarrow> Inr (extract_lines I s C)
      | PADDLEOCR_LOCAL \<Rightarrow>
          Inl (NotImplementedError (U ''paddleocr_local is not implemented yet - the model path lands once the VPS can host the weights; use OCR_PROVIDER=baidu_aistudio'')))"

subsection \<open>The lines of an answer\<close>

text \<open>A line the normaliser lets through.\<close>

definition clean_line :: "line \<Rightarrow> bool" where
  "clean_line l \<longleftrightarrow>
     l_text l \<noteq> [] \<and> py_strip (l_text l) = l_text l \<and> 0 < l_score l
     \<and> (length (l_text l) \<noteq> 1 \<or> hd (l_text l) < 128)"

lemma line_of_clean:
  assumes "line_of I p t = Inr ls" and "l \<in> set ls"
  shows "clean_line l \<and> l_page l = p"
proof -
  obtain raw score box where t: "t = (raw, score, box)" by (cases t) auto
  let ?c = "py_strip (py_str I raw)"
  have len1: "length ?c = 1 \<Longrightarrow> list_all (\<lambda>c. c < 128) ?c \<Longrightarrow> hd ?c < 128"
    by (cases ?c) auto
  show ?thesis
    using assms len1 unfolding t line_of_def
    by (auto simp: clean_line_def Let_def elim!: rbind_InrE split: if_splits)
qed

lemma page_of_clean:
  assumes "page_of I p v = Inr ls" and "l \<in> set ls"
  shows "clean_line l \<and> l_page l = p"
proof -
  obtain ts lss where m: "rmap (line_of I p) ts = Inr lss" and ls: "ls = concat lss"
    using assms(1) unfolding page_of_def Let_def by (auto elim!: rbind_InrE)
  then obtain xs where xs: "xs \<in> set lss" "l \<in> set xs" using assms(2) by auto
  have "\<forall>y \<in> set xs. clean_line y \<and> l_page y = p"
    using rmap_Inr_all [OF m _ xs(1), of "\<lambda>ys. \<forall>y \<in> set ys. clean_line y \<and> l_page y = p"]
      line_of_clean [of I p] by blast
  with xs(2) show ?thesis by blast
qed

lemma pages_of_clean:
  "pages_of I n vs = Inr ls \<Longrightarrow>
     (\<forall>l \<in> set ls. clean_line l \<and> n \<le> l_page l \<and> l_page l < n + int (length vs)) \<and> sorted (map l_page ls)"
proof (induction vs arbitrary: n ls)
  case Nil
  then show ?case by simp
next
  case (Cons v vs)
  then obtain xs ys where x: "page_of I n v = Inr xs" and y: "pages_of I (n + 1) vs = Inr ys"
      and ls: "ls = xs @ ys"
    by (auto elim!: rbind_InrE)
  have xp: "clean_line l \<and> l_page l = n" if "l \<in> set xs" for l using page_of_clean [OF x that] .
  then have "sorted (map l_page xs)" by (simp add: sorted_wrt_iff_nth_less)
  then show ?case using Cons.IH [OF y] xp ls by (fastforce simp: sorted_append)
qed

lemma normalize_clean:
  assumes "normalize_layout_parsing I body = Inr ls"
  shows "list_all (\<lambda>l. clean_line l \<and> 1 \<le> l_page l) ls \<and> sorted (map l_page ls)"
proof -
  obtain vs where "pages_of I 1 vs = Inr ls"
    using assms unfolding normalize_layout_parsing_def by (auto elim!: rbind_InrE)
  from pages_of_clean [OF this] show ?thesis by (auto simp: list_all_iff)
qed

definition baidu_gives :: "interp \<times> pyv \<Rightarrow> line list \<Rightarrow> bool" where
  "baidu_gives c ls \<longleftrightarrow> normalize_layout_parsing (fst c) (snd c) = Inr ls"

interpretation baidu: line_source baidu_gives
  by unfold_locales
    (auto simp: baidu_gives_def list_all_iff clean_line_def dest!: normalize_clean)

subsection \<open>Baidu's wire shape\<close>

definition encode_line :: "line \<Rightarrow> pyv \<times> pyv \<times> pyv" where
  "encode_line l =
     (PStr (l_text l), PFloat (l_score l), PList [PInt (l_x1 l), PInt (l_y1 l), PInt (l_x2 l), PInt (l_y2 l)])"

definition encode_page :: "line list \<Rightarrow> pyv" where
  "encode_page ls =
     PDict [(U ''prunedResult'', PDict [(U ''overall_ocr_res'', PDict
       [(U ''rec_texts'', PList (map (\<lambda>l. fst (encode_line l)) ls)),
        (U ''rec_scores'', PList (map (\<lambda>l. fst (snd (encode_line l))) ls)),
        (U ''rec_boxes'', PList (map (\<lambda>l. snd (snd (encode_line l))) ls))])])]"

definition encode_pages :: "line list list \<Rightarrow> pyv" where
  "encode_pages pages =
     PDict [(U ''errorCode'', PInt 0),
            (U ''result'', PDict [(U ''layoutParsingResults'', PList (map encode_page pages))])]"

lemma line_of_encode:
  assumes "clean_line l" and "l_page l = p"
  shows "line_of I p (encode_line l) = Inr [l]"
proof -
  have b: "box_of (PList [PInt x1, PInt y1, PInt x2, PInt y2]) = Inr (x1, y1, x2, y2)" for x1 y1 x2 y2
    by (simp add: box_of_def)
  have a: "length (l_text l) = 1 \<Longrightarrow> list_all (\<lambda>c. c < 128) (l_text l)"
    using assms(1) by (cases "l_text l") (auto simp: clean_line_def)
  show ?thesis
    using assms a
    by (cases l) (auto simp: line_of_def encode_line_def clean_line_def py_str_def b Let_def)
qed

lemma rmap_line_of_encode:
  "\<forall>l \<in> set ls. clean_line l \<and> l_page l = p \<Longrightarrow>
     rmap (line_of I p) (map encode_line ls) = Inr (map (\<lambda>l. [l]) ls)"
  by (induction ls) (auto simp: line_of_encode)

lemma page_of_encode:
  assumes "\<forall>l \<in> set ls. clean_line l \<and> l_page l = p"
  shows "page_of I p (encode_page ls) = Inr ls"
proof -
  have z: "zip (map (\<lambda>l. fst (encode_line l)) ls)
      (zip (map (\<lambda>l. fst (snd (encode_line l))) ls) (map (\<lambda>l. snd (snd (encode_line l))) ls)) = map encode_line ls"
    by (induction ls) auto
  have o: "py_iter (py_or (PList xs) (PList [])) = Inr xs" for xs by (simp add: py_or_def)
  have c: "concat (map (\<lambda>l. [l]) ls) = ls" by (induction ls) auto
  show ?thesis
    by (simp add: page_of_def encode_page_def py_or_def [of "PDict _"] o z rmap_line_of_encode [OF assms] c)
qed

lemma pages_of_encode:
  "(\<And>i l. i < length pages \<Longrightarrow> l \<in> set (pages ! i) \<Longrightarrow> clean_line l \<and> l_page l = n + int i) \<Longrightarrow>
     pages_of I n (map encode_page pages) = Inr (concat pages)"
proof (induction pages arbitrary: n)
  case Nil
  then show ?case by simp
next
  case (Cons ls pages)
  have "page_of I n (encode_page ls) = Inr ls"
    using Cons.prems [of 0] by (intro page_of_encode) simp
  moreover have "pages_of I (n + 1) (map encode_page pages) = Inr (concat pages)"
  proof (rule Cons.IH)
    fix i l
    assume "i < length pages" "l \<in> set (pages ! i)"
    then show "clean_line l \<and> l_page l = n + 1 + int i" using Cons.prems [of "Suc i" l] by simp
  qed
  ultimately show ?case by simp
qed

definition demo_line :: line where
  "demo_line = \<lparr>l_text = U ''Total 27'', l_score = 3 / 4, l_x1 = 10, l_y1 = 20, l_x2 = 90, l_y2 = 40, l_page = 1\<rparr>"

lemma demo_line_clean: "clean_line demo_line"
  by (simp add: clean_line_def demo_line_def U_def py_strip_def is_space_def)

text \<open>
  Whatever JSON the provider answers with, the lines that come out have a stripped
  non-empty text (never a single non-ASCII glyph), a positive score and a page number of at least
  1, and they come in the order of the pages.
\<close>

lemma normalize_lines_clean:
  assumes "normalize_layout_parsing I body = Inr ls"
  shows "list_all (\<lambda>l. clean_line l \<and> 1 \<le> l_page l) ls \<and> sorted (map l_page ls)"
  using assms by (rule normalize_clean)

lemma normalize_lines_clean_example:
  "\<exists>ls. normalize_layout_parsing id_interp (encode_pages [[], [demo_line]]) = Inr ls \<and> sorted (map l_page ls)"
proof -
  have "normalize_layout_parsing id_interp (encode_pages [[], [demo_line]]) = Inr [demo_line\<lparr>l_page := 2\<rparr>]"
    by code_simp
  from normalize_lines_clean [OF this] this show ?thesis by blast
qed

text \<open>
  Property C27: normalising Baidu's documented shape loses nothing: lines that are clean and carry
  their page number, written out as the arrays of their pages, are read back unchanged and in order.
\<close>

theorem normalize_encode_roundtrip:
  assumes "\<And>i l. i < length pages \<Longrightarrow> l \<in> set (pages ! i) \<Longrightarrow> clean_line l \<and> l_page l = 1 + int i"
  shows "normalize_layout_parsing I (encode_pages pages) = Inr (concat pages)"
  using pages_of_encode [of pages 1 I] assms by (simp add: normalize_layout_parsing_def encode_pages_def)

theorem normalize_encode_roundtrip_witness:
  "normalize_layout_parsing id_interp (encode_pages [[demo_line], []]) = Inr [demo_line]"
proof -
  have "normalize_layout_parsing id_interp (encode_pages [[demo_line], []]) = Inr (concat [[demo_line], []])"
  proof (rule normalize_encode_roundtrip)
    fix i l
    assume "i < length [[demo_line], []]" "l \<in> set ([[demo_line], []] ! i)"
    then have "i = 0 \<and> l = demo_line" by (cases i) (auto simp: less_Suc_eq)
    then show "clean_line l \<and> l_page l = 1 + int i" using demo_line_clean by (simp add: demo_line_def)
  qed
  then show ?thesis by simp
qed

subsection \<open>The poll loop ends\<close>

lemma poll_from_first:
  assumes "poll_turn I C rq dl job (k + n) = Some r" and "\<forall>j. k \<le> j \<and> j < k + n \<longrightarrow> poll_turn I C rq dl job j = None"
  shows "poll_from I C rq dl job k = Some r"
  using assms
proof (induction n arbitrary: k)
  case 0
  then show ?case by (subst poll_from.simps) simp
next
  case (Suc n)
  have "poll_from I C rq dl job (Suc k) = Some r"
    using Suc.prems by (intro Suc.IH) auto
  moreover have "poll_turn I C rq dl job k = None" using Suc.prems(2) by simp
  ultimately show ?case by (subst poll_from.simps) simp
qed

lemma clock_advances:
  assumes "c_start C \<le> c_time C 0" and "\<And>k. c_time C k + d \<le> c_time C (Suc k)"
  shows "c_start C + of_nat k * d \<le> c_time C k"
proof (induction k)
  case 0
  then show ?case using assms(1) by simp
next
  case (Suc k)
  have "c_start C + of_nat (Suc k) * d = c_start C + of_nat k * d + d" by (simp add: algebra_simps)
  also have "\<dots> \<le> c_time C k + d" using Suc by simp
  also have "\<dots> \<le> c_time C (Suc k)" by (rule assms(2))
  finally show ?case .
qed

lemma poll_turn_None: "poll_turn I C rq dl job k = None \<Longrightarrow> c_time C k \<le> dl"
  by (auto simp: poll_turn_def split: sum.splits if_splits)

lemma poll_job_first:
  assumes "0 < baidu_poll_interval s" and "c_start C \<le> c_time C 0"
    and "\<And>k. c_time C k + baidu_poll_interval s \<le> c_time C (Suc k)" and "poll_request s job = Inr rq"
  shows "\<exists>k r. poll_job I s C job = Some r
      \<and> poll_turn I C rq (fl_add (c_start C) (baidu_poll_timeout s)) job k = Some r
      \<and> (\<forall>j < k. poll_turn I C rq (fl_add (c_start C) (baidu_poll_timeout s)) job j = None)
      \<and> (k = 0 \<or> c_start C + of_nat (k - 1) * baidu_poll_interval s \<le> fl_add (c_start C) (baidu_poll_timeout s))"
proof -
  let ?d = "baidu_poll_interval s" and ?dl = "fl_add (c_start C) (baidu_poll_timeout s)"
  let ?stop = "\<lambda>k. poll_turn I C rq ?dl job k \<noteq> None"
  have clock: "c_start C + of_nat k * ?d \<le> c_time C k" for k
    using clock_advances [OF assms(2,3)] .
  obtain n :: nat where n: "(?dl - c_start C) / ?d < of_nat n" using reals_Archimedean2 by blast
  then have "?dl < c_start C + of_nat n * ?d"
    using assms(1) by (simp add: pos_divide_less_eq algebra_simps)
  then have late: "\<not> c_time C n \<le> ?dl" using clock [of n] by linarith
  have "?stop n"
  proof
    assume "poll_turn I C rq ?dl job n = None"
    then have "c_time C n \<le> ?dl" by (rule poll_turn_None)
    with late show False ..
  qed
  define K where "K = (LEAST k. ?stop k)"
  have "?stop K" unfolding K_def using \<open>?stop n\<close> by (rule LeastI)
  then obtain r where r: "poll_turn I C rq ?dl job K = Some r" by (meson not_None_eq)
  have before: "poll_turn I C rq ?dl job j = None" if "j < K" for j
    using not_less_Least [of j ?stop] that unfolding K_def by (meson not_None_eq)
  have job: "poll_job I s C job = Some r"
    using poll_from_first [of I C rq ?dl job 0 K r] r before assms(4) by (simp add: poll_job_def)
  have "c_start C + of_nat (K - 1) * ?d \<le> ?dl" if "K \<noteq> 0"
  proof -
    have "poll_turn I C rq ?dl job (K - 1) = None" using that by (intro before) simp
    then have "c_time C (K - 1) \<le> ?dl" by (rule poll_turn_None)
    then show ?thesis using clock [of "K - 1"] by linarith
  qed
  then have "K = 0 \<or> c_start C + of_nat (K - 1) * ?d \<le> ?dl" by blast
  with job r before show ?thesis by blast
qed

text \<open>
  Property C25: when the token is configured and the clock of the event loop advances by at least the
  poll interval with every sleep, waiting for a job always ends, with the first decisive answer or the timeout, after at
  most one poll more than the deadline has room for.
\<close>

theorem poll_job_terminates:
  assumes "0 < baidu_poll_interval s" and "c_start C \<le> c_time C 0"
    and "\<And>k. c_time C k + baidu_poll_interval s \<le> c_time C (Suc k)" and "poll_request s job = Inr rq"
  shows "\<exists>k r. poll_job I s C job = Some r
      \<and> poll_turn I C rq (fl_add (c_start C) (baidu_poll_timeout s)) job k = Some r
      \<and> list_all (\<lambda>j. poll_turn I C rq (fl_add (c_start C) (baidu_poll_timeout s)) job j = None) [0..<k]
      \<and> of_nat k * baidu_poll_interval s
          \<le> max 0 (fl_add (c_start C) (baidu_poll_timeout s) - c_start C) + baidu_poll_interval s"
proof -
  let ?dl = "fl_add (c_start C) (baidu_poll_timeout s)" and ?d = "baidu_poll_interval s"
  obtain k r where k: "poll_job I s C job = Some r" "poll_turn I C rq ?dl job k = Some r"
      "\<forall>j < k. poll_turn I C rq ?dl job j = None" "k = 0 \<or> c_start C + of_nat (k - 1) * ?d \<le> ?dl"
    using poll_job_first [OF assms] by blast
  have "of_nat k * ?d \<le> max 0 (?dl - c_start C) + ?d"
  proof (cases k)
    case 0
    then show ?thesis using assms(1) by simp
  next
    case (Suc j)
    then have "of_nat j * ?d \<le> ?dl - c_start C" using k(4) by simp
    then show ?thesis using Suc by (simp add: algebra_simps max_def)
  qed
  with k show ?thesis by (auto simp: list_all_iff)
qed

definition demo_client :: client where
  "demo_client = \<lparr>c_post_sync = (\<lambda>_. Inr \<lparr>r_status = 200, r_text = [], r_json = Inr (encode_pages [[demo_line]])\<rparr>),
     c_post_job = (\<lambda>_. Inr \<lparr>r_status = 200, r_text = [],
        r_json = Inr (PDict [(U ''code'', PInt 0), (U ''data'', PDict [(U ''jobId'', PStr (U ''j1''))])])\<rparr>),
     c_poll = (\<lambda>_ _. Inr \<lparr>r_status = 200, r_text = [],
        r_json = Inr (PDict [(U ''data'', PDict [(U ''state'', PStr (U ''running''))])])\<rparr>),
     c_start = 0, c_time = (\<lambda>k. of_nat k * 5),
     c_get = (\<lambda>_. Inl (HTTPError (U ''down''))), c_loads = (\<lambda>_. Inl (ValueError (U ''Expecting value'')))\<rparr>"

theorem poll_job_terminates_witness:
  "\<exists>r. poll_job id_interp demo_settings demo_client (U ''j1'') = Some r"
proof -
  obtain rq where "poll_request demo_settings (U ''j1'') = Inr rq"
    by (simp add: poll_request_def bearer_def secret_def demo_settings_def)
  from poll_job_terminates [OF _ _ _ this, of demo_client id_interp] show ?thesis
    by (auto simp: demo_client_def demo_settings_def algebra_simps)
qed

subsection \<open>Classification of failures\<close>

text \<open>The exceptions of decoding an answer that has not the expected shape.\<close>

definition shape_error :: "exn \<Rightarrow> bool" where
  "shape_error e \<longleftrightarrow>
     (case e of ValueError _ \<Rightarrow> True | TypeError _ \<Rightarrow> True | AttributeError _ \<Rightarrow> True
      | KeyError _ \<Rightarrow> True | IndexError \<Rightarrow> True | _ \<Rightarrow> False)"

lemma shape_errors:
  "py_get v k d = Inl e \<Longrightarrow> shape_error e"
  "py_iter v = Inl e \<Longrightarrow> shape_error e"
  "json_int v = Inl e \<Longrightarrow> shape_error e"
  "json_score v = Inl e \<Longrightarrow> shape_error e"
  by (cases v; auto simp: shape_error_def no_attr_def split: option.splits)+

lemma line_of_shape: "line_of I p t = Inl e \<Longrightarrow> shape_error e"
  by (auto simp: line_of_def box_of_def Let_def rbind_eq_Inl shape_errors
      split: prod.splits if_splits dest!: rmap_Inl)

lemma page_of_shape: "page_of I p v = Inl e \<Longrightarrow> shape_error e"
  unfolding page_of_def Let_def
  by (auto simp: rbind_eq_Inl dest!: rmap_Inl intro: shape_errors line_of_shape)

lemma normalize_shape: "normalize_layout_parsing I body = Inl e \<Longrightarrow> shape_error e"
proof -
  have "pages_of I n vs = Inl e \<Longrightarrow> shape_error e" for n vs
    by (induction vs arbitrary: n) (auto simp: rbind_eq_Inl intro: page_of_shape)
  moreover assume "normalize_layout_parsing I body = Inl e"
  ultimately show ?thesis
    unfolding normalize_layout_parsing_def by (auto simp: rbind_eq_Inl intro: shape_errors)
qed

lemma as_provider_error_no_http: "as_provider_error e \<noteq> HTTPError m \<and> as_provider_error e \<noteq> TimeoutError m"
  by (simp add: as_provider_error_def split: exn.splits)

lemma extract_lines_Inl:
  assumes "extract_lines I s C content mime = Some (Inl e)"
  shows "(\<exists>e'. e = as_provider_error e') \<or> shape_error e"
proof -
  obtain z where "(case z of Inl e \<Rightarrow> Inl (as_provider_error e) | Inr raw \<Rightarrow> normalize_layout_parsing I raw) = Inl e"
    using assms unfolding extract_lines_def by blast
  then show ?thesis using normalize_shape by (cases z) auto
qed

text \<open>
  No transport error leaves the provider as such: whatever the mode, the exception
  that escapes is never one of the HTTP client's, and a synchronous request that fails in transit
  is transient, so that the job is retried.
\<close>

lemma transport_errors_wrapped:
  "(\<not> (\<exists>m. extract_lines I s C content mime \<in> {Some (Inl (HTTPError m)), Some (Inl (TimeoutError m))}))
   \<and> (if baidu_mode s = SYNC
      then (case rbind (sync_request s content mime) (c_post_sync C) of
              Inl (HTTPError m) \<Rightarrow> extract_lines I s C content mime = Some (Inl (ProviderTransientError m))
            | Inl (TimeoutError m) \<Rightarrow> extract_lines I s C content mime = Some (Inl (ProviderTransientError m))
            | _ \<Rightarrow> True)
      else True)"
proof
  show "\<not> (\<exists>m. extract_lines I s C content mime \<in> {Some (Inl (HTTPError m)), Some (Inl (TimeoutError m))})"
    using extract_lines_Inl [of I s C content mime] as_provider_error_no_http
    by (auto simp: shape_error_def) metis+
  show "if baidu_mode s = SYNC
      then (case rbind (sync_request s content mime) (c_post_sync C) of
              Inl (HTTPError m) \<Rightarrow> extract_lines I s C content mime = Some (Inl (ProviderTransientError m))
            | Inl (TimeoutError m) \<Rightarrow> extract_lines I s C content mime = Some (Inl (ProviderTransientError m))
            | _ \<Rightarrow> True)
      else True"
    by (auto simp: extract_lines_def extract_sync_def as_provider_error_def split: sum.splits exn.splits)
qed

text \<open>
  The synchronous answers are told apart by their status alone: 429, 503 and 504 are
  transient, every other status but 200 is permanent. So 500 and 502 are permanent, although the
  transient error is documented as the one for 5xx.
\<close>

lemma sync_status_classes:
  assumes "baidu_mode s = SYNC"
    and "rbind (sync_request s content mime) (c_post_sync C) = Inr r" and "r_status r \<noteq> 200"
  shows "if r_status r \<in> {429, 503, 504}
         then \<exists>m. extract_lines I s C content mime = Some (Inl (ProviderTransientError m))
         else \<exists>m. extract_lines I s C content mime = Some (Inl (ProviderPermanentError m))"
  using assms
  by (auto simp: extract_lines_def extract_sync_def baidu_retryable_http_def as_provider_error_def)

lemma sync_status_classes_example:
  "\<exists>m. extract_lines id_interp demo_settings
     (demo_client\<lparr>c_post_sync := (\<lambda>_. Inr \<lparr>r_status = 500, r_text = U ''down'', r_json = Inl (ValueError [])\<rparr>)\<rparr>)
     [] (U ''image/png'') = Some (Inl (ProviderPermanentError m))"
proof -
  let ?r = "\<lparr>r_status = 500, r_text = U ''down'', r_json = Inl (ValueError [])\<rparr>"
  obtain rq where "sync_request demo_settings [] (U ''image/png'') = Inr rq"
    by (simp add: sync_request_def sync_headers_def secret_def demo_settings_def)
  then have "rbind (sync_request demo_settings [] (U ''image/png'')) (c_post_sync (demo_client\<lparr>c_post_sync := \<lambda>_. Inr ?r\<rparr>)) = Inr ?r"
    by simp
  from sync_status_classes [OF _ this, of id_interp] show ?thesis by (simp add: demo_settings_def)
qed

end
