(* ===== verification/Ocr_Download.thy ===== *)
theory Ocr_Download
  imports Ocr_Inspect
begin

text \<open>
  The download from object storage (\<open>pipeline/download.py\<close>): the allowlist and path checks, the
  read loop with the size cap, and the life of the temporary file. The state keeps the
  temporary files that exist and the requests sent to the storage. The storage is a parameter:
  for a client made with its keyword arguments, \<open>get_object\<close> gives the results of the successive
  reads, or an exception, where
  \<open>LibraryError NoSuchKey\<close> is the storage's own; a read may raise or be cancelled.
\<close>

record io =
  io_files :: "(nat \<times> pystr \<times> bytes) list"
  io_next :: nat
  io_gets :: "(pystr \<times> pystr) list"

type_synonym storage = "(pystr \<times> pystr) list \<Rightarrow> pystr \<Rightarrow> pystr \<Rightarrow> bytes res list res"

definition no_such_key :: exn where
  "no_such_key = LibraryError (U ''NoSuchKey'')"

text \<open>\<open>Path(p).parts\<close> and \<open>Path(p).suffix\<close> on a POSIX path.\<close>

definition path_parts :: "pystr \<Rightarrow> pystr list" where
  "path_parts p =
     (if py_startswith p (U ''/'') then [U ''/''] else [])
     @ filter (\<lambda>w. w \<noteq> [] \<and> w \<noteq> U ''.'') (py_split 47 p)"

definition path_suffix :: "pystr \<Rightarrow> pystr" where
  "path_suffix p =
     (let names = filter (\<lambda>w. w \<noteq> [] \<and> w \<noteq> U ''.'') (py_split 47 p);
          name = (if names = [] then [] else last names);
          ext = rev (takeWhile (\<lambda>c. c \<noteq> 46) (rev name))
      in if 46 \<in> set name \<and> ext \<noteq> [] \<and> length ext + 1 < length name then 46 # ext else [])"

definition validate_ref :: "settings \<Rightarrow> pystr \<Rightarrow> pystr \<Rightarrow> unit res" where
  "validate_ref s bucket path =
     (if bucket \<notin> set (allowed_buckets s)
      then Inl (ValueError (U ''bucket '' @ py_repr bucket @ U '' is not in the allowlist''))
      else if path = [] \<or> U ''..'' \<in> set (path_parts path) \<or> py_startswith path (U ''/'')
      then Inl (ValueError (U ''invalid storage path '' @ py_repr path))
      else Inr ())"

text \<open>The loop \<open>while chunk := await stream.read(...)\<close>: what was written, and how it ended.\<close>

fun read_loop :: "settings \<Rightarrow> int \<Rightarrow> bytes \<Rightarrow> bytes res list \<Rightarrow> bytes \<times> unit res" where
  "read_loop s downloaded written [] = (written, Inr ())"
| "read_loop s downloaded written (Inl e # reads) = (written, Inl e)"
| "read_loop s downloaded written (Inr chunk # reads) =
     (if chunk = [] then (written, Inr ())
      else if downloaded + int (length chunk) > max_file_bytes s
      then (written, Inl (ValueError (U ''object exceeds OCR_MAX_FILE_BYTES (''
                                        @ int_str (max_file_bytes s) @ U '')'')))
      else read_loop s (downloaded + int (length chunk)) (written @ chunk) reads)"

definition unlink_quiet :: "nat \<Rightarrow> io \<Rightarrow> io" where
  "unlink_quiet f w = w\<lparr>io_files := filter (\<lambda>(g, _). g \<noteq> f) (io_files w)\<rparr>"

definition cleanup_temp :: "nat option \<Rightarrow> io \<Rightarrow> io" where
  "cleanup_temp path w = (case path of Some f \<Rightarrow> unlink_quiet f w | None \<Rightarrow> w)"

text \<open>
  The temporary file is created once the object is open; \<open>except Exception\<close> deletes it, and
  a cancellation is not an \<open>Exception\<close>.
\<close>

text \<open>\<open>_client_kwargs\<close>: the keyword arguments the client of the storage is made with.\<close>

definition client_kwargs :: "settings \<Rightarrow> (pystr \<times> pystr) list" where
  "client_kwargs s =
     [(U ''region_name'', storage_region s)]
   @ (if given (storage_endpoint_url s) then [(U ''endpoint_url'', the (storage_endpoint_url s))] else [])
   @ (if given (storage_access_key_id s) \<and> given (storage_secret_access_key s)
      then [(U ''aws_access_key_id'', the (storage_access_key_id s)),
            (U ''aws_secret_access_key'', the (storage_secret_access_key s))] else [])"

definition download_to_temp ::
  "storage \<Rightarrow> settings \<Rightarrow> pystr \<Rightarrow> pystr \<Rightarrow> pystr \<Rightarrow> io \<Rightarrow> io \<times> nat res" where
  "download_to_temp S s bucket path suffix w =
     (case validate_ref s bucket path of
        Inl e \<Rightarrow> (w, Inl e)
      | Inr _ \<Rightarrow>
          (let w1 = w\<lparr>io_gets := io_gets w @ [(bucket, path)]\<rparr>
           in case S (client_kwargs s) bucket path of
                Inl e \<Rightarrow>
                  (w1, Inl (if e = no_such_key then StorageObjectMissing (bucket @ U ''/'' @ path) else e))
              | Inr reads \<Rightarrow>
                  (let f = io_next w1;
                       sfx = (if suffix \<noteq> [] then suffix else path_suffix path)
                   in case read_loop s 0 [] reads of
                        (written, outcome) \<Rightarrow>
                          (let w2 = w1\<lparr>io_next := f + 1, io_files := (f, sfx, written) # io_files w1\<rparr>
                           in case outcome of
                                Inr _ \<Rightarrow> (w2, Inr f)
                              | Inl CancelledError \<Rightarrow> (w2, Inl CancelledError)
                              | Inl e \<Rightarrow> (unlink_quiet f w2, Inl e)))))"

definition read_file :: "nat \<Rightarrow> io \<Rightarrow> bytes res" where
  "read_file f w =
     (case map_of (io_files w) f of
        Some (_, content) \<Rightarrow> Inr content
      | None \<Rightarrow> Inl (LibraryError (U ''FileNotFoundError'')))"

subsection \<open>The state of the temporary files\<close>

text \<open>Names are fresh: every file that exists was created before \<open>io_next\<close>, once.\<close>

definition wf_io :: "io \<Rightarrow> bool" where
  "wf_io w \<longleftrightarrow> distinct (map fst (io_files w)) \<and> (\<forall>f \<in> fst ` set (io_files w). f < io_next w)"

text \<open>A reference the service may read.\<close>

definition safe_ref :: "settings \<Rightarrow> pystr \<Rightarrow> pystr \<Rightarrow> bool" where
  "safe_ref s bucket path \<longleftrightarrow>
     bucket \<in> set (allowed_buckets s) \<and> path \<noteq> [] \<and> hd path \<noteq> 47 \<and> U ''..'' \<notin> set (py_split 47 path)"

lemma validate_ref_safe: "validate_ref s bucket path = Inr () \<longleftrightarrow> safe_ref s bucket path"
proof -
  have slash: "py_startswith path (U ''/'') \<longleftrightarrow> path \<noteq> [] \<and> hd path = 47"
    by (cases path) (auto simp: py_startswith_def U_def)
  have "U ''..'' \<in> set (path_parts path) \<longleftrightarrow> U ''..'' \<in> set (py_split 47 path)"
    by (simp add: path_parts_def)
  then show ?thesis by (auto simp: validate_ref_def safe_ref_def slash)
qed

lemma unlink_new:
  "wf_io w \<Longrightarrow> filter (\<lambda>(g, _). g \<noteq> io_next w) (io_files w) = io_files w"
  by (rule filter_id_unchanged) (fastforce simp: wf_io_def)

lemma read_loop_spec:
  "read_loop s n acc reads = (written, outcome) \<Longrightarrow>
     \<exists>chunks rs. reads = map Inr chunks @ rs \<and> [] \<notin> set chunks \<and> written = acc @ concat chunks
       \<and> (case outcome of
            Inr _ \<Rightarrow> (rs = [] \<or> hd rs = Inr []) \<and> (chunks = [] \<or> n + int (length (concat chunks)) \<le> max_file_bytes s)
          | Inl e \<Rightarrow> rs \<noteq> [] \<and> (hd rs = Inl e \<or> (\<exists>c m. hd rs = Inr c \<and> e = ValueError m
                                      \<and> n + int (length (concat chunks) + length c) > max_file_bytes s)))"
proof (induction s n acc reads arbitrary: rule: read_loop.induct)
  case (1 s n acc)
  then show ?case by auto
next
  case (2 s n acc e reads)
  then show ?case by (intro exI [of _ "[]"] exI [of _ "Inl e # reads"]) auto
next
  case (3 s n acc chunk reads)
  show ?case
  proof (cases "chunk = [] \<or> n + int (length chunk) > max_file_bytes s")
    case True
    then show ?thesis using 3(2)
      by (intro exI [of _ "[]"] exI [of _ "Inr chunk # reads"]) (auto split: if_splits)
  next
    case False
    with 3 obtain chunks rs where r: "reads = map Inr chunks @ rs" "[] \<notin> set chunks"
        "written = (acc @ chunk) @ concat chunks"
      and o: "case outcome of
            Inr _ \<Rightarrow> (rs = [] \<or> hd rs = Inr [])
              \<and> (chunks = [] \<or> (n + int (length chunk)) + int (length (concat chunks)) \<le> max_file_bytes s)
          | Inl e \<Rightarrow> rs \<noteq> [] \<and> (hd rs = Inl e \<or> (\<exists>c m. hd rs = Inr c \<and> e = ValueError m
                 \<and> (n + int (length chunk)) + int (length (concat chunks) + length c) > max_file_bytes s))"
      by (simp, blast)
    show ?thesis using r o False
      by (intro exI [of _ "chunk # chunks"] exI [of _ rs]) (auto split: sum.splits)
  qed
qed

lemma download_Inr:
  assumes "download_to_temp S s bucket path suffix w = (w', Inr f)"
  shows "safe_ref s bucket path \<and> f = io_next w \<and> io_next w' = f + 1
    \<and> io_gets w' = io_gets w @ [(bucket, path)]
    \<and> (\<exists>reads sfx content. S (client_kwargs s) bucket path = Inr reads \<and> read_loop s 0 [] reads = (content, Inr ())
         \<and> io_files w' = (f, sfx, content) # io_files w)"
  using assms validate_ref_safe [of s bucket path]
  by (auto simp: download_to_temp_def Let_def split: sum.splits prod.splits exn.splits)

lemma download_Inl:
  assumes "download_to_temp S s bucket path suffix w = (w', Inl e)" and "wf_io w"
  shows "(\<not> safe_ref s bucket path \<and> w' = w \<and> (\<exists>m. e = ValueError m))
    \<or> (safe_ref s bucket path \<and> io_gets w' = io_gets w @ [(bucket, path)] \<and> io_next w \<le> io_next w'
         \<and> (io_files w' = io_files w
            \<or> (e = CancelledError
               \<and> (\<exists>sfx content. io_files w' = (io_next w, sfx, content) # io_files w \<and> io_next w' = io_next w + 1))))"
proof (cases "validate_ref s bucket path")
  case (Inl e')
  then have "\<not> safe_ref s bucket path" using validate_ref_safe [of s bucket path] by auto
  moreover have "\<exists>m. e' = ValueError m" using Inl by (auto simp: validate_ref_def split: if_splits)
  ultimately show ?thesis using assms(1) Inl by (simp add: download_to_temp_def)
next
  case (Inr u)
  then have "safe_ref s bucket path" using validate_ref_safe [of s bucket path] by simp
  then show ?thesis using assms(1) Inr unlink_new [OF assms(2)]
    by (auto simp: download_to_temp_def Let_def unlink_quiet_def split: sum.splits prod.splits exn.splits)
qed

lemma download_wf:
  assumes "download_to_temp S s bucket path suffix w = (w', r)" and "wf_io w"
  shows "wf_io w'"
proof (cases r)
  case (Inl e)
  with download_Inl [of S s bucket path suffix w w' e] assms show ?thesis
    by (fastforce simp: wf_io_def)
next
  case (Inr f)
  with download_Inr [of S s bucket path suffix w w' f] assms show ?thesis
    by (fastforce simp: wf_io_def)
qed

lemma unlink_wf [wf_intros]: "wf_io w \<Longrightarrow> wf_io (unlink_quiet f w)"
  by (auto simp: wf_io_def unlink_quiet_def distinct_map_filter)

lemma cleanup_wf [wf_intros]: "wf_io w \<Longrightarrow> wf_io (cleanup_temp p w)"
  by (auto simp: cleanup_temp_def intro: unlink_wf split: option.split)

text \<open>A storage with one object, for the applications.\<close>

definition demo_storage :: storage where
  "demo_storage = (\<lambda>_ bucket path.
     if path = U ''a/scan.pdf'' then Inr [Inr (B ''%PDF''), Inr (B ''-1.7''), Inr []]
     else if path = U ''slow'' then Inr [Inr (B ''%PDF''), Inl CancelledError]
     else if path = U ''broken'' then Inr [Inr (B ''%PDF''), Inl (LibraryError (U ''reset''))]
     else Inl no_such_key)"

definition io_init :: io where
  "io_init = \<lparr>io_files = [], io_next = 0, io_gets = []\<rparr>"

lemma io_init_wf: "wf_io io_init"
  by (simp add: wf_io_def io_init_def)

text \<open>
  Property C35: the service only ever asks the storage for an object of an allowed bucket under a
  relative path that never leaves it: anything else is a \<open>ValueError\<close> before any request, and
  leaves the state as it was.
\<close>

theorem download_only_safe:
  "case download_to_temp S s bucket path suffix w of
     (w', r) \<Rightarrow>
       if safe_ref s bucket path then io_gets w' = io_gets w @ [(bucket, path)]
       else w' = w \<and> (case r of Inl (ValueError _) \<Rightarrow> True | _ \<Rightarrow> False)"
proof (cases "validate_ref s bucket path")
  case (Inl e)
  moreover have "\<exists>m. e = ValueError m" using Inl by (auto simp: validate_ref_def split: if_splits)
  moreover have "\<not> safe_ref s bucket path" using Inl validate_ref_safe [of s bucket path] by auto
  ultimately show ?thesis by (auto simp: download_to_temp_def)
next
  case (Inr u)
  moreover have "safe_ref s bucket path" using Inr validate_ref_safe [of s bucket path] by simp
  ultimately show ?thesis
    by (auto simp: download_to_temp_def Let_def unlink_quiet_def split: sum.splits prod.splits exn.splits)
qed

text \<open>
  A download that succeeds leaves exactly one new file, holding the chunks read until
  the end of the stream in their order, and never more than \<open>OCR_MAX_FILE_BYTES\<close>.
\<close>

lemma download_bounded:
  assumes "download_to_temp S s bucket path suffix w = (w', Inr f)" and "0 < max_file_bytes s"
  shows "\<exists>sfx content chunks rs. io_files w' = (f, sfx, content) # io_files w
      \<and> S (client_kwargs s) bucket path = Inr (map Inr chunks @ rs) \<and> (rs = [] \<or> hd rs = Inr [])
      \<and> content = concat chunks \<and> int (length content) \<le> max_file_bytes s"
proof -
  obtain reads sfx content where r: "S (client_kwargs s) bucket path = Inr reads"
      "read_loop s 0 [] reads = (content, Inr ())" "io_files w' = (f, sfx, content) # io_files w"
    using download_Inr [OF assms(1)] by blast
  from read_loop_spec [OF r(2)] obtain chunks rs where c: "reads = map Inr chunks @ rs"
      "content = concat chunks" "rs = [] \<or> hd rs = Inr []"
      "chunks = [] \<or> int (length (concat chunks)) \<le> max_file_bytes s"
    by auto
  have "int (length content) \<le> max_file_bytes s" using c assms(2) by (auto simp del: length_concat)
  with r c show ?thesis by blast
qed

lemma download_bounded_example:
  "\<exists>w'. download_to_temp demo_storage demo_settings (U ''docs'') (U ''a/scan.pdf'') [] io_init = (w', Inr 0)
     \<and> (\<exists>sfx content. io_files w' = [(0, sfx, content)] \<and> int (length content) \<le> 26214400)"
proof -
  have d: "download_to_temp demo_storage demo_settings (U ''docs'') (U ''a/scan.pdf'') [] io_init =
      (\<lparr>io_files = [(0, U ''.pdf'', B ''%PDF-1.7'')], io_next = 1, io_gets = [(U ''docs'', U ''a/scan.pdf'')]\<rparr>, Inr 0)"
    by code_simp
  have "0 < max_file_bytes demo_settings" by (simp add: demo_settings_def)
  from download_bounded [OF d this] d show ?thesis by (fastforce simp: io_init_def demo_settings_def)
qed

text \<open>
  A download that fails with an exception leaves no temporary file behind.
\<close>

lemma download_failure_cleans:
  assumes "download_to_temp S s bucket path suffix w = (w', Inl e)" and "wf_io w" and "e \<noteq> CancelledError"
  shows "io_files w' = io_files w"
  using download_Inl [OF assms(1,2)] assms(3) by auto

lemma download_failure_cleans_example:
  "io_files (fst (download_to_temp demo_storage demo_settings (U ''docs'') (U ''broken'') [] io_init)) = []"
proof -
  have "download_to_temp demo_storage demo_settings (U ''docs'') (U ''broken'') [] io_init =
      (fst (download_to_temp demo_storage demo_settings (U ''docs'') (U ''broken'') [] io_init),
       Inl (LibraryError (U ''reset'')))"
    by code_simp
  from download_failure_cleans [OF this io_init_wf] show ?thesis by (simp add: io_init_def)
qed

text \<open>
  A cancellation during the stream leaves its partial file: the handler catches \<open>Exception\<close> only.
\<close>

lemma download_cancel_leaks:
  "download_to_temp demo_storage demo_settings (U ''docs'') (U ''slow'') [] io_init =
     (\<lparr>io_files = [(0, [], B ''%PDF'')], io_next = 1, io_gets = [(U ''docs'', U ''slow'')]\<rparr>, Inl CancelledError)"
  by code_simp

end
