(* ===== verification/Ocr_Store.thy ===== *)
theory Ocr_Store
  imports Ocr_Settings "HOL-Library.Product_Lexorder"
begin

text \<open>
  The repository (\<open>repo/store.py\<close>) over the two tables of the migrations 0002 and 0003. A table
  is the list of its rows in insertion order; every operation is one statement or one
  transaction on it, with the time \<open>now()\<close> and the identifiers the database generates as
  arguments. The driver and the server are parameters where they decide: which text is a UUID,
  which text and JSON the columns accept, and what object a UUID column is decoded to.
\<close>

subsection \<open>Tables\<close>

definition find_row :: "('r \<Rightarrow> 'k) \<Rightarrow> 'k \<Rightarrow> 'r list \<Rightarrow> 'r option" where
  "find_row key k rows = first_some (\<lambda>r. if key r = k then Some r else None) rows"

definition update_rows :: "('r \<Rightarrow> bool) \<Rightarrow> ('r \<Rightarrow> 'r) \<Rightarrow> 'r list \<Rightarrow> 'r list" where
  "update_rows P f rows = map (\<lambda>r. if P r then f r else r) rows"

record drow =
  d_id :: uuid
  d_key :: uuid
  d_external_ref :: pystr
  d_doc_type :: pystr
  d_status :: pystr
  d_caller_id :: pystr
  d_source_bucket :: pystr
  d_source_path :: pystr
  d_declared_mime :: pystr
  d_size_bytes :: int
  d_result :: "pyv option"
  d_avg_confidence :: "rat option"
  d_error_code :: "pystr option"
  d_error_message :: "pystr option"
  d_trace_id :: "pystr option"
  d_processed_at :: "int option"
  d_created_at :: int
  d_updated_at :: int

record orow =
  o_id :: uuid
  o_aggregate_id :: uuid
  o_event_type :: pystr
  o_event_version :: int
  o_topic :: pystr
  o_payload :: pyv
  o_created_at :: int
  o_published_at :: "int option"
  o_trace_id :: "pystr option"
  o_attempt_count :: int
  o_next_attempt_at :: "int option"
  o_locked_at :: "int option"
  o_locked_by :: "pystr option"
  o_last_error :: "pystr option"

record db =
  documents :: "drow list"
  outbox :: "orow list"

text \<open>
  \<open>pg_uuid\<close> is the driver's reading of a text as a UUID argument, \<open>pg_text\<close> and \<open>pg_json\<close> are
  the texts and JSON values the server stores, \<open>pg_uuid_out\<close> is the object a UUID column is
  decoded to. asyncpg decodes it to a UUID object (\<open>PUuid\<close>).
\<close>

record pg =
  pg_uuid :: "pystr \<Rightarrow> uuid option"
  pg_text :: "pystr \<Rightarrow> bool"
  pg_json :: "pyv \<Rightarrow> bool"
  pg_uuid_out :: "uuid \<Rightarrow> pyv"

subsection \<open>Documents\<close>

record document_row =
  dw_id :: uuid
  dw_idempotency_key :: pyv
  dw_external_ref :: pystr
  dw_doc_type :: pystr
  dw_status :: pystr
  dw_caller_id :: pystr
  dw_source_bucket :: pystr
  dw_source_path :: pystr
  dw_declared_mime :: pystr
  dw_size_bytes :: int
  dw_result :: "pyv option"
  dw_avg_confidence :: "rat option"
  dw_error_code :: "pystr option"
  dw_error_message :: "pystr option"
  dw_trace_id :: "pystr option"
  dw_created_at :: int

definition row_to_document :: "pg \<Rightarrow> drow \<Rightarrow> document_row" where
  "row_to_document P r =
     \<lparr>dw_id = d_id r, dw_idempotency_key = pg_uuid_out P (d_key r), dw_external_ref = d_external_ref r,
      dw_doc_type = d_doc_type r, dw_status = d_status r, dw_caller_id = d_caller_id r,
      dw_source_bucket = d_source_bucket r, dw_source_path = d_source_path r,
      dw_declared_mime = d_declared_mime r, dw_size_bytes = d_size_bytes r,
      dw_result = d_result r, dw_avg_confidence = d_avg_confidence r,
      dw_error_code = d_error_code r, dw_error_message = d_error_message r,
      dw_trace_id = d_trace_id r, dw_created_at = d_created_at r\<rparr>"

definition data_error :: exn where
  "data_error = LibraryError (U ''DataError'')"

text \<open>What the columns of a new document accept (migration 0002).\<close>

definition insertable :: "pg \<Rightarrow> drow \<Rightarrow> bool" where
  "insertable P r \<longleftrightarrow>
     list_all (pg_text P) [d_external_ref r, d_doc_type r, d_caller_id r, d_source_bucket r,
                           d_source_path r, d_declared_mime r]
     \<and> (case d_trace_id r of Some t \<Rightarrow> pg_text P t | None \<Rightarrow> True)
     \<and> length (d_doc_type r) \<le> 50 \<and> length (d_declared_mime r) \<le> 100
     \<and> - (2 ^ 63) \<le> d_size_bytes r \<and> d_size_bytes r < 2 ^ 63"

record submission =
  s_document_id :: uuid
  s_idempotency_key :: pystr
  s_external_ref :: pystr
  s_schema_id :: pystr
  s_caller_id :: pystr
  s_source_bucket :: pystr
  s_source_path :: pystr
  s_declared_mime :: pystr
  s_size_bytes :: int
  s_trace_id :: "pystr option"

definition queued_row :: "int \<Rightarrow> uuid \<Rightarrow> submission \<Rightarrow> drow" where
  "queued_row now key q =
     \<lparr>d_id = s_document_id q, d_key = key, d_external_ref = s_external_ref q,
      d_doc_type = s_schema_id q, d_status = U ''queued'', d_caller_id = s_caller_id q,
      d_source_bucket = s_source_bucket q, d_source_path = s_source_path q,
      d_declared_mime = s_declared_mime q, d_size_bytes = s_size_bytes q,
      d_result = None, d_avg_confidence = None, d_error_code = None, d_error_message = None,
      d_trace_id = s_trace_id q, d_processed_at = None, d_created_at = now, d_updated_at = now\<rparr>"

definition submit_document :: "pg \<Rightarrow> int \<Rightarrow> submission \<Rightarrow> db \<Rightarrow> db \<times> bool res" where
  "submit_document P now q w =
     (case pg_uuid P (s_idempotency_key q) of
        None \<Rightarrow> (w, Inl data_error)
      | Some key \<Rightarrow>
          (let row = queued_row now key q
           in if \<not> insertable P row then (w, Inl data_error)
              else if list_ex (\<lambda>r. d_id r = d_id row \<or> d_key r = key) (documents w)
              then (w, Inr False)
              else (w\<lparr>documents := documents w @ [row]\<rparr>, Inr True)))"

definition get_idempotent_document :: "pg \<Rightarrow> pystr \<Rightarrow> db \<Rightarrow> document_row option res" where
  "get_idempotent_document P key w =
     (case pg_uuid P key of
        None \<Rightarrow> Inl data_error
      | Some k \<Rightarrow> Inr (map_option (row_to_document P) (find_row d_key k (documents w))))"

definition get_document :: "pg \<Rightarrow> uuid \<Rightarrow> db \<Rightarrow> document_row option" where
  "get_document P i w = map_option (row_to_document P) (find_row d_id i (documents w))"

definition mark_processing :: "int \<Rightarrow> uuid \<Rightarrow> db \<Rightarrow> db" where
  "mark_processing now i w =
     w\<lparr>documents := update_rows (\<lambda>r. d_id r = i \<and> d_status r = U ''queued'')
        (\<lambda>r. r\<lparr>d_status := U ''processing'', d_updated_at := now\<rparr>) (documents w)\<rparr>"

definition statuses :: "pystr list" where
  "statuses = [U ''queued'', U ''processing'', U ''completed'', U ''needs_review'', U ''failed'']"

record outcome =
  f_status :: pystr
  f_result :: "pyv option"
  f_avg_confidence :: "rat option"
  f_error_code :: "pystr option"
  f_error_message :: "pystr option"

text \<open>What the UPDATE and the INSERT of the transaction accept.\<close>

definition finishable :: "pg \<Rightarrow> outcome \<Rightarrow> bool" where
  "finishable P f \<longleftrightarrow>
     f_status f \<in> set statuses
     \<and> (case f_result f of Some v \<Rightarrow> pg_json P v | None \<Rightarrow> True)
     \<and> (case f_error_code f of Some c \<Rightarrow> pg_text P c \<and> length c \<le> 50 | None \<Rightarrow> True)
     \<and> (case f_error_message f of Some m \<Rightarrow> pg_text P m | None \<Rightarrow> True)"

definition publishable :: "pg \<Rightarrow> pyv \<Rightarrow> pystr \<Rightarrow> pystr option \<Rightarrow> bool" where
  "publishable P payload topic trace \<longleftrightarrow>
     pg_json P payload \<and> pg_text P topic \<and> length topic \<le> 200
     \<and> (case trace of Some t \<Rightarrow> pg_text P t \<and> length t \<le> 255 | None \<Rightarrow> True)"

definition finished_row :: "int \<Rightarrow> outcome \<Rightarrow> drow \<Rightarrow> drow" where
  "finished_row now f r =
     r\<lparr>d_status := f_status f, d_result := f_result f, d_avg_confidence := f_avg_confidence f,
       d_error_code := f_error_code f, d_error_message := f_error_message f,
       d_processed_at := Some now, d_updated_at := now\<rparr>"

definition event_row :: "int \<Rightarrow> uuid \<Rightarrow> uuid \<Rightarrow> pystr \<Rightarrow> pyv \<Rightarrow> pystr option \<Rightarrow> orow" where
  "event_row now eid i topic payload trace =
     \<lparr>o_id = eid, o_aggregate_id = i, o_event_type = U ''document.processed'', o_event_version = 1,
      o_topic = topic, o_payload = payload, o_created_at = now, o_published_at = None,
      o_trace_id = trace, o_attempt_count = 0, o_next_attempt_at = None, o_locked_at = None,
      o_locked_by = None, o_last_error = None\<rparr>"

text \<open>
  \<open>finish_document\<close>: one transaction; \<open>eid\<close> is the identifier the database gives the event.
  An exception anywhere rolls everything back.
\<close>

definition finish_document ::
  "pg \<Rightarrow> int \<Rightarrow> uuid \<Rightarrow> uuid \<Rightarrow> outcome \<Rightarrow> pyv \<Rightarrow> pystr \<Rightarrow> pystr option \<Rightarrow> db \<Rightarrow> db \<times> unit res" where
  "finish_document P now eid i f payload topic trace w =
     (let dumped = (case f_result f of
                      None \<Rightarrow> Inr None
                    | Some v \<Rightarrow> rbind (json_dumps v) (\<lambda>j. Inr (Some j)))
      in case rbind dumped (\<lambda>res.
                let f' = f\<lparr>f_result := res\<rparr>
                in if \<not> finishable P f' then Inl data_error
                   else rbind (json_dumps payload) (\<lambda>p.
                     if \<not> publishable P p topic trace \<or> eid \<in> o_id ` set (outbox w) then Inl data_error
                     else Inr (f', p))) of
           Inl e \<Rightarrow> (w, Inl e)
         | Inr (f', p) \<Rightarrow>
             (w\<lparr>documents := update_rows (\<lambda>r. d_id r = i) (finished_row now f') (documents w),
                outbox := outbox w @ [event_row now eid i topic p trace]\<rparr>, Inr ()))"

subsection \<open>Retention\<close>

definition expired :: "int \<Rightarrow> drow \<Rightarrow> bool" where
  "expired older_than r \<longleftrightarrow> (case d_processed_at r of Some t \<Rightarrow> t < older_than | None \<Rightarrow> False)"

definition list_expired_documents :: "int \<Rightarrow> db \<Rightarrow> uuid list" where
  "list_expired_documents older_than w =
     map d_id (take 100 (sort_key (\<lambda>r. the (d_processed_at r)) (filter (expired older_than) (documents w))))"

definition purge_document_results :: "int \<Rightarrow> uuid list \<Rightarrow> db \<Rightarrow> db" where
  "purge_document_results now ids w =
     w\<lparr>documents := update_rows (\<lambda>r. d_id r \<in> set ids)
        (\<lambda>r. r\<lparr>d_result := None, d_error_message := None, d_updated_at := now\<rparr>) (documents w)\<rparr>"

subsection \<open>The outbox\<close>

definition minute :: int where
  "minute = 60000000"

text \<open>Timestamps are in microseconds. The rows a publisher may claim at \<open>now\<close>.\<close>

definition claimable :: "int \<Rightarrow> orow \<Rightarrow> bool" where
  "claimable now r \<longleftrightarrow>
     o_published_at r = None
     \<and> (case o_next_attempt_at r of Some t \<Rightarrow> t \<le> now | None \<Rightarrow> True)
     \<and> (case o_locked_at r of Some t \<Rightarrow> t < now - minute | None \<Rightarrow> True)"

definition claimed_ids :: "int \<Rightarrow> nat \<Rightarrow> db \<Rightarrow> uuid list" where
  "claimed_ids now batch w =
     map o_id (take batch (sort_key o_created_at (filter (claimable now) (outbox w))))"

definition claimed_row :: "pystr \<Rightarrow> int \<Rightarrow> orow \<Rightarrow> orow" where
  "claimed_row worker now r =
     r\<lparr>o_locked_by := Some worker, o_locked_at := Some now, o_attempt_count := o_attempt_count r + 1\<rparr>"

definition claim_pending_outbox :: "pystr \<Rightarrow> int \<Rightarrow> nat \<Rightarrow> db \<Rightarrow> db \<times> orow list" where
  "claim_pending_outbox worker now batch w =
     (let ids = claimed_ids now batch w;
          rows = update_rows (\<lambda>r. o_id r \<in> set ids) (claimed_row worker now) (outbox w)
      in (w\<lparr>outbox := rows\<rparr>, filter (\<lambda>r. o_id r \<in> set ids) rows))"

definition mark_published :: "int \<Rightarrow> uuid \<Rightarrow> db \<Rightarrow> db" where
  "mark_published now i w =
     w\<lparr>outbox := update_rows (\<lambda>r. o_id r = i)
        (\<lambda>r. r\<lparr>o_published_at := Some now, o_locked_by := None, o_locked_at := None\<rparr>) (outbox w)\<rparr>"

definition defer_outbox_event :: "int \<Rightarrow> uuid \<Rightarrow> pystr \<Rightarrow> db \<Rightarrow> db" where
  "defer_outbox_event now i err w =
     w\<lparr>outbox := update_rows (\<lambda>r. o_id r = i)
        (\<lambda>r. r\<lparr>o_locked_by := None, o_locked_at := None, o_last_error := Some err,
               o_next_attempt_at := Some (now + 5 * min (o_attempt_count r + 1) 6 * 1000000)\<rparr>) (outbox w)\<rparr>"

definition abandoned :: "int \<Rightarrow> orow \<Rightarrow> bool" where
  "abandoned older_than r \<longleftrightarrow>
     o_published_at r = None \<and> (case o_locked_at r of Some t \<Rightarrow> t < older_than | None \<Rightarrow> False)"

definition reclaim_abandoned_outbox :: "int \<Rightarrow> db \<Rightarrow> db \<times> int" where
  "reclaim_abandoned_outbox older_than w =
     (w\<lparr>outbox := update_rows (abandoned older_than)
          (\<lambda>r. r\<lparr>o_locked_by := None, o_locked_at := None\<rparr>) (outbox w)\<rparr>,
      int (length (filter (abandoned older_than) (outbox w))))"

subsection \<open>Laws of rows\<close>

lemma find_row_Some: "find_row key k rows = Some r \<Longrightarrow> r \<in> set rows \<and> key r = k"
  by (auto simp: find_row_def dest!: first_some_Some split: if_splits)

lemma find_row_None: "find_row key k rows = None \<longleftrightarrow> k \<notin> key ` set rows"
  by (auto simp: find_row_def first_some_None)

lemma find_row_in: "distinct (map key rows) \<Longrightarrow> r \<in> set rows \<Longrightarrow> find_row key (key r) rows = Some r"
  by (induction rows) (auto simp: find_row_def image_iff)

lemma find_row_append [store_simps]:
  "find_row key k (xs @ ys) = (case find_row key k xs of Some r \<Rightarrow> Some r | None \<Rightarrow> find_row key k ys)"
  by (simp add: find_row_def first_some_append split: option.split)

lemma find_row_update [store_simps]:
  "(\<And>r. key (f r) = key r) \<Longrightarrow>
     find_row key k (update_rows P f rows) = map_option (\<lambda>r. if P r then f r else r) (find_row key k rows)"
  by (induction rows) (auto simp: find_row_def update_rows_def)

lemma update_rows_keys: "(\<And>r. key (f r) = key r) \<Longrightarrow> map key (update_rows P f rows) = map key rows"
  by (simp add: update_rows_def map_update_key)

lemma set_update_rows: "set (update_rows P f rows) = (\<lambda>r. if P r then f r else r) ` set rows"
  by (simp add: update_rows_def)

lemma filter_update_rows:
  "(\<And>r. Q (f r) = Q r) \<Longrightarrow> filter Q (update_rows P f rows) = update_rows P f (filter Q rows)"
  by (induction rows) (auto simp: update_rows_def)

subsection \<open>The keyed table\<close>

text \<open>
  What the clients of a table rely on, whatever the operation: rows keep their key and their
  place, new rows go to the end, and keys stay unique.
\<close>

locale keyed_table =
  fixes table :: "'w \<Rightarrow> 'r list" and key :: "'r \<Rightarrow> 'k" and oper :: "'w \<Rightarrow> 'w \<Rightarrow> bool"
  assumes oper_keys: "oper w w' \<Longrightarrow> distinct (map key (table w)) \<Longrightarrow>
      \<exists>new. map key (table w') = map key (table w) @ new \<and> distinct (map key (table w) @ new)"
begin

lemma opers_keys:
  assumes "oper\<^sup>*\<^sup>* w w'" and "distinct (map key (table w))"
  shows "\<exists>new. map key (table w') = map key (table w) @ new \<and> distinct (map key (table w'))"
  using assms
proof (induction rule: rtranclp_induct)
  case base
  then show ?case by simp
next
  case (step y z)
  then obtain new where y: "map key (table y) = map key (table w) @ new" "distinct (map key (table y))" by blast
  obtain more where "map key (table z) = map key (table y) @ more" "distinct (map key (table y) @ more)"
    using oper_keys [OF step.hyps(2) y(2)] by blast
  with y show ?case by (intro exI [of _ "new @ more"]) simp
qed

lemma opers_found:
  assumes "oper\<^sup>*\<^sup>* w w'" and "distinct (map key (table w))" and "find_row key k (table w) \<noteq> None"
  shows "find_row key k (table w') \<noteq> None"
proof -
  obtain new where "map key (table w') = map key (table w) @ new" using opers_keys [OF assms(1,2)] by blast
  then have "key ` set (table w) \<subseteq> key ` set (table w')" by (metis list.set_map set_append Un_upper1)
  with assms(3) show ?thesis by (auto simp: find_row_None)
qed

lemma opers_index:
  assumes "oper\<^sup>*\<^sup>* w w'" and "distinct (map key (table w))" and "i < length (table w)"
  shows "i < length (table w') \<and> key (table w' ! i) = key (table w ! i)"
proof -
  obtain new where new: "map key (table w') = map key (table w) @ new" using opers_keys [OF assms(1,2)] by blast
  then have "length (table w) \<le> length (table w')" by (metis length_append length_map le_add1)
  moreover have "map key (table w') ! i = map key (table w) ! i" using new assms(3) by (simp add: nth_append)
  ultimately show ?thesis using assms(3) by simp
qed

end

subsection \<open>The operations as steps\<close>

definition terminal_statuses :: "pystr list" where
  "terminal_statuses = [U ''completed'', U ''needs_review'', U ''failed'']"

inductive store_step :: "pg \<Rightarrow> db \<Rightarrow> db \<Rightarrow> bool" for P where
  submitted: "submit_document P now q w = (w', r) \<Longrightarrow> store_step P w w'"
| processing: "store_step P w (mark_processing now i w)"
| finished: "f_status f \<in> set terminal_statuses \<Longrightarrow>
    finish_document P now eid i f payload topic trace w = (w', r) \<Longrightarrow> store_step P w w'"
| purged: "store_step P w (purge_document_results now ids w)"
| claimed: "claim_pending_outbox worker now batch w = (w', rows) \<Longrightarrow> store_step P w w'"
| published: "store_step P w (mark_published now i w)"
| deferred: "store_step P w (defer_outbox_event now i err w)"
| reclaimed: "reclaim_abandoned_outbox older w = (w', n) \<Longrightarrow> store_step P w w'"

inductive_cases store_stepE: "store_step P w w'"

lemma submit_cases:
  assumes "submit_document P now q w = (w', r)"
  obtains (refused) "w' = w" and "r \<noteq> Inr True"
    | (stored) key where "pg_uuid P (s_idempotency_key q) = Some key" and "r = Inr True"
        and "insertable P (queued_row now key q)"
        and "s_document_id q \<notin> d_id ` set (documents w)" and "key \<notin> d_key ` set (documents w)"
        and "w' = w\<lparr>documents := documents w @ [queued_row now key q]\<rparr>"
proof (cases "pg_uuid P (s_idempotency_key q)")
  case None
  with assms have "w' = w" and "r \<noteq> Inr True" by (auto simp: submit_document_def)
  then show ?thesis by (rule refused)
next
  case (Some key)
  let ?clash = "list_ex (\<lambda>r. d_id r = d_id (queued_row now key q) \<or> d_key r = key) (documents w)"
  show ?thesis
  proof (cases "insertable P (queued_row now key q) \<and> \<not> ?clash")
    case True
    then have "s_document_id q \<notin> d_id ` set (documents w)" and "key \<notin> d_key ` set (documents w)"
      by (auto simp: list_ex_iff queued_row_def)
    with True assms Some show ?thesis by (intro stored) (auto simp: submit_document_def Let_def)
  next
    case False
    with assms Some have "w' = w" and "r \<noteq> Inr True"
      by (auto simp: submit_document_def Let_def split: if_splits)
    then show ?thesis by (rule refused)
  qed
qed

lemma finish_cases:
  assumes "finish_document P now eid i f payload topic trace w = (w', r)"
  obtains (rolled_back) e where "w' = w" and "r = Inl e"
    | (committed) "r = Inr ()" and "serialisable payload" and "eid \<notin> o_id ` set (outbox w)"
        and "\<forall>v. f_result f = Some v \<longrightarrow> serialisable v" and "f_status f \<in> set statuses"
        and "w' = w\<lparr>documents := update_rows (\<lambda>r. d_id r = i) (finished_row now f) (documents w),
                     outbox := outbox w @ [event_row now eid i topic payload trace]\<rparr>"
proof (cases r)
  case (Inl e)
  with assms have "w' = w" by (auto simp: finish_document_def Let_def split: sum.splits prod.splits)
  then show ?thesis using Inl by (rule rolled_back)
next
  case (Inr u)
  obtain res where res: "(case f_result f of None \<Rightarrow> Inr None
      | Some v \<Rightarrow> rbind (json_dumps v) (\<lambda>j. Inr (Some j))) = Inr res"
    using assms Inr by (auto simp: finish_document_def Let_def split: sum.splits prod.splits elim!: rbind_InrE)
  then have f: "f_result f = res" and s: "\<forall>v. f_result f = Some v \<longrightarrow> serialisable v"
    by (auto simp: json_dumps_Inr elim!: rbind_InrE split: option.splits)
  have "f\<lparr>f_result := res\<rparr> = f" using f by (cases f) simp
  with assms Inr res show ?thesis
    by (intro committed) (auto simp: s finish_document_def Let_def json_dumps_Inr finishable_def
        split: sum.splits prod.splits if_splits elim!: rbind_InrE)
qed

subsection \<open>Interpretations\<close>

text \<open>A row whose status is one of the five, terminal exactly when it has a time of processing.\<close>

definition row_ok :: "drow \<Rightarrow> bool" where
  "row_ok r \<longleftrightarrow>
     d_status r \<in> set statuses \<and> (d_processed_at r \<noteq> None \<longleftrightarrow> d_status r \<in> set terminal_statuses)"

lemma row_ok_updates [wf_intros]:
  "row_ok (queued_row now key q)"
  "row_ok r \<Longrightarrow> d_status r = U ''queued'' \<Longrightarrow> row_ok (r\<lparr>d_status := U ''processing'', d_updated_at := now\<rparr>)"
  "f_status f \<in> set terminal_statuses \<Longrightarrow> row_ok (finished_row now f r)"
  "row_ok r \<Longrightarrow> row_ok (r\<lparr>d_result := None, d_error_message := None, d_updated_at := now\<rparr>)"
  by (auto simp: row_ok_def queued_row_def finished_row_def statuses_def terminal_statuses_def)

lemma submit_keys:
  assumes "submit_document P now q w = (w', r)"
  shows "\<exists>new. documents w' = documents w @ new \<and> outbox w' = outbox w
      \<and> d_id ` set new \<inter> d_id ` set (documents w) = {} \<and> d_key ` set new \<inter> d_key ` set (documents w) = {}
      \<and> distinct (map d_id new) \<and> distinct (map d_key new)
      \<and> (\<forall>x \<in> set new. row_ok x \<and> d_processed_at x = None)"
  using assms
proof (cases rule: submit_cases)
  case refused
  then show ?thesis by simp
next
  case (stored key)
  then show ?thesis
    by (intro exI [of _ "[queued_row now key q]"]) (auto simp: row_ok_updates(1), auto simp: queued_row_def)
qed

lemma finished_row_keys [simp]: "d_id (finished_row now f r) = d_id r" "d_key (finished_row now f r) = d_key r"
  by (simp_all add: finished_row_def)

text \<open>
  Every operation keeps the identifier and the key of the documents it touches and their rows
  well formed, forgets no time of processing, and sets one only together with an event.
\<close>

lemma step_documents:
  assumes "store_step P w w'"
  shows "\<exists>upd new. documents w' = map upd (documents w) @ new
      \<and> (\<forall>r. d_id (upd r) = d_id r \<and> d_key (upd r) = d_key r)
      \<and> d_id ` set new \<inter> d_id ` set (documents w) = {} \<and> d_key ` set new \<inter> d_key ` set (documents w) = {}
      \<and> distinct (map d_id new) \<and> distinct (map d_key new)
      \<and> (\<forall>r. row_ok r \<longrightarrow> row_ok (upd r)) \<and> (\<forall>r \<in> set new. row_ok r \<and> d_processed_at r = None)
      \<and> (\<forall>r. d_processed_at r \<noteq> None \<longrightarrow> d_processed_at (upd r) \<noteq> None)
      \<and> (\<forall>r. d_processed_at r = None \<longrightarrow> d_processed_at (upd r) \<noteq> None \<longrightarrow>
             d_id r \<in> o_aggregate_id ` set (outbox w'))"
  using assms
proof cases
  case (submitted now q r)
  then obtain new where "documents w' = documents w @ new" "d_id ` set new \<inter> d_id ` set (documents w) = {}"
      "d_key ` set new \<inter> d_key ` set (documents w) = {}" "distinct (map d_id new)" "distinct (map d_key new)"
      "\<forall>x \<in> set new. row_ok x \<and> d_processed_at x = None"
    using submit_keys by metis
  then show ?thesis by (intro exI [of _ id] exI [of _ new]) simp
next
  case (processing now i)
  then show ?thesis
    by (intro exI [of _ "\<lambda>r. if d_id r = i \<and> d_status r = U ''queued''
          then r\<lparr>d_status := U ''processing'', d_updated_at := now\<rparr> else r"] exI [of _ "[]"])
      (simp add: mark_processing_def update_rows_def row_ok_updates)
next
  case (finished f now eid i payload topic trace r)
  from finished(2) show ?thesis
  proof (cases rule: finish_cases)
    case (rolled_back e)
    then show ?thesis by (intro exI [of _ id] exI [of _ "[]"]) simp
  next
    case committed
    then show ?thesis
      by (intro exI [of _ "\<lambda>r. if d_id r = i then finished_row now f r else r"] exI [of _ "[]"])
        (simp add: update_rows_def row_ok_updates(3) [OF finished(1)], simp add: finished_row_def event_row_def)
  qed
next
  case (purged now ids)
  then show ?thesis
    by (intro exI [of _ "\<lambda>r. if d_id r \<in> set ids
          then r\<lparr>d_result := None, d_error_message := None, d_updated_at := now\<rparr> else r"] exI [of _ "[]"])
      (simp add: purge_document_results_def update_rows_def row_ok_updates)
next
  case (claimed worker now batch rows)
  then show ?thesis
    by (intro exI [of _ id] exI [of _ "[]"]) (auto simp: claim_pending_outbox_def Let_def)
next
  case (reclaimed older n)
  then show ?thesis by (intro exI [of _ id] exI [of _ "[]"]) (auto simp: reclaim_abandoned_outbox_def)
qed (intro exI [of _ id] exI [of _ "[]"]; simp add: mark_published_def defer_outbox_event_def)+

lemma step_outbox:
  assumes "store_step P w w'"
  shows "\<exists>upd new. outbox w' = map upd (outbox w) @ new \<and> (\<forall>r. o_id (upd r) = o_id r)
      \<and> o_id ` set new \<inter> o_id ` set (outbox w) = {} \<and> distinct (map o_id new)
      \<and> (\<forall>r. o_published_at r \<noteq> None \<longrightarrow> o_published_at (upd r) \<noteq> None)
      \<and> (\<forall>r. o_payload (upd r) = o_payload r \<and> o_aggregate_id (upd r) = o_aggregate_id r)
      \<and> (\<forall>r \<in> set new. serialisable (o_payload r))"
  using assms
proof cases
  case (submitted now q r)
  then have "outbox w' = outbox w" using submit_keys by metis
  then show ?thesis by (intro exI [of _ id] exI [of _ "[]"]) simp
next
  case (finished f now eid i payload topic trace r)
  from finished(2) show ?thesis
  proof (cases rule: finish_cases)
    case (rolled_back e)
    then show ?thesis by (intro exI [of _ id] exI [of _ "[]"]) simp
  next
    case committed
    then show ?thesis
      by (intro exI [of _ id] exI [of _ "[event_row now eid i topic payload trace]"]) (simp add: event_row_def)
  qed
next
  case (claimed worker now batch rows)
  then show ?thesis
    by (intro exI [of _ "\<lambda>r. if o_id r \<in> set (claimed_ids now batch w) then claimed_row worker now r else r"]
        exI [of _ "[]"]) (auto simp: claim_pending_outbox_def Let_def update_rows_def claimed_row_def)
next
  case (published now i)
  then show ?thesis
    by (intro exI [of _ "\<lambda>r. if o_id r = i
          then r\<lparr>o_published_at := Some now, o_locked_by := None, o_locked_at := None\<rparr> else r"] exI [of _ "[]"])
      (simp add: mark_published_def update_rows_def)
next
  case (deferred now i err)
  then show ?thesis
    by (intro exI [of _ "\<lambda>r. if o_id r = i
          then r\<lparr>o_locked_by := None, o_locked_at := None, o_last_error := Some err,
                 o_next_attempt_at := Some (now + 5 * min (o_attempt_count r + 1) 6 * 1000000)\<rparr> else r"] exI [of _ "[]"])
      (simp add: defer_outbox_event_def update_rows_def)
next
  case (reclaimed older n)
  then show ?thesis
    by (intro exI [of _ "\<lambda>r. if abandoned older r then r\<lparr>o_locked_by := None, o_locked_at := None\<rparr> else r"]
        exI [of _ "[]"]) (auto simp: reclaim_abandoned_outbox_def update_rows_def)
qed (intro exI [of _ id] exI [of _ "[]"]; simp add: mark_processing_def purge_document_results_def)+

lemma keyed_map_new:
  assumes "t' = map upd t @ new" and "\<forall>r. key (upd r) = key r" and "key ` set new \<inter> key ` set t = {}"
    and "distinct (map key new)" and "distinct (map key t)"
  shows "\<exists>new. map key t' = map key t @ new \<and> distinct (map key t @ new)"
  using assms by (intro exI [of _ "map key new"]) auto

interpretation docs: keyed_table documents d_id "store_step P" for P
proof
  fix w w' assume "store_step P w w'" and d: "distinct (map d_id (documents w))"
  from step_documents [OF this(1)] obtain upd new where "documents w' = map upd (documents w) @ new"
      "\<forall>r. d_id (upd r) = d_id r" "d_id ` set new \<inter> d_id ` set (documents w) = {}" "distinct (map d_id new)"
    by metis
  from keyed_map_new [OF this d]
  show "\<exists>new. map d_id (documents w') = map d_id (documents w) @ new
      \<and> distinct (map d_id (documents w) @ new)" .
qed

interpretation keys: keyed_table documents d_key "store_step P" for P
proof
  fix w w' assume "store_step P w w'" and d: "distinct (map d_key (documents w))"
  from step_documents [OF this(1)] obtain upd new where "documents w' = map upd (documents w) @ new"
      "\<forall>r. d_key (upd r) = d_key r" "d_key ` set new \<inter> d_key ` set (documents w) = {}" "distinct (map d_key new)"
    by metis
  from keyed_map_new [OF this d]
  show "\<exists>new. map d_key (documents w') = map d_key (documents w) @ new
      \<and> distinct (map d_key (documents w) @ new)" .
qed

interpretation events: keyed_table outbox o_id "store_step P" for P
proof
  fix w w' assume "store_step P w w'" and d: "distinct (map o_id (outbox w))"
  from step_outbox [OF this(1)] obtain upd new where "outbox w' = map upd (outbox w) @ new"
      "\<forall>r. o_id (upd r) = o_id r" "o_id ` set new \<inter> o_id ` set (outbox w) = {}" "distinct (map o_id new)"
    by metis
  from keyed_map_new [OF this d]
  show "\<exists>new. map o_id (outbox w') = map o_id (outbox w) @ new
      \<and> distinct (map o_id (outbox w) @ new)" .
qed

subsection \<open>The invariant of the database\<close>

text \<open>
  Identifiers and idempotency keys are unique, every document is in one of the five statuses,
  terminal exactly when it was processed, every processed document has an event, and every
  event has a payload that is JSON.
\<close>

definition wf_db :: "db \<Rightarrow> bool" where
  "wf_db w \<longleftrightarrow>
     distinct (map d_id (documents w)) \<and> distinct (map d_key (documents w)) \<and> distinct (map o_id (outbox w))
     \<and> list_all row_ok (documents w)
     \<and> list_all (\<lambda>r. d_processed_at r = None \<or> d_id r \<in> o_aggregate_id ` set (outbox w)) (documents w)
     \<and> list_all (\<lambda>e. serialisable (o_payload e)) (outbox w)"

definition db_init :: db where
  "db_init = \<lparr>documents = [], outbox = []\<rparr>"

lemma aggregates_kept:
  assumes "outbox w' = map upd (outbox w) @ new" and "\<forall>r. o_aggregate_id (upd r) = o_aggregate_id r"
  shows "o_aggregate_id ` set (outbox w) \<subseteq> o_aggregate_id ` set (outbox w')"
  using assms by (auto simp: image_iff) (metis Un_iff image_eqI list.set_map set_append)

lemma store_step_wf:
  assumes "store_step P w w'" and "wf_db w"
  shows "wf_db w'"
proof -
  obtain upd new where d: "documents w' = map upd (documents w) @ new"
      "\<forall>r. d_id (upd r) = d_id r \<and> d_key (upd r) = d_key r"
      "d_id ` set new \<inter> d_id ` set (documents w) = {}" "d_key ` set new \<inter> d_key ` set (documents w) = {}"
      "distinct (map d_id new)" "distinct (map d_key new)" "\<forall>r. row_ok r \<longrightarrow> row_ok (upd r)"
      "\<forall>r \<in> set new. row_ok r \<and> d_processed_at r = None"
      "\<forall>r. d_processed_at r = None \<longrightarrow> d_processed_at (upd r) \<noteq> None \<longrightarrow> d_id r \<in> o_aggregate_id ` set (outbox w')"
    using step_documents [OF assms(1)] by metis
  obtain oupd onew where o: "outbox w' = map oupd (outbox w) @ onew" "\<forall>r. o_id (oupd r) = o_id r"
      "o_id ` set onew \<inter> o_id ` set (outbox w) = {}" "distinct (map o_id onew)"
      "\<forall>r. o_payload (oupd r) = o_payload r \<and> o_aggregate_id (oupd r) = o_aggregate_id r"
      "\<forall>r \<in> set onew. serialisable (o_payload r)"
    using step_outbox [OF assms(1)] by metis
  have agg: "o_aggregate_id ` set (outbox w) \<subseteq> o_aggregate_id ` set (outbox w')"
    using aggregates_kept [OF o(1)] o(5) by blast
  have "distinct (map d_id (documents w)) \<and> distinct (map d_key (documents w)) \<and> distinct (map o_id (outbox w))"
    using assms(2) by (simp add: wf_db_def)
  then have "distinct (map d_id (documents w'))" "distinct (map d_key (documents w'))" "distinct (map o_id (outbox w'))"
    using docs.oper_keys [OF assms(1)] keys.oper_keys [OF assms(1)] events.oper_keys [OF assms(1)] by auto
  moreover have "list_all row_ok (documents w')"
    using d(1,7,8) assms(2) by (auto simp: wf_db_def list_all_iff)
  moreover have "list_all (\<lambda>r. d_processed_at r = None \<or> d_id r \<in> o_aggregate_id ` set (outbox w')) (documents w')"
  proof -
    have "d_id r \<in> o_aggregate_id ` set (outbox w')"
      if r: "r \<in> set (documents w')" and p: "d_processed_at r \<noteq> None" for r
    proof -
      obtain r0 where r0: "r0 \<in> set (documents w)" "r = upd r0" using r p d(1,8) by auto
      have "d_processed_at r0 = None \<or> d_id r0 \<in> o_aggregate_id ` set (outbox w)"
        using assms(2) r0(1) by (simp add: wf_db_def list_all_iff)
      then have "d_id r0 \<in> o_aggregate_id ` set (outbox w')" using p r0(2) d(9) agg by blast
      then show ?thesis using r0(2) d(2) by simp
    qed
    then show ?thesis unfolding list_all_iff by blast
  qed
  moreover have "list_all (\<lambda>e. serialisable (o_payload e)) (outbox w')"
    using o(1,5,6) assms(2) by (auto simp: wf_db_def list_all_iff)
  ultimately show ?thesis by (simp add: wf_db_def)
qed

lemma db_init_wf: "wf_db db_init"
  by (simp add: wf_db_def db_init_def)

lemma store_steps_wf: "(store_step P)\<^sup>*\<^sup>* w w' \<Longrightarrow> wf_db w \<Longrightarrow> wf_db w'"
  by (induction rule: rtranclp_induct) (auto intro: store_step_wf)

text \<open>A database for the applications; the driver decodes UUID columns to UUID objects.\<close>

definition demo_pg :: pg where
  "demo_pg = \<lparr>pg_uuid = (\<lambda>t. if length t = 36 then Some (of_int (hd (rev t))) else None),
     pg_text = (\<lambda>_. True), pg_json = (\<lambda>_. True), pg_uuid_out = PUuid\<rparr>"

definition demo_submission :: submission where
  "demo_submission = \<lparr>s_document_id = 7, s_idempotency_key = U ''00000000-0000-4000-8000-000000000001'',
     s_external_ref = U ''order-1'', s_schema_id = U ''receipt@1'', s_caller_id = U ''billing'',
     s_source_bucket = U ''docs'', s_source_path = U ''a/scan.pdf'', s_declared_mime = U ''application/pdf'',
     s_size_bytes = 1000, s_trace_id = None\<rparr>"

definition demo_row :: drow where
  "demo_row = queued_row 100 49 demo_submission"

lemma demo_submit:
  "submit_document demo_pg 100 demo_submission db_init = (\<lparr>documents = [demo_row], outbox = []\<rparr>, Inr True)"
  by (simp add: submit_document_def demo_pg_def demo_submission_def db_init_def demo_row_def queued_row_def
      insertable_def Let_def U_def)

text \<open>
  Property C10: whatever sequence of operations ran on an initially empty database, in whatever
  order, the identifiers of documents and of events and the idempotency keys are unique, every
  status is one of the five, a document is terminal exactly when its processing time is set, and
  every processed document has an event in the outbox whose payload is JSON.
\<close>

theorem database_invariant:
  assumes "(store_step P)\<^sup>*\<^sup>* db_init w"
  shows "wf_db w"
  using store_steps_wf [OF assms db_init_wf] .

theorem database_invariant_witness: "wf_db \<lparr>documents = [demo_row], outbox = []\<rparr>"
  by (rule database_invariant [of demo_pg])
    (rule r_into_rtranclp, rule store_step.submitted [OF demo_submit])

text \<open>
  The idempotency key decides. Once a document was inserted under a key, every later
  insertion under the same key is refused and changes nothing, after any number of other
  operations and whatever its other fields; the key still leads to a document.
\<close>

lemma submit_idempotent:
  assumes "submit_document P now q w = (w1, Inr True)" and "distinct (map d_key (documents w))"
    and "(store_step P)\<^sup>*\<^sup>* w1 w2" and "s_idempotency_key q' = s_idempotency_key q"
  shows "fst (submit_document P now' q' w2) = w2 \<and> snd (submit_document P now' q' w2) \<noteq> Inr True
    \<and> (\<exists>d. get_idempotent_document P (s_idempotency_key q) w2 = Inr (Some d))"
  using assms(1)
proof (cases rule: submit_cases)
  case refused
  then show ?thesis by simp
next
  case (stored key)
  have d1: "distinct (map d_key (documents w1))" using assms(2) stored by (simp add: queued_row_def)
  have "find_row d_key key (documents w1) \<noteq> None" by (simp add: stored find_row_None queued_row_def)
  then have f2: "find_row d_key key (documents w2) \<noteq> None" by (rule keys.opers_found [OF assms(3) d1])
  then have dup: "list_ex (\<lambda>r. d_id r = i \<or> d_key r = key) (documents w2)" for i
    by (auto simp: list_ex_iff find_row_None)
  have "submit_document P now' q' w2 = (w2, Inl data_error) \<or> submit_document P now' q' w2 = (w2, Inr False)"
    using assms(4) stored(1) dup by (auto simp: submit_document_def Let_def)
  moreover have "\<exists>d. get_idempotent_document P (s_idempotency_key q) w2 = Inr (Some d)"
    using f2 stored(1) by (auto simp: get_idempotent_document_def)
  ultimately show ?thesis by auto
qed

lemma submit_idempotent_example:
  "snd (submit_document demo_pg 200 (demo_submission\<lparr>s_document_id := 8\<rparr>) \<lparr>documents = [demo_row], outbox = []\<rparr>)
     \<noteq> Inr True"
  using submit_idempotent [OF demo_submit, of "\<lparr>documents = [demo_row], outbox = []\<rparr>"
      "demo_submission\<lparr>s_document_id := 8\<rparr>" 200]
  by (simp add: db_init_def)

text \<open>
  Finishing a document is atomic. Either nothing changed and an exception was raised,
  or the document has its terminal row with the time of processing and exactly one event for it,
  unpublished and with the payload given, was appended to the outbox; no other document changed.
\<close>

lemma finish_atomic:
  "case finish_document P now eid i f payload topic trace w of
     (w', Inl e) \<Rightarrow> w' = w
   | (w', Inr _) \<Rightarrow>
       list_all2 (\<lambda>r r'. r' = (if d_id r = i then finished_row now f r else r)) (documents w) (documents w')
       \<and> outbox w' = outbox w @ [event_row now eid i topic payload trace]"
proof (cases "finish_document P now eid i f payload topic trace w")
  case (Pair w' r)
  from Pair show ?thesis
    by (cases rule: finish_cases) (simp_all add: Pair update_rows_def list_all2_conv_all_nth)
qed

subsection \<open>Claiming events\<close>

lemma claim_unfold:
  assumes "claim_pending_outbox worker now batch w = (w', rows)"
  shows "w' = w\<lparr>outbox := update_rows (\<lambda>r. o_id r \<in> set (claimed_ids now batch w)) (claimed_row worker now) (outbox w)\<rparr>"
    and "rows = filter (\<lambda>r. o_id r \<in> set (claimed_ids now batch w)) (outbox w')"
  using assms by (auto simp: claim_pending_outbox_def Let_def)

lemma claimed_id_from:
  assumes "i \<in> set (claimed_ids now batch w)"
  obtains r where "r \<in> set (outbox w)" and "o_id r = i" and "claimable now r"
proof -
  obtain r where "r \<in> set (take batch (sort_key o_created_at (filter (claimable now) (outbox w))))" and i: "o_id r = i"
    using assms by (auto simp: claimed_ids_def)
  then have "r \<in> set (sort_key o_created_at (filter (claimable now) (outbox w)))" by (blast dest: in_set_takeD)
  then show thesis using that i by auto
qed

lemma claimed_rows:
  assumes "claim_pending_outbox worker now batch w = (w', rows)" and "distinct (map o_id (outbox w))"
    and "r \<in> set rows"
  obtains r0 where "r0 \<in> set (outbox w)" and "claimable now r0" and "r = claimed_row worker now r0"
proof -
  note c = claim_unfold [OF assms(1)]
  obtain r0 where r0: "r0 \<in> set (outbox w)" and i: "o_id r \<in> set (claimed_ids now batch w)"
      and r: "r = (if o_id r0 \<in> set (claimed_ids now batch w) then claimed_row worker now r0 else r0)"
    using assms(3) by (auto simp: c(2) c(1) set_update_rows)
  have "o_id r = o_id r0" by (simp add: r claimed_row_def)
  with i have i0: "o_id r0 \<in> set (claimed_ids now batch w)" by simp
  then obtain r1 where "r1 \<in> set (outbox w)" "o_id r1 = o_id r0" "claimable now r1"
    by (rule claimed_id_from)
  then have "r1 = r0" using r0 assms(2) by (simp add: distinct_map inj_on_def)
  with \<open>claimable now r1\<close> r0 r i0 show thesis using that by simp
qed

text \<open>
  A claim returns only events that are neither published nor waiting for a retry nor
  held by another worker within the last minute, at most as many as asked for, each now locked by
  this worker with one more attempt; and no event left behind is older than one it took unless
  it was not claimable.
\<close>

lemma claim_takes_oldest:
  assumes "claim_pending_outbox worker now batch w = (w', rows)" and "distinct (map o_id (outbox w))"
  shows "length rows \<le> batch
    \<and> list_all (\<lambda>r. o_locked_by r = Some worker \<and> o_locked_at r = Some now \<and> o_published_at r = None
          \<and> 1 \<le> o_attempt_count r - (case find_row o_id (o_id r) (outbox w) of Some r0 \<Rightarrow> o_attempt_count r0 | None \<Rightarrow> 0)) rows
    \<and> list_all (\<lambda>r. list_all (\<lambda>x. o_id x \<in> set (claimed_ids now batch w) \<or> \<not> claimable now x
          \<or> o_created_at r \<le> o_created_at x) (outbox w)) rows"
proof (intro conjI)
  let ?sorted = "sort_key o_created_at (filter (claimable now) (outbox w))"
  note c = claim_unfold [OF assms(1)]
  have keys: "map o_id (outbox w') = map o_id (outbox w)"
    unfolding c(1) by (simp add: update_rows_keys claimed_row_def)
  have "distinct (map o_id rows)" using assms(2) keys by (simp add: c(2) distinct_map_filter)
  then have "length rows = card (set (map o_id rows))" by (metis distinct_card length_map)
  also have "\<dots> \<le> card (set (claimed_ids now batch w))"
    by (intro card_mono) (auto simp: c(2))
  also have "\<dots> \<le> length (claimed_ids now batch w)" by (rule card_length)
  also have "\<dots> \<le> batch" by (simp add: claimed_ids_def)
  finally show "length rows \<le> batch" .
  have row: "\<exists>r0. find_row o_id (o_id r) (outbox w) = Some r0 \<and> claimable now r0 \<and> r = claimed_row worker now r0"
    if r: "r \<in> set rows" for r
  proof -
    obtain r0 where "r0 \<in> set (outbox w)" "claimable now r0" "r = claimed_row worker now r0"
      using claimed_rows [OF assms r] .
    then show ?thesis using find_row_in [OF assms(2)] by (auto simp: claimed_row_def)
  qed
  then show "list_all (\<lambda>r. o_locked_by r = Some worker \<and> o_locked_at r = Some now \<and> o_published_at r = None
      \<and> 1 \<le> o_attempt_count r - (case find_row o_id (o_id r) (outbox w) of Some r0 \<Rightarrow> o_attempt_count r0 | None \<Rightarrow> 0)) rows"
    by (fastforce simp: list_all_iff claimed_row_def claimable_def)
  have "o_created_at r \<le> o_created_at x"
    if r: "r \<in> set rows" and x: "x \<in> set (outbox w)" "claimable now x" "o_id x \<notin> set (claimed_ids now batch w)" for r x
  proof -
    obtain r0 where r0: "find_row o_id (o_id r) (outbox w) = Some r0" "r = claimed_row worker now r0"
      using row [OF r] by blast
    have "o_id r \<in> set (claimed_ids now batch w)" using r by (simp add: c(2))
    then obtain r1 where r1: "r1 \<in> set (take batch ?sorted)" "o_id r1 = o_id r" by (auto simp: claimed_ids_def)
    then have "r1 \<in> set (outbox w)" by (auto dest: in_set_takeD)
    then have "r1 = r0" using find_row_in [OF assms(2), of r1] r0 r1(2) by simp
    have "x \<in> set ?sorted" using x by simp
    moreover have "x \<notin> set (take batch ?sorted)" using x(3) by (auto simp: claimed_ids_def)
    ultimately have "x \<in> set (drop batch ?sorted)" by (metis Un_iff append_take_drop_id set_append)
    moreover have "sorted (map o_created_at (take batch ?sorted @ drop batch ?sorted))" by simp
    ultimately have "o_created_at r1 \<le> o_created_at x"
      using r1(1) by (simp add: sorted_append del: append_take_drop_id sort_key_simps)
    then show ?thesis using \<open>r1 = r0\<close> r0(2) by (simp add: claimed_row_def)
  qed
  then show "list_all (\<lambda>r. list_all (\<lambda>x. o_id x \<in> set (claimed_ids now batch w) \<or> \<not> claimable now x
      \<or> o_created_at r \<le> o_created_at x) (outbox w)) rows"
    unfolding list_all_iff by blast
qed

lemma demo_event_claim:
  "claim_pending_outbox (U ''w1'') 300 5 \<lparr>documents = [], outbox = [event_row 100 1 7 (U ''t'') (PInt 1) None]\<rparr> =
     (\<lparr>documents = [], outbox = [claimed_row (U ''w1'') 300 (event_row 100 1 7 (U ''t'') (PInt 1) None)]\<rparr>,
      [claimed_row (U ''w1'') 300 (event_row 100 1 7 (U ''t'') (PInt 1) None)])"
  by (simp add: claim_pending_outbox_def claimed_ids_def claimable_def event_row_def update_rows_def
      claimed_row_def Let_def)

lemma claim_takes_oldest_example:
  "length [claimed_row (U ''w1'') 300 (event_row 100 1 7 (U ''t'') (PInt 1) None)] \<le> 5"
  using claim_takes_oldest [OF demo_event_claim] by simp

text \<open>The claims of any number of workers, one after the other, with what each of them got.\<close>

fun claim_all :: "(pystr \<times> int \<times> nat) list \<Rightarrow> db \<Rightarrow> orow list" where
  "claim_all [] w = []"
| "claim_all ((worker, now, batch) # cs) w =
     (case claim_pending_outbox worker now batch w of (w', rows) \<Rightarrow> rows @ claim_all cs w')"

text \<open>Event \<open>i\<close> has been locked at \<open>t\<close> or later.\<close>

definition held :: "int \<Rightarrow> uuid \<Rightarrow> db \<Rightarrow> bool" where
  "held t i w \<longleftrightarrow> (\<exists>r \<in> set (outbox w). o_id r = i \<and> (\<exists>u. o_locked_at r = Some u \<and> t \<le> u))"

lemma held_not_claimed:
  assumes "held t i w" and "distinct (map o_id (outbox w))" and "now \<le> t + minute"
  shows "i \<notin> set (claimed_ids now batch w)"
proof
  assume "i \<in> set (claimed_ids now batch w)"
  then obtain r where r: "r \<in> set (outbox w)" "o_id r = i" "claimable now r" by (rule claimed_id_from)
  obtain r' u where h: "r' \<in> set (outbox w)" "o_id r' = i" "o_locked_at r' = Some u" "t \<le> u"
    using assms(1) by (auto simp: held_def)
  have "r' = r" using r h assms(2) by (auto simp: distinct_map inj_on_def)
  with r h assms(3) show False by (simp add: claimable_def)
qed

lemma claim_holds:
  assumes "claim_pending_outbox worker now batch w = (w', rows)" and "t \<le> now"
  shows "held t i w \<Longrightarrow> held t i w'" and "r \<in> set rows \<Longrightarrow> held t (o_id r) w'"
    and "distinct (map o_id (outbox w)) \<Longrightarrow> distinct (map o_id (outbox w'))"
proof -
  note c = claim_unfold [OF assms(1)]
  have rows: "outbox w' = update_rows (\<lambda>r. o_id r \<in> set (claimed_ids now batch w)) (claimed_row worker now) (outbox w)"
    by (simp add: c(1))
  show "held t i w'" if h: "held t i w"
  proof -
    obtain r u where r: "r \<in> set (outbox w)" "o_id r = i" "o_locked_at r = Some u" "t \<le> u"
      using h by (auto simp: held_def)
    then show ?thesis
      unfolding held_def c(1)
      by (intro bexI [of _ "if o_id r \<in> set (claimed_ids now batch w) then claimed_row worker now r else r"])
        (simp_all add: set_update_rows claimed_row_def assms(2))
  qed
  show "held t (o_id r) w'" if "r \<in> set rows"
  proof -
    have "r \<in> set (outbox w')" and i: "o_id r \<in> set (claimed_ids now batch w)" using that by (simp_all add: c(2))
    then obtain r0 where "r = (if o_id r0 \<in> set (claimed_ids now batch w) then claimed_row worker now r0 else r0)"
      unfolding rows set_update_rows by blast
    then have "o_locked_at r = Some now" using i by (auto simp: claimed_row_def split: if_splits)
    then show ?thesis using \<open>r \<in> set (outbox w')\<close> assms(2) by (auto simp: held_def)
  qed
  show "distinct (map o_id (outbox w'))" if "distinct (map o_id (outbox w))"
    using that unfolding c(1) by (simp add: update_rows_keys claimed_row_def)
qed

lemma claim_all_disjoint:
  assumes "list_all (\<lambda>(worker, now, batch). t \<le> now \<and> now \<le> t + minute) cs" and "distinct (map o_id (outbox w))"
  shows "distinct (map o_id (claim_all cs w)) \<and> (\<forall>i. held t i w \<longrightarrow> i \<notin> o_id ` set (claim_all cs w))"
  using assms
proof (induction cs arbitrary: w)
  case Nil
  then show ?case by simp
next
  case (Cons c cs)
  obtain worker now batch where c: "c = (worker, now, batch)" by (cases c) auto
  obtain w' rows where cl: "claim_pending_outbox worker now batch w = (w', rows)" by fastforce
  have t: "t \<le> now" "now \<le> t + minute" using Cons.prems(1) by (simp_all add: c)
  note h = claim_holds [OF cl t(1)]
  have IH: "distinct (map o_id (claim_all cs w'))" "\<forall>i. held t i w' \<longrightarrow> i \<notin> o_id ` set (claim_all cs w')"
    using Cons.IH [of w'] Cons.prems h(3) by simp_all
  have "distinct (map o_id rows)"
    using h(3) [OF Cons.prems(2)] claim_unfold(2) [OF cl] by (simp add: distinct_map_filter)
  moreover have "o_id r \<notin> o_id ` set (claim_all cs w')" if "r \<in> set rows" for r
    using IH(2) h(2) that by blast
  moreover have "i \<notin> o_id ` set rows" if "held t i w" for i
    using held_not_claimed [OF that Cons.prems(2) t(2)] claim_unfold(2) [OF cl] by auto
  moreover have "i \<notin> o_id ` set (claim_all cs w')" if "held t i w" for i
    using IH(2) h(1) that by blast
  ultimately show ?case using IH(1) by (simp add: c cl) blast
qed

text \<open>
  Property C21: within one minute no event is handed out twice, however many publishers claim and in
  whatever order: all the events their claims return are distinct.
\<close>

theorem claims_exclusive:
  assumes "list_all (\<lambda>(worker, now, batch). t \<le> now \<and> now \<le> t + minute) cs" and "distinct (map o_id (outbox w))"
  shows "distinct (map o_id (claim_all cs w))"
  using claim_all_disjoint [OF assms] by blast

theorem claims_exclusive_witness:
  "distinct (map o_id (claim_all [(U ''w1'', 300, 1), (U ''w2'', 301, 5)]
     \<lparr>documents = [], outbox = [event_row 100 1 7 (U ''t'') (PInt 1) None, event_row 101 2 8 (U ''t'') (PInt 1) None]\<rparr>))"
  by (rule claims_exclusive [where t = 300]) (simp_all add: minute_def event_row_def)

subsection \<open>Published events\<close>

lemma find_row_map:
  "\<forall>r. key (upd r) = key r \<Longrightarrow> find_row key k (map upd rows) = map_option upd (find_row key k rows)"
  by (induction rows) (auto simp: find_row_def)

definition published_event :: "uuid \<Rightarrow> db \<Rightarrow> bool" where
  "published_event i w \<longleftrightarrow>
     (case find_row o_id i (outbox w) of Some r \<Rightarrow> o_published_at r \<noteq> None | None \<Rightarrow> False)"

lemma step_published:
  assumes "store_step P w w'" and "published_event i w"
  shows "published_event i w'"
proof -
  obtain upd new where o: "outbox w' = map upd (outbox w) @ new" "\<forall>r. o_id (upd r) = o_id r"
      "\<forall>r. o_published_at r \<noteq> None \<longrightarrow> o_published_at (upd r) \<noteq> None"
    using step_outbox [OF assms(1)] by metis
  obtain r where "find_row o_id i (outbox w) = Some r" "o_published_at r \<noteq> None"
    using assms(2) by (auto simp: published_event_def split: option.splits)
  then show ?thesis using o by (auto simp: published_event_def store_simps find_row_map [OF o(2)])
qed

lemma steps_published: "(store_step P)\<^sup>*\<^sup>* w w' \<Longrightarrow> published_event i w \<Longrightarrow> published_event i w'"
  by (induction rule: rtranclp_induct) (auto intro: step_published)

lemma published_not_claimed:
  assumes "published_event i w" and "distinct (map o_id (outbox w))"
  shows "i \<notin> set (claimed_ids now batch w)"
proof
  assume "i \<in> set (claimed_ids now batch w)"
  then obtain r where r: "r \<in> set (outbox w)" "o_id r = i" "claimable now r" by (rule claimed_id_from)
  then have "find_row o_id i (outbox w) = Some r" using find_row_in [OF assms(2)] by blast
  then show False using assms(1) r(3) by (simp add: published_event_def claimable_def)
qed

text \<open>
  An event marked published is published for good: after any further operations of any
  process it is never claimed again.
\<close>

lemma published_never_reclaimed:
  assumes "find_row o_id i (outbox w) \<noteq> None" and "distinct (map o_id (outbox w))"
    and "(store_step P)\<^sup>*\<^sup>* (mark_published now i w) w'"
  shows "i \<notin> set (claimed_ids now' batch w')"
proof -
  have "published_event i (mark_published now i w)"
  proof -
    obtain r where r: "find_row o_id i (outbox w) = Some r" using assms(1) by blast
    then have "o_id r = i" using find_row_Some by metis
    then show ?thesis by (simp add: published_event_def mark_published_def store_simps r)
  qed
  then have "published_event i w'" by (rule steps_published [OF assms(3)])
  moreover have "distinct (map o_id (outbox (mark_published now i w)))"
    using assms(2) by (simp add: mark_published_def update_rows_keys)
  then have "distinct (map o_id (outbox w'))" using events.opers_keys [OF assms(3)] by blast
  ultimately show ?thesis by (rule published_not_claimed)
qed

lemma published_never_reclaimed_example:
  "1 \<notin> set (claimed_ids 999999999 5 (mark_published 300 1
     \<lparr>documents = [], outbox = [event_row 100 1 7 (U ''t'') (PInt 1) None]\<rparr>))"
  by (rule published_never_reclaimed [where P = demo_pg and i = 1 and now = 300
      and w = "\<lparr>documents = [], outbox = [event_row 100 1 7 (U ''t'') (PInt 1) None]\<rparr>"])
    (simp_all add: find_row_def event_row_def)

subsection \<open>Purging keeps the queue of the expired as it is\<close>

lemma insort_key_map:
  "(\<And>x. f (g x) = f x) \<Longrightarrow> insort_key f (g x) (map g xs) = map g (insort_key f x xs)"
  by (induction xs) auto

lemma sort_key_map: "(\<And>x. f (g x) = f x) \<Longrightarrow> sort_key f (map g xs) = map g (sort_key f xs)"
  by (induction xs) (simp_all add: insort_key_map)

lemma list_expired_purge:
  "list_expired_documents older (purge_document_results now ids w) = list_expired_documents older w"
proof -
  let ?p = "\<lambda>r. if d_id r \<in> set ids then r\<lparr>d_result := None, d_error_message := None, d_updated_at := now\<rparr> else r"
  have e: "expired older (?p r) = expired older r" for r by (simp add: expired_def)
  have "filter (expired older) (map ?p (documents w)) = map ?p (filter (expired older) (documents w))"
    by (simp only: filter_map comp_def e)
  moreover have s: "sort_key (\<lambda>r. the (d_processed_at r)) (map ?p rows) = map ?p (sort_key (\<lambda>r. the (d_processed_at r)) rows)"
    for rows :: "drow list" by (rule sort_key_map) simp
  moreover have "map d_id (take n (map ?p rows)) = map d_id (take n rows)" for n and rows :: "drow list"
    by (simp only: take_map map_map comp_def) simp
  moreover have "documents (purge_document_results now ids w) = map ?p (documents w)"
    by (simp add: purge_document_results_def update_rows_def)
  ultimately show ?thesis by (simp only: list_expired_documents_def)
qed

end
