(* ===== verification/Ocr_Envelope.thy ===== *)
theory Ocr_Envelope
  imports Ocr_Store
begin

text \<open>
  The event envelope (\<open>events/envelope.py\<close>): the dictionary published for a processed document.
  The identifier and the time drawn by the function are its arguments.
\<close>

record stamp =
  st_now :: int
  st_row_id :: uuid
  st_event_id :: uuid
  st_occurred_at :: pystr

definition build_envelope :: "stamp \<Rightarrow> document_row \<Rightarrow> pystr \<Rightarrow> pyv option \<Rightarrow> pyv option \<Rightarrow> pyv" where
  "build_envelope s doc status result err = PDict
     ([(U ''schema_version'', PStr (U ''1.0'')),
       (U ''event_id'', PStr (uuid_str (st_event_id s))),
       (U ''event_type'', PStr (U ''document.processed'')),
       (U ''occurred_at'', PStr (st_occurred_at s)),
       (U ''document_id'', PStr (uuid_str (dw_id doc))),
       (U ''external_ref'', PStr (dw_external_ref doc)),
       (U ''caller_id'', PStr (dw_caller_id doc)),
       (U ''idempotency_key'', dw_idempotency_key doc),
       (U ''producer'', PStr (U ''ocr''))]
      @ (if status = U ''completed'' \<or> status = U ''needs_review''
         then [(U ''data'', case result of Some r \<Rightarrow> r | None \<Rightarrow> PNone)] else [])
      @ (if status = U ''failed'' then (case err of Some e \<Rightarrow> [(U ''error'', e)] | None \<Rightarrow> []) else []))"

definition item :: "string \<Rightarrow> pyv \<Rightarrow> pyv option" where
  "item k v = (case v of PDict kvs \<Rightarrow> map_of kvs (U k) | _ \<Rightarrow> None)"

definition error_dict :: "pystr \<Rightarrow> pystr \<Rightarrow> pyv" where
  "error_dict code message = PDict [(U ''code'', PStr code), (U ''message'', PStr message)]"

lemma envelope_serialisable:
  "serialisable (build_envelope s doc status result err) \<longleftrightarrow>
     serialisable (dw_idempotency_key doc)
     \<and> (status = U ''completed'' \<or> status = U ''needs_review'' \<longrightarrow>
          (case result of Some r \<Rightarrow> serialisable r | None \<Rightarrow> True))
     \<and> (status = U ''failed'' \<longrightarrow> (case err of Some e \<Rightarrow> serialisable e | None \<Rightarrow> True))"
  by (auto simp: build_envelope_def split: option.splits)

lemma envelope_event_id: "item ''event_id'' (build_envelope s doc status result err) = Some (PStr (uuid_str (st_event_id s)))"
  by (simp add: item_def build_envelope_def)

text \<open>
  The envelope of a terminal document carries either its data or its error, never both
  and never neither: the data exactly for \<open>completed\<close> and \<open>needs_review\<close>, the error exactly for
  \<open>failed\<close>. What it echoes, reference, caller, key and document, are those of the row.
\<close>

lemma envelope_data_or_error:
  assumes "status \<in> set terminal_statuses" and "status = U ''failed'' \<longleftrightarrow> err \<noteq> None"
    and "status \<noteq> U ''failed'' \<longleftrightarrow> result \<noteq> None"
  shows "(item ''data'' (build_envelope s doc status result err) = result)
    \<and> item ''error'' (build_envelope s doc status result err) = err
    \<and> (item ''data'' (build_envelope s doc status result err) = None
         \<longleftrightarrow> item ''error'' (build_envelope s doc status result err) \<noteq> None)
    \<and> item ''document_id'' (build_envelope s doc status result err) = Some (PStr (uuid_str (dw_id doc)))
    \<and> item ''external_ref'' (build_envelope s doc status result err) = Some (PStr (dw_external_ref doc))
    \<and> item ''caller_id'' (build_envelope s doc status result err) = Some (PStr (dw_caller_id doc))
    \<and> item ''idempotency_key'' (build_envelope s doc status result err) = Some (dw_idempotency_key doc)"
proof (cases "status = U ''failed''")
  case True
  then obtain e where "err = Some e" "result = None" using assms by auto
  with True show ?thesis by (simp add: item_def build_envelope_def)
next
  case False
  then obtain r where "err = None" "result = Some r" and "status = U ''completed'' \<or> status = U ''needs_review''"
    using assms by (auto simp: terminal_statuses_def)
  with False show ?thesis by (auto simp: item_def build_envelope_def)
qed

definition demo_stamp :: stamp where
  "demo_stamp = \<lparr>st_now = 500, st_row_id = 11, st_event_id = 12, st_occurred_at = U ''2026-01-01T00:00:00Z''\<rparr>"

lemma envelope_data_or_error_example:
  "item ''error'' (build_envelope demo_stamp (row_to_document demo_pg demo_row) (U ''failed'') None
     (Some (error_dict (U ''INTERNAL'') []))) = Some (error_dict (U ''INTERNAL'') [])"
  using envelope_data_or_error [of "U ''failed''" "Some (error_dict (U ''INTERNAL'') [])" None
      demo_stamp "row_to_document demo_pg demo_row"]
  by (simp add: terminal_statuses_def)

end
