(* ===== verification/Ocr_Publisher.thy ===== *)
theory Ocr_Publisher
  imports Ocr_Envelope
begin

text \<open>
  The outbox publisher (\<open>events/publisher.py\<close>): one tick claims a batch, hands each event to the
  Kafka producer and marks it published; the loop goes on after a failed tick. The producer is a
  parameter: \<open>produce\<close> may refuse a message (a full buffer), and the broker decides later whether
  an accepted message is delivered; the delivery report only counts.
\<close>

record message =
  mg_topic :: pystr
  mg_key :: pystr
  mg_value :: pyv
  mg_headers :: "(string \<times> pystr) list"

record kafka =
  produce :: "message \<Rightarrow> exn option"
  delivers :: "message \<Rightarrow> bool"

text \<open>The publisher's state: the database, the messages accepted and the two counters.\<close>

record pubstate =
  p_db :: db
  p_sent :: "message list"
  p_ok :: nat
  p_failed :: nat

definition headers :: "interp \<Rightarrow> orow \<Rightarrow> pyv \<Rightarrow> (string \<times> pystr) list res" where
  "headers I row event =
     rbind (py_item event (U ''event_id'')) (\<lambda>eid.
     rbind (py_item event (U ''event_type'')) (\<lambda>ety.
       Inr ([(''event-id'', py_str I eid), (''event-type'', py_str I ety), (''event-version'', U ''1''),
             (''source-service'', U ''ocr''), (''aggregate-type'', U ''document''),
             (''aggregate-id'', uuid_str (o_aggregate_id row))]
            @ (case o_trace_id row of Some t \<Rightarrow> if t \<noteq> [] then [(''trace-id'', t)] else [] | None \<Rightarrow> []))))"

definition on_delivery :: "kafka \<Rightarrow> message \<Rightarrow> pubstate \<Rightarrow> pubstate" where
  "on_delivery K m p =
     (if delivers K m then p\<lparr>p_ok := p_ok p + 1\<rparr> else p\<lparr>p_failed := p_failed p + 1\<rparr>)"

definition message_of :: "interp \<Rightarrow> pystr \<Rightarrow> orow \<Rightarrow> message res" where
  "message_of I topic_default row =
     rbind (headers I row (o_payload row)) (\<lambda>hs.
       Inr \<lparr>mg_topic = (if o_topic row \<noteq> [] then o_topic row else topic_default),
            mg_key = uuid_str (o_aggregate_id row), mg_value = o_payload row, mg_headers = hs\<rparr>)"

fun publish_rows :: "interp \<Rightarrow> kafka \<Rightarrow> pystr \<Rightarrow> int \<Rightarrow> orow list \<Rightarrow> nat \<Rightarrow> pubstate \<Rightarrow> pubstate \<times> nat res" where
  "publish_rows I K topic now [] published p = (p, Inr published)"
| "publish_rows I K topic now (row # rows) published p =
     (case message_of I topic row of
        Inl e \<Rightarrow> (p, Inl e)
      | Inr m \<Rightarrow>
          (case produce K m of
             Some e \<Rightarrow> (p, Inl e)
           | None \<Rightarrow>
               publish_rows I K topic now rows (published + 1)
                 (on_delivery K m (p\<lparr>p_sent := p_sent p @ [m], p_db := mark_published now (o_id row) (p_db p)\<rparr>))))"

definition poll_once :: "interp \<Rightarrow> kafka \<Rightarrow> pystr \<Rightarrow> pystr \<Rightarrow> int \<Rightarrow> nat \<Rightarrow> pubstate \<Rightarrow> pubstate \<times> nat res" where
  "poll_once I K topic worker now batch p =
     (case claim_pending_outbox worker now batch (p_db p) of
        (w', rows) \<Rightarrow> publish_rows I K topic now rows 0 (p\<lparr>p_db := w'\<rparr>))"

text \<open>\<open>run\<close>: one tick per element until the stop event; a failed tick is logged and forgotten.\<close>

fun run_publisher :: "interp \<Rightarrow> kafka \<Rightarrow> pystr \<Rightarrow> pystr \<Rightarrow> int list \<Rightarrow> pubstate \<Rightarrow> pubstate" where
  "run_publisher I K topic worker [] p = p"
| "run_publisher I K topic worker (now # ticks) p =
     run_publisher I K topic worker ticks (fst (poll_once I K topic worker now 100 p))"

subsection \<open>What a tick does\<close>

text \<open>An event with the two entries the headers need.\<close>

definition well_formed_event :: "pyv \<Rightarrow> bool" where
  "well_formed_event v \<longleftrightarrow> item ''event_id'' v \<noteq> None \<and> item ''event_type'' v \<noteq> None"

lemma envelope_well_formed: "well_formed_event (build_envelope s doc status result err)"
  by (simp add: well_formed_event_def item_def build_envelope_def)

lemma message_of_well_formed:
  assumes "well_formed_event (o_payload row)"
  obtains m where "message_of I topic row = Inr m" and "mg_value m = o_payload row"
    and "mg_key m = uuid_str (o_aggregate_id row)"
  using assms
  by (cases "o_payload row") (auto simp: well_formed_event_def item_def message_of_def headers_def)

lemma on_delivery_facts [simp]:
  "p_db (on_delivery K m p) = p_db p" "p_sent (on_delivery K m p) = p_sent p"
  by (simp_all add: on_delivery_def)

definition publish_all :: "int \<Rightarrow> orow list \<Rightarrow> db \<Rightarrow> db" where
  "publish_all now rows w = foldl (\<lambda>w r. mark_published now (o_id r) w) w rows"

lemma publish_rows_ok:
  assumes "\<forall>row \<in> set rows. well_formed_event (o_payload row)" and "\<forall>m. produce K m = None"
  shows "\<exists>ms p'. publish_rows I K topic now rows n p = (p', Inr (n + length rows))
      \<and> p_sent p' = p_sent p @ ms \<and> p_db p' = publish_all now rows (p_db p)
      \<and> list_all2 (\<lambda>m row. mg_value m = o_payload row \<and> mg_key m = uuid_str (o_aggregate_id row)) ms rows"
  using assms(1)
proof (induction rows arbitrary: n p)
  case Nil
  then show ?case by (simp add: publish_all_def)
next
  case (Cons row rows)
  then obtain m where m: "message_of I topic row = Inr m" "mg_value m = o_payload row"
      "mg_key m = uuid_str (o_aggregate_id row)"
    using message_of_well_formed [of row] by (metis list.set_intros(1))
  let ?q = "on_delivery K m (p\<lparr>p_sent := p_sent p @ [m], p_db := mark_published now (o_id row) (p_db p)\<rparr>)"
  obtain ms p' where IH: "publish_rows I K topic now rows (n + 1) ?q = (p', Inr (n + 1 + length rows))"
      "p_sent p' = p_sent ?q @ ms" "p_db p' = publish_all now rows (p_db ?q)"
      "list_all2 (\<lambda>m row. mg_value m = o_payload row \<and> mg_key m = uuid_str (o_aggregate_id row)) ms rows"
    using Cons.IH [of "n + 1" ?q] Cons.prems by auto
  then show ?case using m assms(2)
    by (intro exI [of _ "m # ms"] exI [of _ p']) (simp add: publish_all_def)
qed

lemma mark_published_find:
  "find_row o_id i (outbox (mark_published now j w)) =
     map_option (\<lambda>r. if o_id r = j then r\<lparr>o_published_at := Some now, o_locked_by := None, o_locked_at := None\<rparr> else r)
       (find_row o_id i (outbox w))"
  by (simp add: mark_published_def store_simps)

lemma publish_all_published:
  "find_row o_id i (outbox w) \<noteq> None \<Longrightarrow> i \<in> o_id ` set rows \<or> published_event i w \<Longrightarrow>
     published_event i (publish_all now rows w)"
proof (induction rows arbitrary: w)
  case Nil
  then show ?case by (simp add: publish_all_def)
next
  case (Cons row rows)
  let ?w = "mark_published now (o_id row) w"
  obtain r where r: "find_row o_id i (outbox w) = Some r" using Cons.prems(1) by blast
  then have "o_id r = i" using find_row_Some by metis
  then have "i \<in> o_id ` set rows \<or> published_event i ?w"
    using Cons.prems(2) r by (auto simp: published_event_def mark_published_find)
  moreover have "find_row o_id i (outbox ?w) \<noteq> None" using r by (simp add: mark_published_find)
  ultimately show ?case using Cons.IH [of ?w] by (simp add: publish_all_def)
qed

lemma claim_db_keys:
  assumes "claim_pending_outbox worker now batch w = (w', rows)"
  shows "map o_id (outbox w') = map o_id (outbox w)" and "map o_payload (outbox w') = map o_payload (outbox w)"
  using claim_unfold(1) [OF assms] by (simp_all add: update_rows_keys claimed_row_def)

lemma claimed_all:
  assumes "length (filter (claimable now) (outbox w)) \<le> batch" and "r \<in> set (outbox w)" and "claimable now r"
  shows "o_id r \<in> set (claimed_ids now batch w)"
  using assms by (simp add: claimed_ids_def)

text \<open>
  When the producer accepts messages, a tick sends one message for every event it
  claimed, in the order of the claim, with the event as value and the document as key, reports
  their number, and leaves them published; if no more events are pending than the batch holds,
  every pending event is published by the tick.
\<close>

lemma poll_once_publishes:
  assumes "list_all (\<lambda>r. well_formed_event (o_payload r)) (outbox (p_db p))" and "\<forall>m. produce K m = None"
    and "distinct (map o_id (outbox (p_db p)))" and "claim_pending_outbox worker now batch (p_db p) = (w', rows)"
  shows "case poll_once I K topic worker now batch p of
      (p', r) \<Rightarrow> r = Inr (length rows)
        \<and> (\<exists>ms. p_sent p' = p_sent p @ ms
             \<and> list_all2 (\<lambda>m row. mg_value m = o_payload row \<and> mg_key m = uuid_str (o_aggregate_id row)) ms rows)
        \<and> list_all (\<lambda>row. published_event (o_id row) (p_db p')) rows
        \<and> (length (filter (claimable now) (outbox (p_db p))) \<le> batch \<longrightarrow>
             list_all (\<lambda>row. published_event (o_id row) (p_db p')) (filter (claimable now) (outbox (p_db p))))"
proof -
  note c = claim_unfold [OF assms(4)] and keys = claim_db_keys [OF assms(4)]
  have "\<forall>r \<in> set (outbox w'). well_formed_event (o_payload r)"
    using assms(1) keys(2) unfolding list_all_iff by (metis (no_types, lifting) imageE image_eqI list.set_map)
  then have wf: "\<forall>row \<in> set rows. well_formed_event (o_payload row)" by (simp add: c(2))
  obtain ms p' where p': "publish_rows I K topic now rows 0 (p\<lparr>p_db := w'\<rparr>) = (p', Inr (0 + length rows))"
      "p_sent p' = p_sent p @ ms" "p_db p' = publish_all now rows w'"
      "list_all2 (\<lambda>m row. mg_value m = o_payload row \<and> mg_key m = uuid_str (o_aggregate_id row)) ms rows"
    using publish_rows_ok [OF wf assms(2), of I topic now 0 "p\<lparr>p_db := w'\<rparr>"] by auto
  have pub: "published_event i (p_db p')" if "i \<in> o_id ` set rows" for i
  proof -
    have "i \<in> o_id ` set (outbox w')" using that by (auto simp: c(2))
    then have "find_row o_id i (outbox w') \<noteq> None" by (simp add: find_row_None)
    then show ?thesis using that unfolding p'(3) by (intro publish_all_published) auto
  qed
  have "published_event (o_id row) (p_db p')"
    if "length (filter (claimable now) (outbox (p_db p))) \<le> batch" "row \<in> set (outbox (p_db p))" "claimable now row" for row
  proof (rule pub)
    have "o_id row \<in> set (claimed_ids now batch (p_db p))" using claimed_all that by blast
    moreover have "o_id row \<in> o_id ` set (outbox w')" using that(2) keys(1) by (metis image_eqI list.set_map)
    ultimately show "o_id row \<in> o_id ` set rows" by (auto simp: c(2))
  qed
  with p' pub show ?thesis by (auto simp: poll_once_def assms(4) list_all_iff)
qed

definition demo_doc :: document_row where
  "demo_doc = row_to_document demo_pg demo_row"

definition demo_event :: orow where
  "demo_event = event_row 100 1 7 (U ''t'') (build_envelope demo_stamp demo_doc (U ''failed'') None None) None"

definition demo_pub :: pubstate where
  "demo_pub = \<lparr>p_db = \<lparr>documents = [], outbox = [demo_event]\<rparr>, p_sent = [], p_ok = 0, p_failed = 0\<rparr>"

definition lossy_kafka :: kafka where
  "lossy_kafka = \<lparr>produce = (\<lambda>_. None), delivers = (\<lambda>_. False)\<rparr>"

lemma demo_pub_claim:
  "claim_pending_outbox (U ''w1'') 300 100 (p_db demo_pub) =
     (\<lparr>documents = [], outbox = [claimed_row (U ''w1'') 300 demo_event]\<rparr>, [claimed_row (U ''w1'') 300 demo_event])"
  by (simp add: demo_pub_def demo_event_def claim_pending_outbox_def claimed_ids_def claimable_def event_row_def
      update_rows_def claimed_row_def Let_def)

lemma demo_event_wf: "well_formed_event (o_payload demo_event)"
  by (simp add: demo_event_def event_row_def envelope_well_formed)

lemma poll_once_publishes_example:
  "snd (poll_once id_interp lossy_kafka (U ''t'') (U ''w1'') 300 100 demo_pub) = Inr 1"
proof -
  have "list_all (\<lambda>r. well_formed_event (o_payload r)) (outbox (p_db demo_pub))"
    using demo_event_wf by (simp add: demo_pub_def)
  moreover have "\<forall>m. produce lossy_kafka m = None" by (simp add: lossy_kafka_def)
  moreover have "distinct (map o_id (outbox (p_db demo_pub)))" by (simp add: demo_pub_def)
  ultimately show ?thesis
    using poll_once_publishes [OF _ _ _ demo_pub_claim, of lossy_kafka id_interp "U ''t''"]
    by (auto split: prod.splits)
qed

lemma publish_rows_delivers:
  "p_db q = p_db p \<Longrightarrow>
     p_db (fst (publish_rows I (K\<lparr>delivers := d\<rparr>) topic now rows n q)) = p_db (fst (publish_rows I K topic now rows n p))"
proof (induction rows arbitrary: n p q)
  case Nil
  then show ?case by simp
next
  case (Cons row rows)
  then show ?case by (auto split: sum.splits option.splits intro!: Cons.IH)
qed

text \<open>
  The database does not wait for the broker. Whatever the broker does with the
  messages, a tick leaves the same database, so an event whose delivery fails is already marked
  published, and by the permanence of that mark no later claim returns it: it is lost. (The
  README says that an event is published only after the broker has acknowledged it.)
\<close>

lemma published_without_ack:
  "p_db (fst (poll_once I (K\<lparr>delivers := d\<rparr>) topic worker now batch p)) = p_db (fst (poll_once I K topic worker now batch p))"
  by (simp add: poll_once_def publish_rows_delivers split: prod.split)

end
