(* ===== verification/Ocr_Uuid.thy ===== *)
theory Ocr_Uuid
  imports Ocr_Python
begin

text \<open>
  The texts of UUIDs: \<open>str(uuid)\<close> is in the theory of Python values, here are \<open>uuid.UUID(text)\<close> and
  the fact that the one reads what the other writes.
\<close>

subsection \<open>Reading a UUID\<close>

text \<open>
  \<open>uuid.UUID(text)\<close>: the prefixes \<open>urn:\<close> and \<open>uuid:\<close>, surrounding braces and all hyphens are
  dropped, what remains has 32 characters and is read by \<open>int(hex, 16)\<close>, which allows white
  space around the digits, a sign, the prefix \<open>0x\<close>, single underscores and the digits of any
  script.
\<close>

function drop_all :: "pystr \<Rightarrow> pystr \<Rightarrow> pystr" where
  "drop_all pat s =
     (if pat = [] \<or> s = [] then s
      else if py_startswith s pat then drop_all pat (drop (length pat) s)
      else hd s # drop_all pat (tl s))"
  by pat_completeness auto
termination
  by (relation "measure (\<lambda>(pat, s). length s)") auto

declare drop_all.simps [simp del]

definition hex_val :: "int \<Rightarrow> int option" where
  "hex_val c =
     (if 97 \<le> c \<and> c \<le> 102 then Some (c - 87)
      else if 65 \<le> c \<and> c \<le> 70 then Some (c - 55)
      else digit_val c)"

definition hex_value :: "pystr \<Rightarrow> int" where
  "hex_value s = foldl (\<lambda>v c. 16 * v + (case hex_val c of Some d \<Rightarrow> d | None \<Rightarrow> 0)) 0 s"

definition py_int16 :: "pystr \<Rightarrow> int option" where
  "py_int16 s =
     (let t = rev (dropWhile int_space (rev (dropWhile int_space s)));
          signed = (case t of c # u \<Rightarrow> if c = 45 \<or> c = 43 then u else t | [] \<Rightarrow> []);
          prefixed = length signed \<ge> 2 \<and> signed ! 0 = 48 \<and> (signed ! 1 = 120 \<or> signed ! 1 = 88);
          tail = (if prefixed then drop 2 signed else signed);
          body = (if prefixed \<and> tail \<noteq> [] \<and> hd tail = 95 then tl tail else tail);
          parts = py_split 95 body;
          v = hex_value (concat parts)
      in if list_all (\<lambda>w. w \<noteq> [] \<and> list_all (\<lambda>c. hex_val c \<noteq> None) w) parts
         then Some (case t of c # u \<Rightarrow> if c = 45 then - v else v | [] \<Rightarrow> v)
         else None)"

definition py_uuid :: "pystr \<Rightarrow> uuid option" where
  "py_uuid s =
     (let hex = filter (\<lambda>c. c \<noteq> 45)
            (let t = drop_all (U ''uuid:'') (drop_all (U ''urn:'') s)
             in rev (dropWhile (\<lambda>c. c = 123 \<or> c = 125) (rev (dropWhile (\<lambda>c. c = 123 \<or> c = 125) t))))
      in if length hex \<noteq> 32 then None
         else (case py_int16 hex of
                 None \<Rightarrow> None
               | Some n \<Rightarrow> if 0 \<le> n \<and> n < 2 ^ 128 then Some (of_int n) else None))"

subsection \<open>The text of a UUID reads back as the UUID\<close>

lemma drop_all_absent: "pat \<noteq> [] \<Longrightarrow> hd pat \<notin> set s \<Longrightarrow> drop_all pat s = s"
proof (induction s)
  case Nil
  then show ?case by (simp add: drop_all.simps)
next
  case (Cons c s)
  have "\<not> py_startswith (c # s) pat"
    using Cons.prems by (cases pat) (auto simp: py_startswith_def)
  then show ?case using Cons by (subst drop_all.simps) simp
qed

lemma hex_digits_Suc: "hex_digits (Suc w) n = hex_digits w (n div 16) @ [hex_char (n mod 16)]"
  by (auto simp: hex_digits_def Suc_diff_le zdiv_zmult2_eq [symmetric] intro!: map_cong)
    (metis One_nat_def Suc_diff_Suc power_Suc)

lemma hex_char_val: "0 \<le> d \<Longrightarrow> d < 16 \<Longrightarrow> hex_val (hex_char d) = Some d"
  by (auto simp: hex_val_def hex_char_def digit_val_def)

lemma hex_char_set: "0 \<le> d \<Longrightarrow> d < 16 \<Longrightarrow> hex_char d \<in> {48..57} \<union> {97..102}"
  by (auto simp: hex_char_def)

lemma hex_value_digits: "0 \<le> n \<Longrightarrow> hex_value (hex_digits w n) = n mod 16 ^ w"
proof (induction w arbitrary: n)
  case 0
  then show ?case by (simp add: hex_digits_def hex_value_def)
next
  case (Suc w)
  have "hex_value (hex_digits (Suc w) n) = 16 * hex_value (hex_digits w (n div 16)) + n mod 16"
    by (simp add: hex_digits_Suc hex_value_def hex_char_val)
  also have "\<dots> = 16 * (n div 16 mod 16 ^ w) + n mod 16" using Suc by simp
  also have "\<dots> = n mod 16 ^ Suc w" by (simp add: zmod_zmult2_eq)
  finally show ?case .
qed

lemma hex_digits_set: "set (hex_digits w n) \<subseteq> {48..57} \<union> {97..102}"
  by (auto simp: hex_digits_def hex_char_def)


lemma dropWhile_none: "\<forall>c \<in> set s. \<not> P c \<Longrightarrow> dropWhile P s = s"
  by (cases s) auto

lemma py_int16_hex:
  assumes "h \<noteq> []" and "set h \<subseteq> {48..57} \<union> {97..102}"
  shows "py_int16 h = Some (hex_value h)"
proof -
  have c: "\<not> int_space c \<and> c \<noteq> 45 \<and> c \<noteq> 43 \<and> c \<noteq> 120 \<and> c \<noteq> 88 \<and> c \<noteq> 95 \<and> hex_val c \<noteq> None"
    if "c \<in> set h" for c
    using assms(2) that by (auto simp: int_space_def is_space_def hex_val_def digit_val_def)
  have x: "hd h \<in> set h" using assms(1) by simp
  have t: "rev (dropWhile int_space (rev (dropWhile int_space h))) = h"
    using c by (simp add: dropWhile_none)
  have signed: "(case h of c # u \<Rightarrow> if c = 45 \<or> c = 43 then u else h | [] \<Rightarrow> []) = h"
    and sign: "(case h of c # u \<Rightarrow> if c = 45 then - v else v | [] \<Rightarrow> v) = v" for v :: int
    using c [OF x] assms(1) by (cases h; simp)+
  have prefixed: "(length h \<ge> 2 \<and> h ! 0 = 48 \<and> (h ! 1 = 120 \<or> h ! 1 = 88)) = False"
    using c nth_mem [of 1 h] by auto
  have parts: "py_split 95 h = [h]" using c by (intro py_split_no_sep_id) auto
  have "list_all (\<lambda>c. hex_val c \<noteq> None) h" using c by (auto simp: list_all_iff)
  then show ?thesis
    unfolding py_int16_def Let_def t signed prefixed by (simp add: parts sign assms(1))
qed

lemma uuid_str_filter: "filter (\<lambda>c. c \<noteq> 45) (uuid_str u) = hex_digits 32 (uint u)"
proof -
  let ?h = "hex_digits 32 (uint u)"
  have f: "filter (\<lambda>c. c \<noteq> 45) s = s" if "set s \<subseteq> set ?h" for s
    using that hex_digits_set [of 32 "uint u"] by (intro filter_True) auto
  have cut: "drop a ?h = take 4 (drop a ?h) @ drop (4 + a) ?h" for a
    using append_take_drop_id [of 4 "drop a ?h"] by (simp only: drop_drop)
  have "?h = take 8 ?h @ drop 8 ?h" by simp
  also have "\<dots> = take 8 ?h @ take 4 (drop 8 ?h) @ take 4 (drop 12 ?h) @ take 4 (drop 16 ?h) @ drop 20 ?h"
    using cut [of 8] cut [of 12] cut [of 16] by simp
  finally have "take 8 ?h @ take 4 (drop 8 ?h) @ take 4 (drop 12 ?h) @ take 4 (drop 16 ?h) @ drop 20 ?h = ?h" ..
  moreover have "filter (\<lambda>c. c \<noteq> 45) (uuid_str u) =
      take 8 ?h @ take 4 (drop 8 ?h) @ take 4 (drop 12 ?h) @ take 4 (drop 16 ?h) @ drop 20 ?h"
    by (simp add: uuid_str_def Let_def f set_take_subset set_drop_subset order_trans [OF set_take_subset set_drop_subset])
  ultimately show ?thesis by simp
qed

lemma uuid_str_set: "set (uuid_str u) \<subseteq> insert 45 ({48..57} \<union> {97..102})"
proof -
  have "set (uuid_str u) \<subseteq> insert 45 (set (filter (\<lambda>c. c \<noteq> 45) (uuid_str u)))" by auto
  also have "\<dots> \<subseteq> insert 45 ({48..57} \<union> {97..102})"
    unfolding uuid_str_filter using hex_digits_set [of 32 "uint u"] by blast
  finally show ?thesis .
qed

lemma py_uuid_str: "py_uuid (uuid_str u) = Some u"
proof -
  let ?h = "hex_digits 32 (uint u)"
  have c: "c \<noteq> 117 \<and> c \<noteq> 123 \<and> c \<noteq> 125" if "c \<in> set (uuid_str u)" for c
    using uuid_str_set [of u] that by auto
  then have "drop_all (U ''uuid:'') (drop_all (U ''urn:'') (uuid_str u)) = uuid_str u"
    by (subst (1 2) drop_all_absent) (auto simp: U_def drop_all_absent)
  moreover have "dropWhile (\<lambda>c. c = 123 \<or> c = 125) s = s" if "set s \<subseteq> set (uuid_str u)" for s
    using that c by (intro dropWhile_none) auto
  moreover have "length ?h = 32" by (simp add: hex_digits_def)
  moreover have "py_int16 ?h = Some (uint u)"
  proof -
    have "?h \<noteq> []" using \<open>length ?h = 32\<close> by auto
    moreover have "uint u < 16 ^ 32" using uint_bounded [of u] by simp
    ultimately show ?thesis
      using py_int16_hex [OF _ hex_digits_set] hex_value_digits [of "uint u" 32] by simp
  qed
  ultimately show ?thesis using uint_bounded [of u] by (simp add: py_uuid_def Let_def uuid_str_filter)
qed

end
