(* ===== verification/Ocr_Pipeline.thy ===== *)
theory Ocr_Pipeline
  imports Ocr_Baidu Ocr_Download Ocr_Publisher Ocr_Uuid
begin

text \<open>
  The pipeline (\<open>pipeline/pipeline.py\<close>): one document from download to its terminal row and
  event, with the exception handlers in their order and the clean-up that always runs. The provider
  is any function from an image to lines or an exception; logs and spans are left out, and of the
  metrics (see \<open>Ocr_Metrics\<close>) only the loop over the result's fields stands here, which can raise. The
  semaphore around the recognition stage, which only matters between runs, is in \<open>Ocr_Semaphore\<close>.
\<close>

record env =
  e_settings :: settings
  e_schemas :: schema_map
  e_libs :: libs
  e_media :: media
  e_storage :: storage
  e_provider :: "bytes \<Rightarrow> pystr \<Rightarrow> line list res"
  e_pg :: pg

record world =
  w_io :: io
  w_db :: db

subsection \<open>The stages\<close>

text \<open>The download with the reading of the file, and its exception handlers.\<close>

definition storage_failure :: "exn \<Rightarrow> exn" where
  "storage_failure e =
     (case e of
        StorageObjectMissing m \<Rightarrow> DocumentFailed (U ''STORAGE_OBJECT_MISSING'') m
      | ValueError m \<Rightarrow> DocumentFailed (U ''RESOURCE_LIMIT'') m
      | _ \<Rightarrow> e)"

definition fetch :: "env \<Rightarrow> document_row \<Rightarrow> io \<Rightarrow> io \<times> nat option \<times> bytes res" where
  "fetch E doc w =
     (case download_to_temp (e_storage E) (e_settings E) (dw_source_bucket doc) (dw_source_path doc) [] w of
        (w', Inl e) \<Rightarrow> (w', None, Inl (storage_failure e))
      | (w', Inr f) \<Rightarrow>
          (w', Some f, case read_file f w' of Inl e \<Rightarrow> Inl (storage_failure e) | Inr c \<Rightarrow> Inr c))"

definition inspect_or_fail :: "env \<Rightarrow> bytes \<Rightarrow> inspected res" where
  "inspect_or_fail E content =
     (case inspect_file (e_media E) content (e_settings E) of
        Inl (UnsupportedFileType m) \<Rightarrow> Inl (DocumentFailed (U ''UNSUPPORTED_FILE_TYPE'') m)
      | Inl (ResourceLimit m) \<Rightarrow> Inl (DocumentFailed (U ''RESOURCE_LIMIT'') m)
      | r \<Rightarrow> r)"

definition ocr_lines :: "env \<Rightarrow> bytes \<Rightarrow> pystr \<Rightarrow> (line list \<times> int) res" where
  "ocr_lines E content mime =
     (if mime = U ''application/pdf''
      then rbind (pdf_page_images (e_media E) content (e_settings E)) (\<lambda>images.
           rbind (rmap (\<lambda>image. e_provider E image (U ''image/jpeg'')) images) (\<lambda>lss.
             Inr (concat lss, int (length images))))
      else rbind (downscale_if_needed (e_media E) content (e_settings E)) (\<lambda>image.
           rbind (e_provider E image mime) (\<lambda>ls. Inr (ls, 1))))"

definition recognise :: "env \<Rightarrow> bytes \<Rightarrow> line list res" where
  "recognise E content =
     rbind (inspect_or_fail E content) (\<lambda>meta.
     rbind (digitalborn_lines (e_media E) content) (\<lambda>digital.
       case digital of
         Some ls \<Rightarrow> Inr ls
       | None \<Rightarrow> rbind (ocr_lines E content (i_mime meta)) (\<lambda>r. Inr (fst r))))"

definition extract_and_validate :: "env \<Rightarrow> document_row \<Rightarrow> line list \<Rightarrow> (document_result \<times> pystr) res" where
  "extract_and_validate E doc lines =
     (case map_of (e_schemas E) (dw_doc_type doc) of
        None \<Rightarrow> Inl (DocumentFailed (U ''INTERNAL'')
                  (U ''schema '' @ py_repr (dw_doc_type doc) @ U '' not loaded''))
      | Some sch \<Rightarrow>
          rbind (extract_fields (e_libs E) sch lines) (\<lambda>extracted. build_result sch extracted))"

text \<open>
  The metrics loop over \<open>result.fields\<close>: \<open>field.name\<close> and \<open>field.status\<close> on each element.
\<close>

fun count_fields :: "pyv list \<Rightarrow> unit res" where
  "count_fields [] = Inr ()"
| "count_fields (f # fs) = Inl (no_attr (py_class f) ''name'')"

definition analyse :: "env \<Rightarrow> document_row \<Rightarrow> bytes \<Rightarrow> (document_result \<times> pystr) res" where
  "analyse E doc content =
     rbind (recognise E content) (\<lambda>lines.
     rbind (extract_and_validate E doc lines) (\<lambda>(result, status).
     rbind (count_fields (dr_fields result)) (\<lambda>_. Inr (result, status))))"

definition complete_document :: "env \<Rightarrow> stamp \<Rightarrow> document_row \<Rightarrow> document_result \<Rightarrow> pystr \<Rightarrow> db \<Rightarrow> db \<times> unit res" where
  "complete_document E s doc result status w =
     finish_document (e_pg E) (st_now s) (st_row_id s) (dw_id doc)
       \<lparr>f_status = status, f_result = Some (to_dict result),
        f_avg_confidence = Some (dr_avg_confidence result), f_error_code = None, f_error_message = None\<rparr>
       (build_envelope s doc status (Some (to_dict result)) None) (kafka_topic (e_settings E)) (dw_trace_id doc) w"

definition fail_document :: "env \<Rightarrow> stamp \<Rightarrow> document_row \<Rightarrow> pystr \<Rightarrow> pystr \<Rightarrow> db \<Rightarrow> db \<times> unit res" where
  "fail_document E s doc code message w =
     finish_document (e_pg E) (st_now s) (st_row_id s) (dw_id doc)
       \<lparr>f_status = U ''failed'', f_result = None, f_avg_confidence = None,
        f_error_code = Some code, f_error_message = Some message\<rparr>
       (build_envelope s doc (U ''failed'') None (Some (error_dict code message)))
       (kafka_topic (e_settings E)) (dw_trace_id doc) w"

text \<open>
  The handlers of the outer \<open>try\<close>: the code and message the document fails with, if it fails,
  and the exception that leaves the job afterwards, if one does.
\<close>

definition handler :: "exn \<Rightarrow> (pystr \<times> pystr) option \<times> exn option" where
  "handler e =
     (case e of
        DocumentFailed c m \<Rightarrow> (Some (c, m), None)
      | ProviderTransientError m \<Rightarrow> (None, Some (TransientJobError m))
      | ProviderPermanentError m \<Rightarrow> (Some (U ''INTERNAL'', m), None)
      | UnsupportedFileType m \<Rightarrow> (Some (U ''UNSUPPORTED_FILE_TYPE'', m), None)
      | ResourceLimit m \<Rightarrow> (Some (U ''RESOURCE_LIMIT'', m), None)
      | CancelledError \<Rightarrow> (None, Some CancelledError)
      | _ \<Rightarrow> (Some (U ''INTERNAL'', exn_str e), Some e))"

definition handle :: "env \<Rightarrow> stamp \<Rightarrow> document_row \<Rightarrow> exn \<Rightarrow> db \<Rightarrow> db \<times> unit res" where
  "handle E s doc e w =
     (case handler e of
        (None, out) \<Rightarrow> (w, case out of Some e' \<Rightarrow> Inl e' | None \<Rightarrow> Inr ())
      | (Some (code, message), out) \<Rightarrow>
          (case fail_document E s doc code message w of
             (w', Inl e') \<Rightarrow> (w', Inl e')
           | (w', Inr _) \<Rightarrow> (w', case out of Some e' \<Rightarrow> Inl e' | None \<Rightarrow> Inr ())))"

text \<open>
  \<open>process_document\<close>: \<open>mark_now\<close>, \<open>s1\<close> and \<open>s2\<close> are the times and identifiers drawn by the
  three statements that may write.
\<close>

definition run_stages :: "env \<Rightarrow> stamp \<Rightarrow> stamp \<Rightarrow> document_row \<Rightarrow> world \<Rightarrow> world \<times> unit res" where
  "run_stages E s1 s2 doc w =
     (case fetch E doc (w_io w) of
        (io', tmp, fetched) \<Rightarrow>
          (case rbind fetched (analyse E doc) of
             Inl e \<Rightarrow>
               (case handle E s2 doc e (w_db w) of
                  (db', r) \<Rightarrow> (\<lparr>w_io = cleanup_temp tmp io', w_db = db'\<rparr>, r))
           | Inr (result, status) \<Rightarrow>
               (case complete_document E s1 doc result status (w_db w) of
                  (db', Inr _) \<Rightarrow> (\<lparr>w_io = cleanup_temp tmp io', w_db = db'\<rparr>, Inr ())
                | (db', Inl e) \<Rightarrow>
                    (case handle E s2 doc e db' of
                       (db'', r) \<Rightarrow> (\<lparr>w_io = cleanup_temp tmp io', w_db = db''\<rparr>, r)))))"

definition processable :: "pystr \<Rightarrow> bool" where
  "processable st \<longleftrightarrow> st = U ''queued'' \<or> st = U ''processing''"

definition process_document ::
  "env \<Rightarrow> int \<Rightarrow> stamp \<Rightarrow> stamp \<Rightarrow> pystr \<Rightarrow> world \<Rightarrow> world \<times> unit res" where
  "process_document E mark_now s1 s2 document_id w =
     (case py_uuid document_id of
        None \<Rightarrow> (w, Inl (ValueError (U ''badly formed hexadecimal UUID string'')))
      | Some i \<Rightarrow>
          (case get_document (e_pg E) i (w_db w) of
             None \<Rightarrow> (w, Inr ())
           | Some doc \<Rightarrow>
               if \<not> processable (dw_status doc) then (w, Inr ())
               else run_stages E s1 s2 doc (w\<lparr>w_db := mark_processing mark_now (dw_id doc) (w_db w)\<rparr>)))"

subsection \<open>What the analysis gives\<close>

lemma analyse_Inr:
  assumes "analyse E doc content = Inr (r, st)"
  obtains lines sch es where "recognise E content = Inr lines"
    and "map_of (e_schemas E) (dw_doc_type doc) = Some sch"
    and "extract_fields (e_libs E) sch lines = Inr es" and "build_result sch es = Inr (r, st)"
    and "dr_fields r = []"
proof -
  obtain lines where l: "recognise E content = Inr lines"
      and x: "rbind (extract_and_validate E doc lines)
                (\<lambda>(result, status). rbind (count_fields (dr_fields result)) (\<lambda>_. Inr (result, status))) = Inr (r, st)"
    using assms unfolding analyse_def by (rule rbind_InrE)
  obtain p where p: "extract_and_validate E doc lines = Inr p"
      and c: "(case p of (result, status) \<Rightarrow> rbind (count_fields (dr_fields result)) (\<lambda>_. Inr (result, status))) = Inr (r, st)"
    using x by (rule rbind_InrE)
  have rs: "p = (r, st)" "count_fields (dr_fields r) = Inr ()"
    using c by (auto elim!: rbind_InrE split: prod.splits)
  then have "dr_fields r = []" by (cases "dr_fields r") auto
  with l p rs that show thesis
    by (auto simp: extract_and_validate_def elim!: rbind_InrE split: option.splits)
qed

text \<open>
  The metrics loop raises on every result that has a field, and a well-formed schema gives one.
\<close>

lemma analyse_fails:
  assumes "\<And>sch. map_of (e_schemas E) (dw_doc_type doc) = Some sch \<Longrightarrow> sc_fields sch \<noteq> []"
  shows "\<exists>e. analyse E doc content = Inl e"
proof (cases "analyse E doc content")
  case (Inl e)
  then show ?thesis by blast
next
  case (Inr p)
  obtain r st where p: "p = (r, st)" by fastforce
  obtain lines sch es where sch: "map_of (e_schemas E) (dw_doc_type doc) = Some sch"
      and b: "build_result sch es = Inr (r, st)" and n: "dr_fields r = []"
    using analyse_Inr Inr p by metis
  have "dr_fields r \<noteq> []" using assms [OF sch] build_result_Inr(1,2) [OF b] by auto
  with n show ?thesis by simp
qed

subsection \<open>What the statements of the pipeline do to the database\<close>

text \<open>
  The document \<open>i\<close> has the terminal row of \<open>f\<close>, and one event for it with payload \<open>payload\<close> was
  added; nothing else changed.
\<close>

definition settled_as :: "uuid \<Rightarrow> outcome \<Rightarrow> pyv \<Rightarrow> db \<Rightarrow> db \<Rightarrow> bool" where
  "settled_as i f payload w w' \<longleftrightarrow>
     (\<exists>now. documents w' = update_rows (\<lambda>r. d_id r = i) (finished_row now f) (documents w))
     \<and> (\<exists>ev. outbox w' = outbox w @ [ev] \<and> o_aggregate_id ev = i \<and> o_payload ev = payload
             \<and> o_published_at ev = None)"

definition failed_outcome :: "pystr \<Rightarrow> pystr \<Rightarrow> outcome" where
  "failed_outcome code message =
     \<lparr>f_status = U ''failed'', f_result = None, f_avg_confidence = None, f_error_code = Some code,
      f_error_message = Some message\<rparr>"

definition done_outcome :: "document_result \<Rightarrow> pystr \<Rightarrow> outcome" where
  "done_outcome r st =
     \<lparr>f_status = st, f_result = Some (to_dict r), f_avg_confidence = Some (dr_avg_confidence r),
      f_error_code = None, f_error_message = None\<rparr>"

lemma finish_settles:
  assumes "finish_document P now eid i f payload topic trace w = (w', r)"
  shows "(w' = w \<and> (\<exists>e. r = Inl e)) \<or> (r = Inr () \<and> settled_as i f payload w w' \<and> serialisable payload)"
  using assms by (cases rule: finish_cases) (auto simp: settled_as_def event_row_def)

lemma fail_settles:
  assumes "fail_document E s doc code message w = (w', r)"
  shows "(w' = w \<and> (\<exists>e. r = Inl e))
    \<or> (r = Inr () \<and> settled_as (dw_id doc) (failed_outcome code message)
          (build_envelope s doc (U ''failed'') None (Some (error_dict code message))) w w')"
  using finish_settles [OF assms [unfolded fail_document_def]] by (auto simp: failed_outcome_def)

lemma complete_settles:
  assumes "complete_document E s doc r st w = (w', x)"
  shows "(w' = w \<and> (\<exists>e. x = Inl e))
    \<or> (x = Inr () \<and> settled_as (dw_id doc) (done_outcome r st)
          (build_envelope s doc st (Some (to_dict r)) None) w w')"
  using finish_settles [OF assms [unfolded complete_document_def]] by (auto simp: done_outcome_def)

lemma handle_settles:
  assumes "handle E s doc e w = (w', r)"
  shows "(w' = w \<and> (\<exists>e. r = Inl e))
    \<or> (\<exists>code message. settled_as (dw_id doc) (failed_outcome code message)
          (build_envelope s doc (U ''failed'') None (Some (error_dict code message))) w w')"
proof (cases "handler e")
  case (Pair what out)
  show ?thesis
  proof (cases what)
    case None
    then have "\<exists>e'. out = Some e'" using Pair by (auto simp: handler_def split: exn.splits)
    then show ?thesis using assms Pair None by (auto simp: handle_def)
  next
    case (Some p)
    obtain code message where p: "p = (code, message)" by fastforce
    obtain w1 x where f: "fail_document E s doc code message w = (w1, x)" by fastforce
    have "w' = w1" and "\<forall>e'. x = Inl e' \<longrightarrow> r = Inl e'"
      using assms f by (auto simp: handle_def Pair Some p split: sum.splits)
    then show ?thesis using fail_settles [OF f] by blast
  qed
qed


lemma run_stages_settles:
  assumes "run_stages E s1 s2 doc w = (w', r)"
  shows "(w_db w' = w_db w \<and> (\<exists>e. r = Inl e))
    \<or> (\<exists>code message. settled_as (dw_id doc) (failed_outcome code message)
          (build_envelope s2 doc (U ''failed'') None (Some (error_dict code message))) (w_db w) (w_db w'))
    \<or> (\<exists>content res st. analyse E doc content = Inr (res, st) \<and> r = Inr ()
          \<and> settled_as (dw_id doc) (done_outcome res st) (build_envelope s1 doc st (Some (to_dict res)) None)
              (w_db w) (w_db w'))"
proof -
  obtain io' tmp got where f: "fetch E doc (w_io w) = (io', tmp, got)" by (metis prod.collapse)
  show ?thesis
  proof (cases "rbind got (analyse E doc)")
    case (Inl e)
    obtain db' x where h: "handle E s2 doc e (w_db w) = (db', x)" by fastforce
    have "w_db w' = db'" "r = x" using assms by (auto simp: run_stages_def f Inl h)
    then show ?thesis using handle_settles [OF h] by auto
  next
    case (Inr p)
    obtain res st where p: "p = (res, st)" by fastforce
    obtain content where a: "analyse E doc content = Inr (res, st)" using Inr p by (auto elim: rbind_InrE)
    obtain db' x where c: "complete_document E s1 doc res st (w_db w) = (db', x)" by fastforce
    show ?thesis
    proof (cases x)
      case (Inl e)
      have same: "db' = w_db w" using complete_settles [OF c] Inl by auto
      obtain db'' y where h: "handle E s2 doc e db' = (db'', y)" by fastforce
      have "w_db w' = db''" "r = y" using assms by (auto simp: run_stages_def f \<open>rbind got _ = _\<close> p c Inl h)
      then show ?thesis using handle_settles [OF h] same by auto
    next
      case (Inr u)
      have "w_db w' = db'" "r = Inr ()" using assms by (auto simp: run_stages_def f \<open>rbind got _ = _\<close> p c Inr)
      then show ?thesis using complete_settles [OF c] Inr a by auto
    qed
  qed
qed



lemma process_cases:
  assumes "process_document E now s1 s2 document_id w = (w', r)"
  obtains (bad_id) "w' = w" and "\<exists>e. r = Inl e" and "py_uuid document_id = None"
    | (skipped) i where "py_uuid document_id = Some i" and "w' = w" and "r = Inr ()"
        and "\<forall>d. find_row d_id i (documents (w_db w)) = Some d \<longrightarrow> \<not> processable (d_status d)"
    | (ran) i d where "py_uuid document_id = Some i" and "find_row d_id i (documents (w_db w)) = Some d"
        and "processable (d_status d)"
        and "run_stages E s1 s2 (row_to_document (e_pg E) d) (w\<lparr>w_db := mark_processing now i (w_db w)\<rparr>) = (w', r)"
proof (cases "py_uuid document_id")
  case None
  then show ?thesis using assms bad_id by (auto simp: process_document_def)
next
  case (Some i)
  show ?thesis
  proof (cases "find_row d_id i (documents (w_db w))")
    case None
    then show ?thesis using assms Some skipped by (auto simp: process_document_def get_document_def)
  next
    case (Some d)
    then have "d_id d = i" using find_row_Some by metis
    then show ?thesis
      using assms Some \<open>py_uuid document_id = Some i\<close> skipped ran
      by (cases "processable (d_status d)") (auto simp: process_document_def get_document_def row_to_document_def)
  qed
qed

lemma find_row_finished:
  assumes "find_row d_id i (documents w) = Some d"
    and "documents w' = update_rows (\<lambda>r. d_id r = i) (finished_row now f) (documents w)"
  shows "find_row d_id i (documents w') = Some (finished_row now f d)"
proof -
  have "d_id d = i" using assms(1) find_row_Some by metis
  then show ?thesis using assms by (simp add: find_row_update)
qed

lemma find_row_marked:
  assumes "find_row d_id i (documents w) = Some d" and "processable (d_status d)"
  shows "\<exists>d'. find_row d_id i (documents (mark_processing now i w)) = Some d' \<and> d_status d' = U ''processing''"
proof -
  have "d_id d = i" using assms(1) find_row_Some by metis
  then show ?thesis using assms by (auto simp: mark_processing_def find_row_update processable_def)
qed

lemma settled_row:
  assumes "settled_as i f payload w w'" and "find_row d_id i (documents w) \<noteq> None"
  shows "\<exists>d. find_row d_id i (documents w') = Some d \<and> d_status d = f_status f \<and> d_result d = f_result f
    \<and> d_error_code d = f_error_code f \<and> d_error_message d = f_error_message f \<and> d_processed_at d \<noteq> None"
  using assms find_row_finished by (fastforce simp: settled_as_def finished_row_def)

lemma mark_outbox [simp]: "outbox (mark_processing now i w) = outbox w"
  by (simp add: mark_processing_def)

lemma build_result_terminal: "build_result sch es = Inr (r, st) \<Longrightarrow> st \<in> set terminal_statuses"
  using build_result_Inr(4) [of sch es r st] by (auto simp: terminal_statuses_def)

lemma process_settles:
  assumes "process_document E now s1 s2 document_id w = (w', r)" and "py_uuid document_id = Some i"
    and "find_row d_id i (documents (w_db w)) = Some d" and "processable (d_status d)"
  shows "(w_db w' = mark_processing now i (w_db w) \<and> (\<exists>e. r = Inl e))
    \<or> (\<exists>f payload. f_status f \<in> set terminal_statuses
          \<and> (f_status f = U ''failed'' \<or> (\<exists>content res. analyse E (row_to_document (e_pg E) d) content = Inr (res, f_status f)
                \<and> f = done_outcome res (f_status f)))
          \<and> settled_as i f payload (mark_processing now i (w_db w)) (w_db w'))"
  using assms(1)
proof (cases rule: process_cases)
  case (ran j d')
  then have d': "j = i" "d' = d" using assms(2,3) by simp_all
  have "d_id d = i" using assms(3) find_row_Some by metis
  then have id: "dw_id (row_to_document (e_pg E) d) = i" by (simp add: row_to_document_def)
  have t: "st \<in> set terminal_statuses" if "analyse E (row_to_document (e_pg E) d) c = Inr (res, st)" for c res st
    using analyse_Inr [OF that] build_result_terminal by metis
  have fl: "U ''failed'' \<in> set terminal_statuses" by (simp add: terminal_statuses_def)
  from run_stages_settles [OF ran(4) [unfolded d']] show ?thesis
  proof (elim disjE exE conjE)
    fix e assume "w_db w' = w_db (w\<lparr>w_db := mark_processing now i (w_db w)\<rparr>)" "r = Inl e"
    then show ?thesis by simp
  next
    fix code message
    assume "settled_as (dw_id (row_to_document (e_pg E) d)) (failed_outcome code message)
        (build_envelope s2 (row_to_document (e_pg E) d) (U ''failed'') None (Some (error_dict code message)))
        (w_db (w\<lparr>w_db := mark_processing now i (w_db w)\<rparr>)) (w_db w')"
    then show ?thesis using fl unfolding id
      by (intro disjI2 exI [of _ "failed_outcome code message"]) (auto simp: failed_outcome_def)
  next
    fix content res st
    assume a: "analyse E (row_to_document (e_pg E) d) content = Inr (res, st)"
      and "settled_as (dw_id (row_to_document (e_pg E) d)) (done_outcome res st)
        (build_envelope s1 (row_to_document (e_pg E) d) st (Some (to_dict res)) None)
        (w_db (w\<lparr>w_db := mark_processing now i (w_db w)\<rparr>)) (w_db w')"
    then show ?thesis using t [OF a] unfolding id
      by (intro disjI2 exI [of _ "done_outcome res st"]) (auto simp: done_outcome_def)
  qed
qed (use assms in auto)

subsection \<open>Properties of one run\<close>

text \<open>
  An event tells its document as the row has it: the identifier, the reference and the caller, and for
  a failed document the code and the message of the row as its error and no data, for another the result
  of the row as its data and no error.
\<close>

definition tells :: "drow \<Rightarrow> orow \<Rightarrow> bool" where
  "tells d ev \<longleftrightarrow>
     o_aggregate_id ev = d_id d \<and> o_published_at ev = None \<and> well_formed_event (o_payload ev)
     \<and> item ''document_id'' (o_payload ev) = Some (PStr (uuid_str (d_id d)))
     \<and> item ''external_ref'' (o_payload ev) = Some (PStr (d_external_ref d))
     \<and> item ''caller_id'' (o_payload ev) = Some (PStr (d_caller_id d))
     \<and> (if d_status d = U ''failed''
        then item ''data'' (o_payload ev) = None \<and> d_result d = None
          \<and> (\<exists>code message. d_error_code d = Some code \<and> d_error_message d = Some message
               \<and> item ''error'' (o_payload ev) = Some (error_dict code message))
        else item ''error'' (o_payload ev) = None \<and> d_error_code d = None \<and> d_error_message d = None
          \<and> d_result d \<noteq> None \<and> item ''data'' (o_payload ev) = d_result d)"

text \<open>The rows of the other documents, in their order.\<close>

definition others :: "uuid \<Rightarrow> db \<Rightarrow> drow list" where
  "others i w = filter (\<lambda>r. d_id r \<noteq> i) (documents w)"

lemma others_update:
  assumes "documents w' = update_rows P f (documents w)" and "\<And>r. P r \<Longrightarrow> d_id r = i" and "\<And>r. d_id (f r) = d_id r"
  shows "others i w' = others i w"
proof -
  have "filter (\<lambda>r. d_id r \<noteq> i) (update_rows P f rs) = filter (\<lambda>r. d_id r \<noteq> i) rs" for rs
    using assms(2,3) by (induction rs) (auto simp: update_rows_def)
  then show ?thesis by (simp add: others_def assms(1))
qed

lemma others_kept [simp]:
  "others i (mark_processing now i w) = others i w"
  "settled_as i f payload w w' \<Longrightarrow> others i w' = others i w"
  by (rule others_update, simp add: mark_processing_def, auto)
    (auto simp: settled_as_def intro: others_update)

text \<open>A row that was only marked, or marked again.\<close>

abbreviation marked_row :: "drow \<Rightarrow> int \<Rightarrow> drow" where
  "marked_row d t \<equiv> d\<lparr>d_status := U ''processing'', d_updated_at := t\<rparr>"

lemma failed_told:
  assumes "settled_as i (failed_outcome code message)
      (build_envelope s doc (U ''failed'') None (Some (error_dict code message))) w w'"
    and "doc = row_to_document P d" and "find_row d_id i (documents w) = Some (marked_row d t)"
  obtains d' ev where "find_row d_id i (documents w') = Some d'" and "d_status d' = U ''failed''"
    and "d_error_code d' = Some code" and "d_error_message d' = Some message" and "d_processed_at d' \<noteq> None"
    and "outbox w' = outbox w @ [ev]" and "tells d' ev"
proof -
  have i: "d_id d = i" using find_row_Some [OF assms(3)] by simp
  obtain now ev where docs: "documents w' = update_rows (\<lambda>r. d_id r = i) (finished_row now (failed_outcome code message)) (documents w)"
    and ev: "outbox w' = outbox w @ [ev]" "o_aggregate_id ev = i" "o_published_at ev = None"
      "o_payload ev = build_envelope s doc (U ''failed'') None (Some (error_dict code message))"
    using assms(1) by (auto simp: settled_as_def)
  have f: "find_row d_id i (documents w') = Some (finished_row now (failed_outcome code message) (marked_row d t))"
    by (rule find_row_finished [OF assms(3) docs])
  show thesis
    by (rule that [OF f _ _ _ _ ev(1)])
      (simp_all add: finished_row_def failed_outcome_def tells_def ev i assms(2) envelope_well_formed,
       simp add: item_def build_envelope_def row_to_document_def i)
qed

lemma done_told:
  assumes "settled_as i (done_outcome res st) (build_envelope s doc st (Some (to_dict res)) None) w w'"
    and "doc = row_to_document P d" and "find_row d_id i (documents w) = Some (marked_row d t)"
    and "st = U ''completed'' \<or> st = U ''needs_review''"
  obtains d' ev where "find_row d_id i (documents w') = Some d'" and "d_status d' = st" and "d_processed_at d' \<noteq> None"
    and "outbox w' = outbox w @ [ev]" and "tells d' ev"
proof -
  have i: "d_id d = i" using find_row_Some [OF assms(3)] by simp
  obtain now ev where docs: "documents w' = update_rows (\<lambda>r. d_id r = i) (finished_row now (done_outcome res st)) (documents w)"
    and ev: "outbox w' = outbox w @ [ev]" "o_aggregate_id ev = i" "o_published_at ev = None"
      "o_payload ev = build_envelope s doc st (Some (to_dict res)) None"
    using assms(1) by (auto simp: settled_as_def)
  have f: "find_row d_id i (documents w') = Some (finished_row now (done_outcome res st) (marked_row d t))"
    by (rule find_row_finished [OF assms(3) docs])
  have st: "st \<noteq> U ''failed''" using assms(4) by auto
  show thesis
    by (rule that [OF f _ _ ev(1)])
      (use st assms(4) in \<open>simp_all add: finished_row_def done_outcome_def tells_def ev i assms(2) envelope_well_formed\<close>,
       use assms(4) in \<open>auto simp: item_def build_envelope_def row_to_document_def i\<close>)
qed

text \<open>
  After a run on a queued or processing document, either it is settled and an event tells it, or
  it is processing, nothing else was written, and the run raised.
\<close>

lemma process_outcome:
  assumes "process_document E now s1 s2 document_id w = (w', r)" and "py_uuid document_id = Some i"
    and "find_row d_id i (documents (w_db w)) = Some d" and "processable (d_status d)"
  obtains (settled) d' ev where "find_row d_id i (documents (w_db w')) = Some d'" and "d_status d' \<in> set terminal_statuses"
      and "d_processed_at d' \<noteq> None" and "outbox (w_db w') = outbox (w_db w) @ [ev]" and "tells d' ev"
      and "others i (w_db w') = others i (w_db w)"
    | (kept) t where "outbox (w_db w') = outbox (w_db w)" and "\<exists>e. r = Inl e"
        and "find_row d_id i (documents (w_db w')) = Some (marked_row d t)" and "others i (w_db w') = others i (w_db w)"
proof -
  let ?doc = "row_to_document (e_pg E) d" and ?w = "w\<lparr>w_db := mark_processing now i (w_db w)\<rparr>"
  have run: "run_stages E s1 s2 ?doc ?w = (w', r)"
    using assms(1) by (cases rule: process_cases) (use assms(2-4) in auto)
  have i: "d_id d = i" using find_row_Some [OF assms(3)] by simp
  then have id: "dw_id ?doc = i" by (simp add: row_to_document_def)
  define t where "t = (if d_status d = U ''queued'' then now else d_updated_at d)"
  have found: "find_row d_id i (documents (w_db ?w)) = Some (marked_row d t)"
    using assms(3,4) i by (auto simp: t_def mark_processing_def find_row_update processable_def)
  from run_stages_settles [OF run, unfolded id] show thesis
  proof (elim disjE exE conjE)
    fix e assume w: "w_db w' = w_db ?w" "r = Inl e"
    show thesis by (rule kept [of t]) (use w found in simp_all)
  next
    fix code message
    assume s: "settled_as i (failed_outcome code message)
        (build_envelope s2 ?doc (U ''failed'') None (Some (error_dict code message))) (w_db ?w) (w_db w')"
    obtain d' ev where "find_row d_id i (documents (w_db w')) = Some d'" "d_status d' = U ''failed''" "d_processed_at d' \<noteq> None"
        "outbox (w_db w') = outbox (w_db ?w) @ [ev]" "tells d' ev"
      by (rule failed_told [OF s refl found])
    then show thesis using settled [of d' ev] others_kept(2) [OF s] by (simp add: terminal_statuses_def)
  next
    fix content res st assume a: "analyse E ?doc content = Inr (res, st)"
      and s: "settled_as i (done_outcome res st) (build_envelope s1 ?doc st (Some (to_dict res)) None) (w_db ?w) (w_db w')"
    obtain sch es where b: "build_result sch es = Inr (res, st)" using analyse_Inr [OF a] by blast
    then have st: "st = U ''completed'' \<or> st = U ''needs_review''" using build_result_Inr(4) [OF b] by auto
    obtain d' ev where "find_row d_id i (documents (w_db w')) = Some d'" "d_status d' = st" "d_processed_at d' \<noteq> None"
        "outbox (w_db w') = outbox (w_db ?w) @ [ev]" "tells d' ev"
      by (rule done_told [OF s refl found st])
    then show thesis using settled [of d' ev] others_kept(2) [OF s] build_result_terminal [OF b] by simp
  qed
qed

text \<open>
  Property C6: a run on a queued or processing document has one of two outcomes, whatever the driver,
  the file and the provider. Either the document has a terminal status with its processing time, and
  exactly one event was added to the outbox, unpublished, which tells the row: its identifier,
  reference and caller, the code and the message of a failed document as the error, or the stored result
  as the data. Or the row was only marked \<open>processing\<close>, no event was written, and an
  exception leaves the job. The rows of all other documents are as before. In particular a run
  that returns normally has settled the document.
\<close>

theorem process_settles_or_raises:
  assumes "process_document E now s1 s2 document_id w = (w', r)" and "py_uuid document_id = Some i"
    and "find_row d_id i (documents (w_db w)) = Some d" and "processable (d_status d)"
  shows "filter (\<lambda>q. d_id q \<noteq> i) (documents (w_db w')) = filter (\<lambda>q. d_id q \<noteq> i) (documents (w_db w))
    \<and> ((\<exists>d' ev. find_row d_id i (documents (w_db w')) = Some d' \<and> d_status d' \<in> set terminal_statuses
          \<and> d_processed_at d' \<noteq> None \<and> outbox (w_db w') = outbox (w_db w) @ [ev] \<and> tells d' ev)
       \<or> (\<exists>e t. r = Inl e \<and> outbox (w_db w') = outbox (w_db w)
          \<and> find_row d_id i (documents (w_db w')) = Some (d\<lparr>d_status := U ''processing'', d_updated_at := t\<rparr>)))"
  by (rule process_outcome [OF assms]) (auto simp: others_def)

text \<open>The engine for the applications: one storage, one PDF with a text layer, one schema.\<close>

definition demo_env :: env where
  "demo_env = \<lparr>e_settings = demo_settings, e_schemas = [(U ''receipt@1'', demo_schema)], e_libs = demo_libs,
     e_media = demo_media, e_storage = demo_storage, e_provider = (\<lambda>_ _. Inl (ProviderTransientError (U ''busy''))),
     e_pg = demo_pg\<lparr>pg_uuid_out := (\<lambda>u. PStr (uuid_str u))\<rparr>\<rparr>"

definition demo_world :: world where
  "demo_world = \<lparr>w_io = io_init, w_db = \<lparr>documents = [demo_row], outbox = []\<rparr>\<rparr>"

lemma demo_found:
  "py_uuid (uuid_str 7) = Some 7" "find_row d_id 7 (documents (w_db demo_world)) = Some demo_row"
  "processable (d_status demo_row)"
  by (simp_all add: py_uuid_str demo_env_def demo_world_def find_row_def demo_row_def queued_row_def demo_submission_def
      processable_def)

text \<open>An object storage that has lost every object.\<close>

definition lost_env :: env where
  "lost_env = demo_env\<lparr>e_storage := \<lambda>_ _ _. Inl no_such_key\<rparr>"

lemma lost_run:
  "snd (process_document lost_env 200 demo_stamp demo_stamp (uuid_str 7) demo_world) = Inr ()"
  by code_simp

theorem process_settles_or_raises_witness:
  "case fst (process_document lost_env 200 demo_stamp demo_stamp (uuid_str 7) demo_world) of w' \<Rightarrow>
     \<exists>d' ev. find_row d_id 7 (documents (w_db w')) = Some d' \<and> d_status d' \<in> set terminal_statuses
       \<and> outbox (w_db w') = [ev] \<and> tells d' ev"
proof -
  obtain w' where p: "process_document lost_env 200 demo_stamp demo_stamp (uuid_str 7) demo_world = (w', Inr ())"
    using lost_run by (metis prod.collapse)
  from process_settles_or_raises [OF p demo_found] p show ?thesis
    by (auto simp: demo_world_def)
qed

text \<open>
  A job delivered for a document that is already terminal, or that does not exist,
  changes nothing and returns normally, so a second delivery of a settled document's job is
  harmless.
\<close>

lemma process_skips_settled:
  assumes "py_uuid document_id = Some i"
    and "\<forall>d. \<not> (find_row d_id i (documents (w_db w)) = Some d \<and> processable (d_status d))"
  shows "process_document E now s1 s2 document_id w = (w, Inr ())"
proof (cases "process_document E now s1 s2 document_id w")
  case (Pair w' r)
  then show ?thesis by (cases rule: process_cases) (use assms Pair in auto)
qed

lemma process_skips_settled_example:
  "process_document demo_env 200 demo_stamp demo_stamp (uuid_str 7) (demo_world\<lparr>w_db := db_init\<rparr>)
     = (demo_world\<lparr>w_db := db_init\<rparr>, Inr ())"
  by (rule process_skips_settled [where i = 7]) (simp_all add: py_uuid_str demo_env_def db_init_def find_row_def)




subsection \<open>The recognised lines\<close>

text \<open>
  A provider whose lines are clean makes the whole recognition a source of lines, text layer or
  not; Baidu's is such a provider.
\<close>

locale clean_provider =
  fixes E :: env
  assumes provider_clean: "e_provider E img mime = Inr ls \<Longrightarrow> l \<in> set ls \<Longrightarrow>
      l_text l \<noteq> [] \<and> 0 < l_score l \<and> 1 \<le> l_page l"
begin

lemma ocr_lines_clean:
  assumes "ocr_lines E content mime = Inr (ls, n)" and l: "l \<in> set ls"
  shows "l_text l \<noteq> [] \<and> 0 < l_score l \<and> 1 \<le> l_page l"
proof (cases "mime = U ''application/pdf''")
  case True
  then obtain images lss where m: "rmap (\<lambda>img. e_provider E img (U ''image/jpeg'')) images = Inr lss"
      and ls: "ls = concat lss"
    using assms(1) by (auto simp: ocr_lines_def elim!: rbind_InrE)
  then obtain xs where xs: "xs \<in> set lss" "l \<in> set xs" using l by auto
  have "\<forall>x \<in> set xs. l_text x \<noteq> [] \<and> 0 < l_score x \<and> 1 \<le> l_page x"
    by (rule rmap_Inr_all [OF m _ xs(1)]) (use provider_clean in blast)
  with xs(2) show ?thesis by blast
next
  case False
  then show ?thesis using assms provider_clean by (auto simp: ocr_lines_def elim!: rbind_InrE)
qed

lemma recognise_clean:
  assumes "recognise E content = Inr ls" and "l \<in> set ls"
  shows "l_text l \<noteq> [] \<and> 0 < l_score l \<and> 1 \<le> l_page l"
proof -
  obtain meta where "inspect_or_fail E content = Inr meta"
      and m: "rbind (digitalborn_lines (e_media E) content) (\<lambda>digital. case digital of
        Some ls \<Rightarrow> Inr ls | None \<Rightarrow> rbind (ocr_lines E content (i_mime meta)) (\<lambda>r. Inr (fst r))) = Inr ls"
    using assms(1) unfolding recognise_def by (rule rbind_InrE)
  from m obtain d where d: "digitalborn_lines (e_media E) content = Inr d"
      and c: "(case d of Some ls \<Rightarrow> Inr ls | None \<Rightarrow> rbind (ocr_lines E content (i_mime meta)) (\<lambda>r. Inr (fst r))) = Inr ls"
    by (rule rbind_InrE)
  show ?thesis
  proof (cases d)
    case None
    with c obtain n where "ocr_lines E content (i_mime meta) = Inr (ls, n)" by (auto elim!: rbind_InrE)
    then show ?thesis using ocr_lines_clean assms(2) by blast
  next
    case (Some x)
    with c d have "digital_gives (e_media E, content) ls" by (simp add: digital_gives_def)
    then show ?thesis
      using digital.gives_text digital.gives_score digital.gives_page assms(2) by blast
  qed
qed

end

sublocale clean_provider \<subseteq> recognised: line_source "\<lambda>content ls. recognise E content = Inr ls"
  by unfold_locales (use recognise_clean in blast)+

definition baidu_recogniser :: "interp \<Rightarrow> settings \<Rightarrow> client \<Rightarrow> bytes \<Rightarrow> pystr \<Rightarrow> line list res" where
  "baidu_recogniser I s C content mime =
     (case extract_lines I s C content mime of Some r \<Rightarrow> r | None \<Rightarrow> Inl CancelledError)"

lemma baidu_recogniser_lines:
  assumes "baidu_recogniser I s C content mime = Inr ls"
  shows "\<exists>body. normalize_layout_parsing I body = Inr ls"
proof -
  obtain z where "(case z of Inl e \<Rightarrow> Inl (as_provider_error e) | Inr raw \<Rightarrow> normalize_layout_parsing I raw) = Inr ls"
    using assms unfolding baidu_recogniser_def extract_lines_def by (auto split: option.splits)
  then show ?thesis by (cases z) auto
qed

interpretation baidu_engine: clean_provider "E\<lparr>e_provider := baidu_recogniser I s C\<rparr>" for E I s C
proof
  fix img mime ls l
  assume "e_provider (E\<lparr>e_provider := baidu_recogniser I s C\<rparr>) img mime = Inr ls" and l: "l \<in> set ls"
  then have "baidu_recogniser I s C img mime = Inr ls" by simp
  from baidu_recogniser_lines [OF this] obtain body where "baidu_gives (I, body) ls"
    by (auto simp: baidu_gives_def)
  then show "l_text l \<noteq> [] \<and> 0 < l_score l \<and> 1 \<le> l_page l"
    using baidu.gives_text baidu.gives_score baidu.gives_page l by blast
qed

text \<open>
  With the Baidu provider, whichever way a file was recognised, a field that
  extraction finds has a positive confidence and a place on a page that exists, so that a
  confidence of zero in a result means exactly that nothing was found.
\<close>

lemma recognised_fields_located:
  assumes "recognise (E\<lparr>e_provider := baidu_recogniser I s C\<rparr>) content = Inr ls"
    and "extract_fields L sch ls = Inr es" and "e \<in> set es"
  shows "(ef_confidence e = 0 \<longleftrightarrow> \<not> has_value e)
    \<and> (\<not> has_value e \<or> 0 < ef_confidence e \<and> (\<exists>l \<in> set ls. ef_source e = Some l \<and> 1 \<le> l_page l))"
  using baidu_engine.recognised.source_zero_confidence [OF assms]
    baidu_engine.recognised.source_field [OF assms] by blast

lemma demo_recognise:
  "recognise (demo_env\<lparr>e_provider := baidu_recogniser id_interp demo_settings demo_client\<rparr>) (B ''%PDF-1.7'') =
     Inr [\<lparr>l_text = U ''Total  27'', l_score = 1, l_x1 = 1, l_y1 = 2, l_x2 = 30, l_y2 = 14, l_page = 1\<rparr>]"
  by code_simp

lemma recognised_fields_located_example:
  "\<exists>es. extract_fields demo_libs demo_schema
      [\<lparr>l_text = U ''Total  27'', l_score = 1, l_x1 = 1, l_y1 = 2, l_x2 = 30, l_y2 = 14, l_page = 1\<rparr>] = Inr es
    \<and> (\<forall>e \<in> set es. ef_confidence e = 0 \<longleftrightarrow> \<not> has_value e)"
proof -
  let ?ls = "[\<lparr>l_text = U ''Total  27'', l_score = 1, l_x1 = 1, l_y1 = 2, l_x2 = 30, l_y2 = 14, l_page = 1\<rparr>] :: line list"
  obtain es where es: "extract_fields demo_libs demo_schema ?ls = Inr es"
    using extract_fields_Inr [OF demo_wf] by blast
  from recognised_fields_located [OF demo_recognise es] es show ?thesis by blast
qed

text \<open>
  A body with one page, as the provider answers for one image.
\<close>

definition one_page :: "pyv \<Rightarrow> bool" where
  "one_page body \<longleftrightarrow>
     (case item ''result'' body of
        Some res \<Rightarrow> (case item ''layoutParsingResults'' res of Some (PList vs) \<Rightarrow> length vs = 1 | _ \<Rightarrow> False)
      | None \<Rightarrow> False)"

lemma one_page_lines:
  assumes "one_page body" and "normalize_layout_parsing I body = Inr ls" and "l \<in> set ls"
  shows "l_page l = 1"
proof -
  obtain res vs where res: "item ''result'' body = Some res" and vs: "item ''layoutParsingResults'' res = Some (PList vs)"
      and len: "length vs = 1"
    using assms(1) by (auto simp: one_page_def split: option.splits pyv.splits)
  then have "pages_of I 1 vs = Inr ls"
    using assms(2) by (cases body; cases res) (auto simp: item_def normalize_layout_parsing_def)
  from pages_of_clean [OF this] assms(3) len show ?thesis by fastforce
qed

text \<open>
  The pages of a scanned PDF are lost. Each page image is sent on its own, and the
  provider numbers the pages of each answer from 1; the pipeline concatenates the answers as they
  are, so every line of the document is on page 1, and extraction, which orders lines by their
  coordinates alone, mixes the pages.
\<close>

lemma scanned_pages_lost:
  assumes "\<And>img mime. e_provider E img mime = normalize_layout_parsing I (answer img)"
    and "\<And>img. one_page (answer img)"
    and "ocr_lines E content (U ''application/pdf'') = Inr (ls, pages)"
  shows "list_all (\<lambda>l. l_page l = 1) ls"
proof -
  obtain images lss where m: "rmap (\<lambda>img. e_provider E img (U ''image/jpeg'')) images = Inr lss"
      and ls: "ls = concat lss"
    using assms(3) by (auto simp: ocr_lines_def elim!: rbind_InrE)
  have "\<forall>x \<in> set xs. l_page x = 1" if "xs \<in> set lss" for xs
  proof (rule rmap_Inr_all [OF m _ that])
    fix img ys assume "e_provider E img (U ''image/jpeg'') = Inr ys"
    then show "\<forall>x \<in> set ys. l_page x = 1"
      using one_page_lines [OF assms(2)] assms(1) by (metis (no_types))
  qed
  then show ?thesis by (auto simp: ls list_all_iff)
qed

definition scan_env :: env where
  "scan_env = demo_env\<lparr>
     e_media := demo_media\<lparr>fitz_open := (\<lambda>_. Inr [demo_page\<lparr>pg_png := [1]\<rparr>, demo_page\<lparr>pg_png := [2]\<rparr>]),
                           image_size := (\<lambda>_. Inr (100, 100))\<rparr>,
     e_provider := (\<lambda>_ _. normalize_layout_parsing id_interp (encode_pages [[demo_line]]))\<rparr>"

lemma scanned_pages_lost_example:
  "ocr_lines scan_env (B ''%PDF'') (U ''application/pdf'') = Inr ([demo_line, demo_line], 2) \<and> l_page demo_line = 1"
proof -
  have o: "ocr_lines scan_env (B ''%PDF'') (U ''application/pdf'') = Inr ([demo_line, demo_line], 2)"
    by code_simp
  have "one_page (encode_pages [[demo_line]])" by (simp add: one_page_def item_def encode_pages_def)
  then have "list_all (\<lambda>l. l_page l = 1) [demo_line, demo_line]"
    by (intro scanned_pages_lost [OF _ _ o, of id_interp "\<lambda>_. encode_pages [[demo_line]]"])
      (simp_all add: scan_env_def)
  with o show ?thesis by simp
qed

end
