(* ===== verification/Ocr_Worker.thy ===== *)
theory Ocr_Worker
  imports Ocr_Pipeline
begin

text \<open>
  The worker (\<open>worker/settings.py\<close>): the job of a document with its retries, the retention sweep,
  and what the pipeline achieves under the driver and the metrics code as they are: no document
  completes, and with UUID objects in the envelope none even fails.
\<close>

text \<open>
  The worker's job: it is tried again while it raises, once per element of the list
  (\<open>max_tries=3\<close> gives three). Every try finds the outside world, the object storage and the
  provider, as it is by then.
\<close>

type_synonym attempt = "env \<times> int \<times> stamp \<times> stamp"

fun run_job :: "pystr \<Rightarrow> attempt list \<Rightarrow> world \<Rightarrow> world \<times> unit res" where
  "run_job document_id [] w = (w, Inl (LibraryError (U ''no attempts left'')))"
| "run_job document_id ((E, now, s1, s2) # later) w =
     (case process_document E now s1 s2 document_id w of
        (w', Inr _) \<Rightarrow> (w', Inr ())
      | (w', Inl e) \<Rightarrow> if later = [] then (w', Inl e) else run_job document_id later w')"

subsection \<open>Retention\<close>

definition retention :: int where
  "retention = 24 * 60 * minute"

definition cleanup_expired_results :: "int \<Rightarrow> db \<Rightarrow> db" where
  "cleanup_expired_results now w =
     (let ids = list_expired_documents (now - retention) w
      in if ids \<noteq> [] then purge_document_results now ids w else w)"

subsection \<open>No document completes\<close>

text \<open>
  Property C29: no run ever completes a document or sends it to review. The loop that counts the
  fields reads \<open>field.name\<close> on a dictionary, which raises for every result, since every loaded
  schema has a field; so whatever the file holds, the document ends \<open>failed\<close> or stays
  \<open>processing\<close>.
\<close>

theorem process_never_completes:
  assumes "wf_schemas (e_libs E) (e_schemas E)"
    and "process_document E now s1 s2 document_id w = (w', r)" and "py_uuid document_id = Some i"
    and "find_row d_id i (documents (w_db w)) = Some d" and "processable (d_status d)"
  shows "\<exists>d'. find_row d_id i (documents (w_db w')) = Some d' \<and> d_status d' \<in> {U ''processing'', U ''failed''}"
proof -
  have no: "\<exists>e. analyse E doc content = Inl e" for doc content
    by (rule analyse_fails) (use schemas_lookup [OF assms(1)] in \<open>auto simp: wf_schema_def\<close>)
  from process_settles [OF assms(2-5)] consider
      "w_db w' = mark_processing now i (w_db w)"
    | f payload where "f_status f = U ''failed''" "settled_as i f payload (mark_processing now i (w_db w)) (w_db w')"
    using no by (metis Inl_Inr_False)
  then show ?thesis
  proof cases
    case 1
    then show ?thesis using find_row_marked [OF assms(4,5)] by auto
  next
    case 2
    have "find_row d_id i (documents (mark_processing now i (w_db w))) \<noteq> None"
      using find_row_marked [OF assms(4,5)] by auto
    with settled_row [OF 2(2)] 2(1) show ?thesis by auto
  qed
qed

theorem process_never_completes_witness:
  "\<exists>d'. find_row d_id 7 (documents (w_db (fst (process_document demo_env 200 demo_stamp demo_stamp (uuid_str 7) demo_world))))
     = Some d' \<and> d_status d' \<in> {U ''processing'', U ''failed''}"
proof -
  have "wf_schemas (e_libs demo_env) (e_schemas demo_env)"
    using demo_wf by (simp add: wf_schemas_def demo_env_def demo_schema_def)
  from process_never_completes [OF this prod.collapse [symmetric] demo_found] show ?thesis .
qed

subsection \<open>Keys that JSON does not have\<close>

lemma finish_unserialisable:
  assumes "\<not> serialisable payload"
  shows "\<exists>e. finish_document P now eid i f payload topic trace w = (w, Inl e)"
proof (cases "finish_document P now eid i f payload topic trace w")
  case (Pair w' r)
  from Pair show ?thesis by (cases rule: finish_cases) (use assms Pair in auto)
qed

text \<open>A document whose key \<open>json.dumps\<close> refuses can neither be completed nor be failed.\<close>

lemma unserialisable_key_blocks:
  assumes "\<not> serialisable (dw_idempotency_key doc)"
  shows "\<exists>e. fail_document E s doc code message w = (w, Inl e)"
    and "\<exists>e. complete_document E s doc result status w = (w, Inl e)"
  using assms by (auto simp: fail_document_def complete_document_def envelope_serialisable intro!: finish_unserialisable)

lemma unserialisable_key_handle:
  assumes "\<not> serialisable (dw_idempotency_key doc)"
  shows "\<exists>e'. handle E s doc e w = (w, Inl e')"
proof (cases "handler e")
  case (Pair what out)
  show ?thesis
  proof (cases what)
    case None
    then have "\<exists>e'. out = Some e'" using Pair by (auto simp: handler_def split: exn.splits)
    then show ?thesis using Pair None by (auto simp: handle_def)
  next
    case (Some p)
    obtain code message where p: "p = (code, message)" by fastforce
    obtain e' where "fail_document E s doc code message w = (w, Inl e')"
      using unserialisable_key_blocks(1) [OF assms] by blast
    then show ?thesis by (simp add: handle_def Pair Some p)
  qed
qed

lemma unserialisable_key_run:
  assumes "\<not> serialisable (dw_idempotency_key doc)" and "run_stages E s1 s2 doc w = (w', r)"
  shows "w_db w' = w_db w \<and> (\<exists>e. r = Inl e)"
proof -
  obtain io' tmp got where f: "fetch E doc (w_io w) = (io', tmp, got)" by (metis prod.collapse)
  have h: "\<exists>e'. handle E s2 doc e db = (db, Inl e')" for e db by (rule unserialisable_key_handle [OF assms(1)])
  show ?thesis
  proof (cases "rbind got (analyse E doc)")
    case (Inl e)
    then show ?thesis using h [of e "w_db w"] assms(2) by (auto simp: run_stages_def f)
  next
    case (Inr p)
    obtain result status where p: "p = (result, status)" by fastforce
    obtain e where c: "complete_document E s1 doc result status (w_db w) = (w_db w, Inl e)"
      using unserialisable_key_blocks(2) [OF assms(1)] by blast
    show ?thesis using h [of e "w_db w"] assms(2) by (auto simp: run_stages_def f Inr p c)
  qed
qed

lemma unserialisable_key_process:
  assumes "\<not> serialisable (pg_uuid_out (e_pg E) (d_key d))" and "py_uuid document_id = Some i"
    and "find_row d_id i (documents (w_db w)) = Some d" and "processable (d_status d)"
    and "process_document E now s1 s2 document_id w = (w', r)"
  shows "w_db w' = mark_processing now i (w_db w) \<and> (\<exists>e. r = Inl e)"
  using assms(5)
proof (cases rule: process_cases)
  case (ran j d')
  have "\<not> serialisable (dw_idempotency_key (row_to_document (e_pg E) d))"
    using assms(1) by (simp add: row_to_document_def)
  from unserialisable_key_run [OF this] show ?thesis using ran assms(2,3) by fastforce
qed (use assms in auto)

text \<open>
  Property C28: with the driver as it is, which decodes a UUID column to a UUID object, no document
  ever becomes terminal and no event is ever written. The envelope carries the key as it was
  read, \<open>json.dumps\<close> raises on it, and the transaction that should have recorded the result or the
  failure is rolled back; every try of the job ends with an exception and the document stays
  \<open>processing\<close>, whatever the file, the provider and the number of tries.
\<close>

theorem uuid_key_blocks_finish:
  assumes "list_all (\<lambda>(E, _). \<forall>u. pg_uuid_out (e_pg E) u = PUuid u) (attempt # attempts)"
    and "py_uuid document_id = Some i"
    and "find_row d_id i (documents (w_db w)) = Some d" and "processable (d_status d)"
    and "run_job document_id (attempt # attempts) w = (w', r)"
  shows "(\<exists>e. r = Inl e) \<and> outbox (w_db w') = outbox (w_db w)
    \<and> (\<exists>d'. find_row d_id i (documents (w_db w')) = Some d' \<and> d_status d' = U ''processing'' \<and> d_result d' = d_result d)"
  using assms(1,3-5)
proof (induction attempts arbitrary: attempt w d)
  case Nil
  obtain E now s1 s2 where a: "attempt = (E, now, s1, s2)" by (cases attempt)
  have no_json: "\<not> serialisable (pg_uuid_out (e_pg E) (d_key d))" using Nil.prems(1) by (simp add: a)
  obtain w1 x where p: "process_document E now s1 s2 document_id w = (w1, x)" by fastforce
  then have "w_db w1 = mark_processing now i (w_db w) \<and> (\<exists>e. x = Inl e)"
    by (rule unserialisable_key_process [OF no_json assms(2) Nil.prems(2,3)])
  moreover have "w' = w1" "r = x" using Nil.prems(4) p calculation by (auto simp: a)
  moreover have "d_id d = i" using Nil.prems(2) find_row_Some by metis
  ultimately show ?case using Nil.prems(2,3) by (auto simp: mark_processing_def find_row_update processable_def)
next
  case (Cons next_attempt attempts)
  obtain E now s1 s2 where a: "attempt = (E, now, s1, s2)" by (cases attempt)
  have no_json: "\<not> serialisable (pg_uuid_out (e_pg E) (d_key d))" using Cons.prems(1) by (simp add: a)
  obtain w1 x where p: "process_document E now s1 s2 document_id w = (w1, x)" by fastforce
  then have "w_db w1 = mark_processing now i (w_db w) \<and> (\<exists>e. x = Inl e)"
    by (rule unserialisable_key_process [OF no_json assms(2) Cons.prems(2,3)])
  then have w1: "w_db w1 = mark_processing now i (w_db w)" "\<exists>e. x = Inl e" by simp_all
  have "d_id d = i" using Cons.prems(2) find_row_Some by metis
  then obtain d1 where d1: "find_row d_id i (documents (w_db w1)) = Some d1" "d_status d1 = U ''processing''"
      "d_result d1 = d_result d"
    using Cons.prems(2,3) by (auto simp: w1 mark_processing_def find_row_update processable_def)
  have "run_job document_id (next_attempt # attempts) w1 = (w', r)"
    using Cons.prems(4) p w1(2) by (auto simp: a)
  from Cons.IH [OF _ d1(1) _ this] Cons.prems(1) show ?case using d1 by (simp add: w1 processable_def)
qed

definition uuid_env :: env where
  "uuid_env = demo_env\<lparr>e_pg := demo_pg\<rparr>"

theorem uuid_key_blocks_finish_witness:
  "\<exists>e. snd (run_job (uuid_str 7) [(uuid_env, 200, demo_stamp, demo_stamp), (uuid_env, 300, demo_stamp, demo_stamp)] demo_world) = Inl e"
proof -
  have "list_all (\<lambda>(E, _). \<forall>u. pg_uuid_out (e_pg E) u = PUuid u)
      [(uuid_env, 200, demo_stamp, demo_stamp), (uuid_env, 300, demo_stamp, demo_stamp)]"
    by (simp add: uuid_env_def demo_pg_def)
  from uuid_key_blocks_finish [OF this demo_found(1-3) prod.collapse [symmetric]] show ?thesis by blast
qed

subsection \<open>The retention sweep\<close>

lemma insort_key_front: "\<forall>b \<in> set bs. f x \<le> f b \<Longrightarrow> insort_key f x (as @ bs) = insort_key f x as @ bs"
  by (induction as) (cases bs; simp)+

lemma insort_key_back: "\<forall>a \<in> set as. f a < f x \<Longrightarrow> insort_key f x (as @ bs) = as @ insort_key f x bs"
  by (induction as) auto

lemma sort_key_split:
  fixes f :: "'a \<Rightarrow> 'k :: linorder"
  shows "sort_key f xs = sort_key f (filter (\<lambda>x. f x < t) xs) @ sort_key f (filter (\<lambda>x. \<not> f x < t) xs)"
proof (induction xs)
  case Nil
  then show ?case by simp
next
  case (Cons x xs)
  let ?as = "sort_key f (filter (\<lambda>x. f x < t) xs)" and ?bs = "sort_key f (filter (\<lambda>x. \<not> f x < t) xs)"
  show ?case
  proof (cases "f x < t")
    case True
    then have "\<forall>b \<in> set ?bs. f x \<le> f b" by auto
    then show ?thesis using True Cons.IH by (simp add: insort_key_front)
  next
    case False
    then have "\<forall>a \<in> set ?as. f a < f x" by auto
    then show ?thesis using False Cons.IH by (simp add: insort_key_back)
  qed
qed

text \<open>
  Once a hundred documents have expired, the rows a later sweep reads are the same hundred: purging
  does not take them out of the query.
\<close>

lemma list_expired_stuck:
  assumes "100 \<le> length (filter (expired older) (documents w))" and "older \<le> older'"
  shows "list_expired_documents older' w = list_expired_documents older w"
proof -
  let ?f = "\<lambda>r. the (d_processed_at r)"
  let ?due = "filter (expired older') (documents w)"
  have "filter (\<lambda>r. ?f r < older) ?due = filter (expired older) (documents w)"
    using assms(2) by (auto simp: expired_def split: option.splits intro!: filter_cong)
  then have "sort_key ?f ?due =
      sort_key ?f (filter (expired older) (documents w)) @ sort_key ?f (filter (\<lambda>r. \<not> ?f r < older) ?due)"
    using sort_key_split [of ?f ?due older] by simp
  then show ?thesis using assms(1) by (simp add: list_expired_documents_def)
qed

definition purged_row :: "int \<Rightarrow> drow \<Rightarrow> drow" where
  "purged_row now r = r\<lparr>d_result := None, d_error_message := None, d_updated_at := now\<rparr>"

lemma cleanup_rows:
  "documents (cleanup_expired_results now w) =
     update_rows (\<lambda>r. d_id r \<in> set (list_expired_documents (now - retention) w)) (purged_row now) (documents w)"
  "outbox (cleanup_expired_results now w) = outbox w"
  by (auto simp: cleanup_expired_results_def purge_document_results_def purged_row_def Let_def update_rows_def)

lemma expired_purged: "expired older (purged_row now r) = expired older r"
  by (simp add: expired_def purged_row_def)

lemma cleanup_expired: "filter (expired older) (documents (cleanup_expired_results now w)) =
    update_rows (\<lambda>r. d_id r \<in> set (list_expired_documents (now - retention) w)) (purged_row now)
      (filter (expired older) (documents w))"
  by (simp add: cleanup_rows filter_update_rows expired_purged)

lemma cleanup_list: "list_expired_documents older (cleanup_expired_results now w) = list_expired_documents older w"
  by (simp add: cleanup_expired_results_def list_expired_purge Let_def)

text \<open>
  The sweep clears what it should while at most a hundred documents are past the
  retention: exactly the documents that were processed more than a day ago lose their result and
  their message, every other row and the whole outbox stay as they are.
\<close>

lemma cleanup_purges_expired:
  assumes "length (filter (expired (now - retention)) (documents w)) \<le> 100"
    and "distinct (map d_id (documents w))"
  shows "documents (cleanup_expired_results now w) =
      map (\<lambda>r. if expired (now - retention) r then purged_row now r else r) (documents w)
    \<and> outbox (cleanup_expired_results now w) = outbox w"
proof -
  let ?due = "filter (expired (now - retention)) (documents w)"
  have ids: "set (list_expired_documents (now - retention) w) = d_id ` set ?due"
    using assms(1) by (simp add: list_expired_documents_def)
  have "d_id r \<in> d_id ` set ?due \<longleftrightarrow> expired (now - retention) r" if "r \<in> set (documents w)" for r
    using that assms(2) by (auto simp: distinct_map inj_on_def)
  then show ?thesis by (simp add: cleanup_rows update_rows_def ids del: set_filter)
qed

definition old_row :: "nat \<Rightarrow> drow" where
  "old_row k = demo_row\<lparr>d_id := of_nat k, d_status := U ''completed'', d_result := Some (PInt 1),
     d_processed_at := Some (int k)\<rparr>"

lemma cleanup_purges_expired_example:
  "map d_result (documents (cleanup_expired_results (2 * retention) \<lparr>documents = [old_row 3, demo_row], outbox = []\<rparr>)) = [None, None]"
proof -
  let ?w = "\<lparr>documents = [old_row 3, demo_row], outbox = []\<rparr>"
  have "distinct (map d_id (documents ?w))"
    by (simp add: old_row_def demo_row_def queued_row_def demo_submission_def)
  from cleanup_purges_expired [OF _ this, of "2 * retention"] show ?thesis
    by (simp add: expired_def old_row_def demo_row_def queued_row_def purged_row_def retention_def minute_def)
qed

text \<open>
  Property C40: past a hundred the retention stops working. The query orders the processed documents
  by their time and takes the first hundred, and purging a row does not take it out of the query;
  so once a hundred documents have expired, every later sweep purges those same hundred again, and
  any other document keeps its result however long it is past the retention and however many
  sweeps run.
\<close>

theorem cleanup_starves:
  assumes "100 \<le> length (filter (expired (first - retention)) (documents w))"
    and "list_all (\<lambda>now. first \<le> now) nows"
    and "i \<notin> set (list_expired_documents (first - retention) w)"
  shows "find_row d_id i (documents (fold cleanup_expired_results nows w)) = find_row d_id i (documents w)"
  using assms
proof (induction nows arbitrary: w)
  case Nil
  then show ?case by simp
next
  case (Cons now nows)
  let ?w = "cleanup_expired_results now w"
  have "list_expired_documents (now - retention) w = list_expired_documents (first - retention) w"
    using Cons.prems(1,2) by (intro list_expired_stuck) auto
  then have "i \<notin> set (list_expired_documents (now - retention) w)" using Cons.prems(3) by simp
  then have "find_row d_id i (documents ?w) = find_row d_id i (documents w)"
    by (cases "find_row d_id i (documents w)")
      (auto simp: cleanup_rows find_row_update purged_row_def dest: find_row_Some)
  moreover have "find_row d_id i (documents (fold cleanup_expired_results nows ?w)) = find_row d_id i (documents ?w)"
    by (rule Cons.IH) (use Cons.prems in \<open>simp_all add: cleanup_expired cleanup_list update_rows_def\<close>)
  ultimately show ?case by simp
qed

lemma many_expired:
  "filter (expired retention) (map old_row [0..<101]) = map old_row [0..<101]"
  by (rule filter_True) (simp add: expired_def old_row_def retention_def minute_def)

lemma many_listed:
  "list_expired_documents retention \<lparr>documents = map old_row [0..<101], outbox = []\<rparr> = map of_nat [0..<100]"
proof -
  have "sort_key (\<lambda>r. the (d_processed_at r)) (map old_row [0..<101]) = map old_row [0..<101]"
    by (rule sort_key_id_if_sorted) (simp add: old_row_def sorted_wrt_map comp_def sorted_map)
  then show ?thesis
    by (simp add: list_expired_documents_def many_expired take_map comp_def old_row_def)
qed

lemma fresh_id: "n \<le> k \<Longrightarrow> k < 2 ^ 128 \<Longrightarrow> (of_nat k :: uuid) \<notin> of_nat ` {0..<n}"
proof
  assume n: "n \<le> k" and k: "k < 2 ^ 128" and "(of_nat k :: uuid) \<in> of_nat ` {0..<n}"
  then obtain j where "j < n" "(of_nat k :: uuid) = of_nat j" by auto
  then have "unat (of_nat k :: uuid) = unat (of_nat j :: uuid)" by simp
  then show False using n k \<open>j < n\<close> by (simp add: unat_of_nat take_bit_nat_eq_self)
qed

theorem cleanup_starves_witness:
  "map_option d_result (find_row d_id 100 (documents (fold cleanup_expired_results [2 * retention, 3 * retention]
     \<lparr>documents = map old_row [0..<101], outbox = []\<rparr>))) = Some (Some (PInt 1))"
proof -
  let ?w = "\<lparr>documents = map old_row [0..<101], outbox = []\<rparr>"
  have a: "100 \<le> length (filter (expired (2 * retention - retention)) (documents ?w))"
    by (simp add: many_expired)
  have new: "(100 :: uuid) \<notin> of_nat ` {0..<100}" using fresh_id [of 100 100] by simp
  have "set (list_expired_documents (2 * retention - retention) ?w) = of_nat ` {0..<100}"
    by (simp only: many_listed set_map set_upt mult_2 add_diff_cancel_right')
  then have b: "100 \<notin> set (list_expired_documents (2 * retention - retention) ?w)" using new by simp
  have last: "map old_row [0..<101] = map old_row [0..<100] @ [old_row 100]"
    using upt_Suc_append [of 0 100] by simp
  have "d_id ` set (map old_row [0..<100]) = of_nat ` {0..<100}"
    unfolding set_map set_upt image_image by (intro image_cong refl) (simp add: old_row_def)
  then have "find_row d_id 100 (map old_row [0..<100]) = None" using new by (simp only: find_row_None) simp
  then have c: "map_option d_result (find_row d_id 100 (documents ?w)) = Some (Some (PInt 1))"
    by (simp only: db.select_convs last find_row_append) (simp add: find_row_def old_row_def)
  have "list_all (\<lambda>now. 2 * retention \<le> now) [2 * retention, 3 * retention]" by (simp add: retention_def minute_def)
  from cleanup_starves [OF a this b] c show ?thesis by simp
qed

subsection \<open>Jobs settle their documents\<close>

lemma settled_skips:
  assumes "py_uuid document_id = Some i" and "find_row d_id i (documents (w_db w)) = Some d" and "\<not> processable (d_status d)"
  shows "process_document E now s1 s2 document_id w = (w, Inr ())"
  using assms by (simp add: process_document_def get_document_def row_to_document_def)

lemma terminal_not_processable: "st \<in> set terminal_statuses \<Longrightarrow> \<not> processable st"
  by (auto simp: terminal_statuses_def processable_def)

text \<open>One try after the other, on the world the one before left.\<close>

definition try_on :: "pystr \<Rightarrow> attempt \<Rightarrow> world \<Rightarrow> world" where
  "try_on document_id = (\<lambda>(E, now, s1, s2) w. fst (process_document E now s1 s2 document_id w))"

lemma tries_skip:
  assumes "py_uuid document_id = Some i" and "find_row d_id i (documents (w_db w)) = Some d"
    and "d_status d \<in> set terminal_statuses"
  shows "fold (try_on document_id) tries w = w"
  using settled_skips [OF assms(1,2) terminal_not_processable [OF assms(3)]]
  by (induction tries) (auto simp: try_on_def)

text \<open>What tries come to: the document \<open>d\<close> is settled and told, or still processing after an exception.\<close>

definition comes_to :: "uuid \<Rightarrow> drow \<Rightarrow> db \<Rightarrow> db \<Rightarrow> unit res \<Rightarrow> bool" where
  "comes_to i d w w' r \<longleftrightarrow> others i w' = others i w
     \<and> ((\<exists>d' ev. find_row d_id i (documents w') = Some d' \<and> d_status d' \<in> set terminal_statuses
          \<and> d_processed_at d' \<noteq> None \<and> outbox w' = outbox w @ [ev] \<and> tells d' ev)
        \<or> (\<exists>e t. r = Inl e \<and> outbox w' = outbox w \<and> find_row d_id i (documents w') = Some (marked_row d t)))"

lemma process_comes_to:
  assumes "process_document E now s1 s2 document_id w = (w', r)" and "py_uuid document_id = Some i"
    and "find_row d_id i (documents (w_db w)) = Some d" and "processable (d_status d)"
  shows "comes_to i d (w_db w) (w_db w') r"
  by (rule process_outcome [OF assms]) (auto simp: comes_to_def)

lemma comes_to_again:
  assumes "comes_to i (marked_row d t) w1 w' r" and "outbox w1 = outbox w" and "others i w1 = others i w"
  shows "comes_to i d w w' r"
  using assms unfolding comes_to_def by auto

lemma job_comes_to:
  assumes "run_job document_id tries w = (w', r)" and "tries \<noteq> []" and "py_uuid document_id = Some i"
    and "find_row d_id i (documents (w_db w)) = Some d" and "processable (d_status d)"
  shows "comes_to i d (w_db w) (w_db w') r \<and> w' = fold (try_on document_id) tries w"
  using assms(1,2,4,5)
proof (induction tries arbitrary: w d)
  case (Cons att later)
  obtain E now s1 s2 where t: "att = (E, now, s1, s2)" by (cases att)
  obtain w1 x where p: "process_document E now s1 s2 document_id w = (w1, x)" by fastforce
  have first: "try_on document_id att w = w1" by (simp add: try_on_def t p)
  have c: "comes_to i d (w_db w) (w_db w1) x" by (rule process_comes_to [OF p assms(3) Cons.prems(3,4)])
  show ?case
  proof (cases "later = []")
    case True
    then have "w' = w1" "r = x" using Cons.prems(1) p by (auto simp: t split: sum.splits)
    then show ?thesis using c first True by simp
  next
    case more: False
    from c [unfolded comes_to_def] consider
        (settled) d' ev where "find_row d_id i (documents (w_db w1)) = Some d'" "d_status d' \<in> set terminal_statuses"
          "d_processed_at d' \<noteq> None" "outbox (w_db w1) = outbox (w_db w) @ [ev]" "tells d' ev"
          "others i (w_db w1) = others i (w_db w)"
      | (kept) e u where "x = Inl e" "outbox (w_db w1) = outbox (w_db w)"
          "find_row d_id i (documents (w_db w1)) = Some (marked_row d u)" "others i (w_db w1) = others i (w_db w)"
      by blast
    then show ?thesis
    proof cases
      case (settled d' ev)
      have skip: "process_document E' n v1 v2 document_id w1 = (w1, Inr ())" for E' n v1 v2
        by (rule settled_skips [OF assms(3) settled(1) terminal_not_processable [OF settled(2)]])
      have "w' = w1" using Cons.prems(1) p by (cases x; cases later) (auto simp: t skip)
      moreover have "comes_to i d (w_db w) (w_db w1) r" using settled unfolding comes_to_def by blast
      ultimately show ?thesis using first tries_skip [OF assms(3) settled(1,2), of later] by simp
    next
      case (kept e u)
      then have job: "run_job document_id later w1 = (w', r)" using Cons.prems(1) p more by (simp add: t)
      have "processable (d_status (marked_row d u))" by (simp add: processable_def)
      note rest = Cons.IH [OF job more kept(3) this]
      show ?thesis using comes_to_again [OF conjunct1 [OF rest] kept(2,4)] rest first by simp
    qed
  qed
qed simp

text \<open>
  Property C5: what a job comes to, whatever the driver, the file and the provider are at each
  of its tries. After it, either the document is settled and exactly one event was added for it
  by all the tries together, which tells its row; or the row is still \<open>processing\<close>, no event was
  written, and the job ends with an exception, so that the queue knows of it. Every other row is as
  before. And the job goes on to the end: the outcome is that of running all the tries one after the
  other, since a try that raises leaves the document to the next, and a try after the settling one finds
  nothing to do.
\<close>

theorem job_settles:
  assumes "run_job document_id (attempt # attempts) w = (w', r)" and "py_uuid document_id = Some i"
    and "find_row d_id i (documents (w_db w)) = Some d" and "processable (d_status d)"
  shows "((\<exists>d' ev. find_row d_id i (documents (w_db w')) = Some d' \<and> d_status d' \<in> set terminal_statuses
          \<and> d_processed_at d' \<noteq> None \<and> outbox (w_db w') = outbox (w_db w) @ [ev] \<and> tells d' ev)
       \<or> (\<exists>e t. r = Inl e \<and> outbox (w_db w') = outbox (w_db w)
          \<and> find_row d_id i (documents (w_db w')) = Some (d\<lparr>d_status := U ''processing'', d_updated_at := t\<rparr>)))
    \<and> filter (\<lambda>q. d_id q \<noteq> i) (documents (w_db w')) = filter (\<lambda>q. d_id q \<noteq> i) (documents (w_db w))
    \<and> w' = fold (\<lambda>(E, now, s1, s2) u. fst (process_document E now s1 s2 document_id u)) (attempt # attempts) w"
  using job_comes_to [OF assms(1) _ assms(2-4)] by (simp add: comes_to_def others_def try_on_def) blast

theorem job_settles_witness:
  "case fst (run_job (uuid_str 7) [(demo_env, 200, demo_stamp, demo_stamp), (lost_env, 300, demo_stamp, demo_stamp)] demo_world) of
     w' \<Rightarrow> \<exists>d' ev. find_row d_id 7 (documents (w_db w')) = Some d' \<and> d_status d' \<in> set terminal_statuses
        \<and> outbox (w_db w') = [ev] \<and> tells d' ev"
proof -
  let ?tries = "[(demo_env, 200, demo_stamp, demo_stamp), (lost_env, 300, demo_stamp, demo_stamp)]"
  obtain w' where p: "run_job (uuid_str 7) ?tries demo_world = (w', Inr ())"
  proof
    have "snd (run_job (uuid_str 7) ?tries demo_world) = Inr ()" by code_simp
    then show "run_job (uuid_str 7) ?tries demo_world = (fst (run_job (uuid_str 7) ?tries demo_world), Inr ())"
      by (metis prod.collapse)
  qed
  from job_settles [OF p demo_found] p show ?thesis by (auto simp: demo_world_def)
qed

end
