(* ===== verification/Ocr_Servicer.thy ===== *)
theory Ocr_Servicer
  imports Ocr_Worker
begin

text \<open>
  The gRPC servicer (\<open>api/servicer.py\<close>): the validation of a submission in the order of the
  contract, the three calls, and the answer that is built from a document row. A call changes the
  world, the queue of jobs and the counters; it ends with an answer, with an abort of the call
  (\<open>context.abort\<close> raises), or with an exception nobody handles.
\<close>

subsection \<open>Requests and answers\<close>

record file_source =
  src_bucket :: pystr
  src_storage_path :: pystr
  src_size_bytes :: int
  src_declared_mime :: pystr

record submit_request =
  rq_idempotency_key :: pystr
  rq_external_ref :: pystr
  rq_schema_id :: pystr
  rq_caller_id :: pystr
  rq_source :: file_source

datatype document_status =
    DOCUMENT_STATUS_QUEUED
  | DOCUMENT_STATUS_PROCESSING
  | DOCUMENT_STATUS_COMPLETED
  | DOCUMENT_STATUS_NEEDS_REVIEW
  | DOCUMENT_STATUS_FAILED

datatype field_status =
    FIELD_STATUS_UNSPECIFIED
  | FIELD_STATUS_EXTRACTED
  | FIELD_STATUS_LOW_CONFIDENCE
  | FIELD_STATUS_MISSING
  | FIELD_STATUS_INVALID

definition status_map :: "(pystr \<times> document_status) list" where
  "status_map =
     [(U ''queued'', DOCUMENT_STATUS_QUEUED), (U ''processing'', DOCUMENT_STATUS_PROCESSING),
      (U ''completed'', DOCUMENT_STATUS_COMPLETED), (U ''needs_review'', DOCUMENT_STATUS_NEEDS_REVIEW),
      (U ''failed'', DOCUMENT_STATUS_FAILED)]"

definition field_status_map :: "(pystr \<times> field_status) list" where
  "field_status_map =
     [(U ''extracted'', FIELD_STATUS_EXTRACTED), (U ''low_confidence'', FIELD_STATUS_LOW_CONFIDENCE),
      (U ''missing'', FIELD_STATUS_MISSING), (U ''invalid'', FIELD_STATUS_INVALID)]"

record submit_response =
  sb_document_id :: pystr
  sb_status :: document_status

record field_msg =
  fm_name :: pystr
  fm_status :: field_status
  fm_confidence :: rat
  fm_value :: pystr
  fm_amount :: int
  fm_currency :: pystr
  fm_bbox :: "(int \<times> int \<times> int \<times> int) option"
  fm_page :: int

record issue_msg =
  im_code :: pystr
  im_field :: pystr
  im_detail :: pystr

record result_msg =
  rm_schema_version :: pystr
  rm_avg_confidence :: rat
  rm_fields :: "field_msg list"
  rm_issues :: "issue_msg list"

record document_response =
  rs_document_id :: pystr
  rs_status :: document_status
  rs_result :: "result_msg option"
  rs_error :: "(pystr \<times> pystr) option"

text \<open>
  The message classes are generated and the protobuf runtime is not part of the repository: what an
  assignment to a string, an \<open>int64\<close> or an \<open>int32\<close> field stores, or the exception it raises, is a
  parameter.
\<close>

record protobuf =
  pb_string :: "pyv \<Rightarrow> pystr res"
  pb_int64 :: "int \<Rightarrow> int res"
  pb_int32 :: "int \<Rightarrow> int res"

subsection \<open>The result of a document as a message\<close>

definition field_status_of :: "pyv \<Rightarrow> field_status res" where
  "field_status_of v =
     (if hashable v
      then Inr (case v of
             PStr s \<Rightarrow> (case map_of field_status_map s of Some st \<Rightarrow> st | None \<Rightarrow> FIELD_STATUS_UNSPECIFIED)
           | _ \<Rightarrow> FIELD_STATUS_UNSPECIFIED)
      else Inl (TypeError (U ''unhashable type: '' @ py_repr (U (py_class v)))))"

definition fill_bbox :: "protobuf \<Rightarrow> pyv \<Rightarrow> (int \<times> int \<times> int \<times> int) option res" where
  "fill_bbox PB bbox =
     (if truthy bbox
      then (let side = (\<lambda>k. rbind (py_get bbox k (PInt 0)) (\<lambda>v. rbind (json_int v) (pb_int32 PB)))
            in rbind (side (U ''x1'')) (\<lambda>x1. rbind (side (U ''y1'')) (\<lambda>y1.
               rbind (side (U ''x2'')) (\<lambda>x2. rbind (side (U ''y2'')) (\<lambda>y2. Inr (Some (x1, y1, x2, y2)))))))
      else Inr None)"

definition fill_field :: "libs \<Rightarrow> protobuf \<Rightarrow> pyv \<Rightarrow> field_msg res" where
  "fill_field L PB fld =
     rbind (rbind (py_get fld (U ''name'') (PStr [])) (pb_string PB)) (\<lambda>name.
     rbind (rbind (py_get fld (U ''status'') (PStr (U ''missing''))) field_status_of) (\<lambda>status.
     rbind (rbind (py_get fld (U ''confidence'') (PFloat 0)) (py_float L)) (\<lambda>confidence.
     rbind (py_get fld (U ''value'') PNone) (\<lambda>value.
     rbind (if truthy value then pb_string PB (PStr (py_str (interp.truncate L) value)) else Inr []) (\<lambda>value'.
     rbind (py_get fld (U ''amount'') PNone) (\<lambda>amount.
     rbind (if amount \<noteq> PNone then rbind (json_int amount) (pb_int64 PB) else Inr 0) (\<lambda>amount'.
     rbind (py_get fld (U ''currency'') PNone) (\<lambda>currency.
     rbind (if truthy currency then pb_string PB currency else Inr []) (\<lambda>currency'.
     rbind (rbind (py_get fld (U ''bbox'') PNone) (fill_bbox PB)) (\<lambda>bbox.
     rbind (rbind (rbind (py_get fld (U ''page'') (PInt 1)) json_int) (pb_int32 PB)) (\<lambda>page.
       Inr \<lparr>fm_name = name, fm_status = status, fm_confidence = confidence, fm_value = value',
            fm_amount = amount', fm_currency = currency', fm_bbox = bbox, fm_page = page\<rparr>)))))))))))"

definition fill_issue :: "protobuf \<Rightarrow> pyv \<Rightarrow> issue_msg res" where
  "fill_issue PB v =
     rbind (rbind (py_get v (U ''code'') (PStr [])) (pb_string PB)) (\<lambda>code.
     rbind (rbind (py_get v (U ''field'') (PStr [])) (pb_string PB)) (\<lambda>field.
     rbind (rbind (py_get v (U ''detail'') (PStr [])) (pb_string PB)) (\<lambda>detail.
       Inr \<lparr>im_code = code, im_field = field, im_detail = detail\<rparr>)))"

definition fill_result :: "libs \<Rightarrow> protobuf \<Rightarrow> pyv \<Rightarrow> result_msg res" where
  "fill_result L PB result =
     rbind (rbind (py_get result (U ''schema_version'') (PStr (U ''1.0''))) (pb_string PB)) (\<lambda>version.
     rbind (rbind (py_get result (U ''avg_confidence'') (PFloat 0)) (py_float L)) (\<lambda>avg.
     rbind (rbind (py_get result (U ''fields'') (PList [])) py_iter) (\<lambda>items.
     rbind (rmap (fill_field L PB) items) (\<lambda>fields.
     rbind (rbind (py_get result (U ''issues'') (PList [])) py_iter) (\<lambda>issues.
     rbind (rmap (fill_issue PB) issues) (\<lambda>entries.
       Inr \<lparr>rm_schema_version = version, rm_avg_confidence = avg, rm_fields = fields, rm_issues = entries\<rparr>))))))"

text \<open>\<open>x or d\<close> on an optional text.\<close>

definition text_or :: "pystr option \<Rightarrow> pystr \<Rightarrow> pystr" where
  "text_or x d = (case x of Some t \<Rightarrow> if t \<noteq> [] then t else d | None \<Rightarrow> d)"

definition response_for :: "libs \<Rightarrow> protobuf \<Rightarrow> document_row \<Rightarrow> document_response res" where
  "response_for L PB doc =
     (case map_of status_map (dw_status doc) of
        None \<Rightarrow> Inl (KeyError (dw_status doc))
      | Some st \<Rightarrow>
          rbind (if dw_status doc = U ''completed'' \<or> dw_status doc = U ''needs_review''
                 then (case dw_result doc of
                         Some r \<Rightarrow> rbind (fill_result L PB r) (\<lambda>m. Inr (Some m))
                       | None \<Rightarrow> Inr None)
                 else Inr None) (\<lambda>result.
            Inr \<lparr>rs_document_id = uuid_str (dw_id doc), rs_status = st, rs_result = result,
                 rs_error = (if dw_status doc = U ''failed''
                             then Some (text_or (dw_error_code doc) (U ''INTERNAL''),
                                        text_or (dw_error_message doc) [])
                             else None)\<rparr>))"

subsection \<open>The validation of a submission\<close>

definition is_hex :: "int \<Rightarrow> bool" where
  "is_hex c \<longleftrightarrow> (48 \<le> c \<and> c \<le> 57) \<or> (97 \<le> c \<and> c \<le> 102) \<or> (65 \<le> c \<and> c \<le> 70)"

definition uuid_re :: re where
  "uuid_re =
     rseqs [RRep 8 8 (RChr is_hex), rlit 45, RRep 4 4 (RChr is_hex), rlit 45, RRep 4 4 (RChr is_hex), rlit 45,
            RRep 4 4 (RChr is_hex), rlit 45, RRep 12 12 (RChr is_hex)]"

text \<open>
  \<open>_UUID_RE.match(text)\<close>: the pattern from the first character on, up to \<open>$\<close>, which holds at the
  end of the text and before a line feed at its end.
\<close>

definition uuid_match :: "pystr \<Rightarrow> bool" where
  "uuid_match s \<longleftrightarrow>
     list_ex (\<lambda>m. rest m = [] \<or> rest m = [10]) (rmatches uuid_re \<lparr>pre = [], rest = s, caps = []\<rparr>)"

definition allowed_mimes :: "pystr list" where
  "allowed_mimes =
     [U ''image/jpeg'', U ''image/png'', U ''image/gif'', U ''image/tiff'', U ''image/bmp'', U ''image/webp'',
      U ''application/pdf'']"

text \<open>The text of the \<open>_Invalid\<close> that is raised, if one is.\<close>

definition validate_submit :: "settings \<Rightarrow> schema_map \<Rightarrow> submit_request \<Rightarrow> pystr option" where
  "validate_submit s schemas rq =
     (let source = rq_source rq
      in if \<not> uuid_match (rq_idempotency_key rq) then Some (U ''idempotency_key must be a UUID'')
         else if rq_external_ref rq = [] then Some (U ''external_ref must not be empty'')
         else if map_of schemas (rq_schema_id rq) = None
         then Some (U ''unknown schema_id '' @ py_repr (rq_schema_id rq))
         else if rq_caller_id rq = [] then Some (U ''caller_id must not be empty'')
         else if src_bucket source = [] \<or> src_storage_path source = []
         then Some (U ''source.bucket and source.storage_path are required'')
         else if src_bucket source \<notin> set (allowed_buckets s)
         then Some (U ''bucket '' @ py_repr (src_bucket source) @ U '' is not in the allowlist'')
         else if U ''..'' \<in> set (path_parts (src_storage_path source)) \<or> py_startswith (src_storage_path source) (U ''/'')
         then Some (U ''invalid storage_path '' @ py_repr (src_storage_path source))
         else if src_size_bytes source \<le> 0 \<or> src_size_bytes source > max_file_bytes s
         then Some (U ''size_bytes out of range (1..'' @ int_str (max_file_bytes s) @ U '')'')
         else if src_declared_mime source \<noteq> [] \<and> src_declared_mime source \<notin> set allowed_mimes
         then Some (U ''unsupported declared_mime '' @ py_repr (src_declared_mime source))
         else None)"


subsection \<open>The calls\<close>

datatype grpc_code =
    INVALID_ARGUMENT
  | NOT_FOUND
  | ALREADY_EXISTS
  | RESOURCE_EXHAUSTED
  | FAILED_PRECONDITION
  | UNAVAILABLE
  | INTERNAL

fun code_name :: "grpc_code \<Rightarrow> pystr" where
  "code_name INVALID_ARGUMENT = U ''INVALID_ARGUMENT''"
| "code_name NOT_FOUND = U ''NOT_FOUND''"
| "code_name ALREADY_EXISTS = U ''ALREADY_EXISTS''"
| "code_name RESOURCE_EXHAUSTED = U ''RESOURCE_EXHAUSTED''"
| "code_name FAILED_PRECONDITION = U ''FAILED_PRECONDITION''"
| "code_name UNAVAILABLE = U ''UNAVAILABLE''"
| "code_name INTERNAL = U ''INTERNAL''"

datatype failure = Abort grpc_code pystr | Raised exn

text \<open>The state a call works on: files and database, the jobs enqueued, and the calls counted.\<close>

record api =
  a_world :: world
  a_jobs :: "pystr list"
  a_rpcs :: "(pystr \<times> pystr) list"

text \<open>
  The servicer: the environment of its pipeline, which shares the store, the settings and the
  schemas (\<open>server.py\<close>), whether it was given one, and the protobuf runtime. The queue and the
  connection are parameters, by the identifier of the document: what \<open>enqueue\<close> raises for its job, if
  it raises (it has then not taken the job); what the INSERT raises after it has been committed, when
  the connection is lost before the reply; and what the DELETE of the rollback raises, with whether the
  row was deleted all the same.
\<close>

record servicer =
  sv_env :: env
  sv_pipeline :: bool
  sv_protobuf :: protobuf
  sv_enqueue :: "pystr \<Rightarrow> exn option"
  sv_lost :: "pystr \<Rightarrow> exn option"
  sv_delete :: "pystr \<Rightarrow> (exn \<times> bool) option"

text \<open>What a call finds outside: the method of its context and the trace of its span.\<close>

record rpc_context =
  cx_method :: "pystr option"
  cx_trace :: "int option"

definition method_name :: "rpc_context \<Rightarrow> pystr" where
  "method_name cx =
     (let full = (case cx_method cx of Some m \<Rightarrow> m | None \<Rightarrow> []);
          name = last (py_split 47 full)
      in if name \<noteq> [] then name else U ''unknown'')"

definition rpc_done :: "rpc_context \<Rightarrow> pystr \<Rightarrow> api \<Rightarrow> api" where
  "rpc_done cx status a = a\<lparr>a_rpcs := a_rpcs a @ [(method_name cx, status)]\<rparr>"

definition abort :: "rpc_context \<Rightarrow> grpc_code \<Rightarrow> pystr \<Rightarrow> api \<Rightarrow> api \<times> (failure + 'r)" where
  "abort cx code message a = (rpc_done cx (code_name code) a, Inl (Abort code message))"

definition trace_id :: "rpc_context \<Rightarrow> pystr option" where
  "trace_id cx = map_option (hex_digits 32) (cx_trace cx)"

definition set_db :: "db \<Rightarrow> api \<Rightarrow> api" where
  "set_db w a = a\<lparr>a_world := (a_world a)\<lparr>w_db := w\<rparr>\<rparr>"

definition api_db :: "api \<Rightarrow> db" where
  "api_db a = w_db (a_world a)"

definition submission_of :: "rpc_context \<Rightarrow> uuid \<Rightarrow> submit_request \<Rightarrow> submission" where
  "submission_of cx i rq =
     \<lparr>s_document_id = i, s_idempotency_key = rq_idempotency_key rq, s_external_ref = rq_external_ref rq,
      s_schema_id = rq_schema_id rq, s_caller_id = rq_caller_id rq,
      s_source_bucket = src_bucket (rq_source rq), s_source_path = src_storage_path (rq_source rq),
      s_declared_mime = src_declared_mime (rq_source rq), s_size_bytes = src_size_bytes (rq_source rq),
      s_trace_id = trace_id cx\<rparr>"

text \<open>The statement of \<open>_rollback\<close>.\<close>

definition delete_document :: "uuid \<Rightarrow> db \<Rightarrow> db" where
  "delete_document i w = w\<lparr>documents := filter (\<lambda>r. d_id r \<noteq> i) (documents w)\<rparr>"

text \<open>
  \<open>_rollback\<close>: an exception of the DELETE is logged and dropped, whether or not the row is gone; a
  cancellation passes through \<open>except Exception\<close>.
\<close>

definition rollback :: "servicer \<Rightarrow> uuid \<Rightarrow> db \<Rightarrow> db \<times> unit res" where
  "rollback S i w =
     (case sv_delete S (uuid_str i) of
        None \<Rightarrow> (delete_document i w, Inr ())
      | Some (e, applied) \<Rightarrow>
          (if applied then delete_document i w else w, if e = CancelledError then Inl CancelledError else Inr ()))"

text \<open>\<open>i\<close> is the identifier that \<open>uuid4\<close> draws, \<open>now\<close> the time of the insertion.\<close>

definition SubmitDocument ::
  "servicer \<Rightarrow> rpc_context \<Rightarrow> int \<Rightarrow> uuid \<Rightarrow> submit_request \<Rightarrow> api \<Rightarrow> api \<times> (failure + submit_response)" where
  "SubmitDocument S cx now i rq a =
     (let E = sv_env S
      in case validate_submit (e_settings E) (e_schemas E) rq of
           Some message \<Rightarrow> abort cx INVALID_ARGUMENT message a
         | None \<Rightarrow>
             (case submit_document (e_pg E) now (submission_of cx i rq) (api_db a) of
                (w, Inl e) \<Rightarrow> (set_db w a, Inl (Raised e))
              | (w, Inr inserted) \<Rightarrow>
                  (let a = set_db w a
                   in if \<not> inserted
                      then (case get_idempotent_document (e_pg E) (rq_idempotency_key rq) w of
                              Inl e \<Rightarrow> (a, Inl (Raised e))
                            | Inr existing \<Rightarrow>
                                abort cx ALREADY_EXISTS
                                  (U ''document_id='' @ (case existing of Some d \<Rightarrow> uuid_str (dw_id d) | None \<Rightarrow> U ''unknown'')) a)
                      else if sv_lost S (uuid_str i) \<noteq> None then (a, Inl (Raised (the (sv_lost S (uuid_str i)))))
                      else (case sv_enqueue S (uuid_str i) of
                              Some CancelledError \<Rightarrow> (a, Inl (Raised CancelledError))
                            | Some e \<Rightarrow>
                                (case rollback S i w of
                                   (w', Inl e') \<Rightarrow> (set_db w' a, Inl (Raised e'))
                                 | (w', Inr _) \<Rightarrow>
                                     abort cx RESOURCE_EXHAUSTED (U ''queue unavailable'') (set_db w' a))
                            | None \<Rightarrow>
                                (rpc_done cx (U ''OK'') (a\<lparr>a_jobs := a_jobs a @ [uuid_str i]\<rparr>),
                                 Inr \<lparr>sb_document_id = uuid_str i, sb_status = DOCUMENT_STATUS_QUEUED\<rparr>)))))"

definition cancelled_message :: pystr where
  "cancelled_message = U ''synchronous processing cancelled before completion''"

text \<open>\<open>_mark_cancelled\<close>: an exception while it writes is logged and dropped.\<close>

definition mark_cancelled :: "env \<Rightarrow> rpc_context \<Rightarrow> stamp \<Rightarrow> uuid \<Rightarrow> db \<Rightarrow> db" where
  "mark_cancelled E cx s i w =
     (case get_document (e_pg E) i w of
        None \<Rightarrow> w
      | Some doc \<Rightarrow>
          fst (finish_document (e_pg E) (st_now s) (st_row_id s) i
             \<lparr>f_status = U ''failed'', f_result = None, f_avg_confidence = None,
              f_error_code = Some (U ''INTERNAL''), f_error_message = Some cancelled_message\<rparr>
             (build_envelope s doc (U ''failed'') None (Some (error_dict (U ''INTERNAL'') cancelled_message)))
             (kafka_topic (e_settings E)) (trace_id cx) w))"

definition answer :: "servicer \<Rightarrow> rpc_context \<Rightarrow> document_row \<Rightarrow> api \<Rightarrow> api \<times> (failure + document_response)" where
  "answer S cx doc a =
     (rpc_done cx (U ''OK'') a,
      case response_for (e_libs (sv_env S)) (sv_protobuf S) doc of Inl e \<Rightarrow> Inl (Raised e) | Inr m \<Rightarrow> Inr m)"

text \<open>How the call ends once the pipeline has run on the document it inserted.\<close>

definition sync_answer ::
  "servicer \<Rightarrow> rpc_context \<Rightarrow> stamp \<Rightarrow> uuid \<Rightarrow> world \<times> unit res \<Rightarrow> api \<Rightarrow> api \<times> (failure + document_response)" where
  "sync_answer S cx s i run a =
     (case run of
        (w, Inl CancelledError) \<Rightarrow>
          (rpc_done cx (U ''CANCELLED'') (a\<lparr>a_world := w\<lparr>w_db := mark_cancelled (sv_env S) cx s i (w_db w)\<rparr>\<rparr>),
           Inl (Raised CancelledError))
      | (w, Inl e) \<Rightarrow> abort cx INTERNAL (U ''processing failed'') (a\<lparr>a_world := w\<rparr>)
      | (w, Inr _) \<Rightarrow>
          (case get_document (e_pg (sv_env S)) i (w_db w) of
             None \<Rightarrow> abort cx INTERNAL (U ''document vanished after processing'') (a\<lparr>a_world := w\<rparr>)
           | Some doc \<Rightarrow> answer S cx doc (a\<lparr>a_world := w\<rparr>)))"

text \<open>
  \<open>mark\<close>, \<open>s1\<close> and \<open>s2\<close> are what the pipeline draws, \<open>s3\<close> what the marking of a cancelled document
  draws.
\<close>

definition ProcessDocument ::
  "servicer \<Rightarrow> rpc_context \<Rightarrow> int \<Rightarrow> uuid \<Rightarrow> int \<times> stamp \<times> stamp \<times> stamp \<Rightarrow> submit_request \<Rightarrow> api
     \<Rightarrow> api \<times> (failure + document_response)" where
  "ProcessDocument S cx now i drawn rq a =
     (let E = sv_env S; size = src_size_bytes (rq_source rq)
      in case validate_submit (e_settings E) (e_schemas E) rq of
           Some message \<Rightarrow> abort cx INVALID_ARGUMENT message a
         | None \<Rightarrow>
             if size > sync_max_bytes (e_settings E)
             then abort cx FAILED_PRECONDITION
                    (U ''size_bytes '' @ int_str size @ U '' exceeds the synchronous cap (''
                       @ int_str (sync_max_bytes (e_settings E)) @ U ''); submit via SubmitDocument instead'') a
             else if \<not> sv_pipeline S then abort cx UNAVAILABLE (U ''processing not configured'') a
             else (case submit_document (e_pg E) now (submission_of cx i rq) (api_db a) of
                (w, Inl e) \<Rightarrow> (set_db w a, Inl (Raised e))
              | (w, Inr inserted) \<Rightarrow>
                  (let a = set_db w a
                   in if \<not> inserted
                      then (case get_idempotent_document (e_pg E) (rq_idempotency_key rq) w of
                              Inl e \<Rightarrow> (a, Inl (Raised e))
                            | Inr None \<Rightarrow> abort cx INTERNAL (U ''idempotent document vanished'') a
                            | Inr (Some existing) \<Rightarrow> answer S cx existing a)
                      else (case drawn of (mark, s1, s2, s3) \<Rightarrow>
                             sync_answer S cx s3 i (process_document E mark s1 s2 (uuid_str i) (a_world a)) a))))"

definition GetDocument ::
  "servicer \<Rightarrow> rpc_context \<Rightarrow> pystr \<Rightarrow> api \<Rightarrow> api \<times> (failure + document_response)" where
  "GetDocument S cx document_id a =
     (case py_uuid document_id of
        None \<Rightarrow> abort cx INVALID_ARGUMENT (U ''document_id is not a UUID'') a
      | Some i \<Rightarrow>
          (case get_document (e_pg (sv_env S)) i (api_db a) of
             None \<Rightarrow> abort cx NOT_FOUND (U ''document not found'') a
           | Some doc \<Rightarrow> answer S cx doc a))"

subsection \<open>Keys\<close>

lemma rep_chr_fixed:
  "rmatches (RRep n n (RChr p)) st =
     (if n \<le> length (rest st) \<and> list_all p (take n (rest st))
      then [st\<lparr>pre := rev (take n (rest st)) @ pre st, rest := drop n (rest st)\<rparr>] else [])"
proof -
  have "rep_iter (chr_step p) n n st =
     (if n \<le> length (rest st) \<and> list_all p (take n (rest st))
      then [st\<lparr>pre := rev (take n (rest st)) @ pre st, rest := drop n (rest st)\<rparr>] else [])"
  proof (induction n arbitrary: st)
    case 0
    then show ?case by simp
  next
    case (Suc n)
    show ?case
    proof (cases "rest st")
      case Nil
      then show ?thesis by (simp add: chr_step_def)
    next
      case (Cons c cs)
      then have "chr_step p st = (if p c then [st\<lparr>pre := c # pre st, rest := cs\<rparr>] else [])"
        by (simp add: chr_step_def)
      then show ?thesis using Cons by (simp add: Suc.IH)
    qed
  qed
  then show ?thesis by (simp add: fun_eq_iff cong: if_cong)
qed

text \<open>A key in five groups of hexadecimal digits passes, with or without a line feed after it.\<close>

lemma uuid_match_groups:
  assumes "list_all is_hex (a @ b @ c @ d @ e)" and "length a = 8" "length b = 4" "length c = 4" "length d = 4"
    and "length e = 12" and "tail = [] \<or> tail = [10]"
  shows "uuid_match (a @ 45 # b @ 45 # c @ 45 # d @ 45 # e @ tail)"
  using assms
  by (simp add: uuid_match_def uuid_re_def rep_chr_fixed rlit_def chr_step_def del: rmatches.simps(7))

lemma hex_digits_hex: "list_all is_hex (hex_digits w n)"
  using hex_digits_set [of w n] by (auto simp: list_all_iff is_hex_def)

lemma uuid_str_matches:
  assumes "tail = [] \<or> tail = [10]"
  shows "uuid_match (uuid_str u @ tail)"
proof -
  define h where "h = hex_digits 32 (uint u)"
  have l: "length h = 32" by (simp add: h_def hex_digits_def)
  have x: "list_all is_hex h" by (simp add: h_def hex_digits_hex)
  have part: "list_all is_hex (take n (drop m h))" for n m
    using x in_set_dropD in_set_takeD unfolding list_all_iff by metis
  have "list_all is_hex (take 8 h @ take 4 (drop 8 h) @ take 4 (drop 12 h) @ take 4 (drop 16 h) @ drop 20 h)"
    using part [of 8 0] part [of 4 8] part [of 4 12] part [of 4 16] part [of 12 20] l by simp
  from uuid_match_groups [OF this _ _ _ _ _ assms] l show ?thesis
    by (simp add: uuid_str_def flip: h_def)
qed

subsection \<open>What the validation lets through\<close>

lemma validate_submit_None:
  "validate_submit s schemas rq = None \<longleftrightarrow>
     uuid_match (rq_idempotency_key rq) \<and> rq_external_ref rq \<noteq> [] \<and> map_of schemas (rq_schema_id rq) \<noteq> None
     \<and> rq_caller_id rq \<noteq> [] \<and> src_bucket (rq_source rq) \<noteq> []
     \<and> validate_ref s (src_bucket (rq_source rq)) (src_storage_path (rq_source rq)) = Inr ()
     \<and> 1 \<le> src_size_bytes (rq_source rq) \<and> src_size_bytes (rq_source rq) \<le> max_file_bytes s
     \<and> (src_declared_mime (rq_source rq) = [] \<or> src_declared_mime (rq_source rq) \<in> set allowed_mimes)"
  by (auto simp: validate_submit_def validate_ref_def Let_def)

definition demo_request :: submit_request where
  "demo_request = \<lparr>rq_idempotency_key = uuid_str 49, rq_external_ref = U ''order-1'', rq_schema_id = U ''receipt@1'',
     rq_caller_id = U ''billing'',
     rq_source = \<lparr>src_bucket = U ''docs'', src_storage_path = U ''a/scan.pdf'', src_size_bytes = 1000,
                 src_declared_mime = U ''application/pdf''\<rparr>\<rparr>"

definition demo_protobuf :: protobuf where
  "demo_protobuf = \<lparr>pb_string = (\<lambda>v. case v of PStr s \<Rightarrow> Inr s | _ \<Rightarrow> Inl (TypeError (U ''bad argument type''))),
     pb_int64 = (\<lambda>n. if - (2 ^ 63) \<le> n \<and> n < 2 ^ 63 then Inr n else Inl (ValueError (U ''out of range''))),
     pb_int32 = (\<lambda>n. if - (2 ^ 31) \<le> n \<and> n < 2 ^ 31 then Inr n else Inl (ValueError (U ''out of range'')))\<rparr>"

text \<open>A driver that takes the texts of UUIDs only, and a queue that always answers.\<close>

definition strict_env :: env where
  "strict_env = demo_env\<lparr>e_pg := demo_pg\<lparr>pg_uuid := (\<lambda>t. if length t = 36 then py_uuid t else None),
     pg_uuid_out := (\<lambda>u. PStr (uuid_str u))\<rparr>\<rparr>"

definition demo_servicer :: servicer where
  "demo_servicer = \<lparr>sv_env = strict_env, sv_pipeline = True, sv_protobuf = demo_protobuf, sv_enqueue = (\<lambda>_. None),
     sv_lost = (\<lambda>_. None), sv_delete = (\<lambda>_. None)\<rparr>"

definition demo_context :: rpc_context where
  "demo_context = \<lparr>cx_method = Some (U ''/document.v1.DocumentService/SubmitDocument''), cx_trace = None\<rparr>"

definition api_init :: api where
  "api_init = \<lparr>a_world = \<lparr>w_io = io_init, w_db = db_init\<rparr>, a_jobs = [], a_rpcs = []\<rparr>"

lemma api_init_facts [simp]: "a_jobs api_init = []" "a_rpcs api_init = []" "a_world api_init = \<lparr>w_io = io_init, w_db = db_init\<rparr>"
  by (simp_all add: api_init_def)

lemma length_uuid_str [simp]: "length (uuid_str u) = 36"
  by (simp add: uuid_str_def Let_def hex_digits_def)

lemma demo_valid: "validate_submit (e_settings strict_env) (e_schemas strict_env) demo_request = None"
  using uuid_str_matches [of "[]" 49]
  by (simp add: validate_submit_None demo_request_def strict_env_def demo_env_def demo_settings_def validate_ref_def
      path_parts_def py_startswith_def allowed_mimes_def U_def)

text \<open>
  Property C24: what the validation lets through, the pipeline does not refuse: an accepted request
  names a loaded schema, its object passes the check the download makes of the reference, its
  declared size is between one byte and the cap, and its media type, if it declares one, is
  one of the seven.
\<close>

theorem accepted_submission_safe:
  assumes "validate_submit s schemas rq = None"
  shows "validate_ref s (src_bucket (rq_source rq)) (src_storage_path (rq_source rq)) = Inr ()
    \<and> safe_ref s (src_bucket (rq_source rq)) (src_storage_path (rq_source rq))
    \<and> map_of schemas (rq_schema_id rq) \<noteq> None
    \<and> 1 \<le> src_size_bytes (rq_source rq) \<and> src_size_bytes (rq_source rq) \<le> max_file_bytes s
    \<and> src_declared_mime (rq_source rq) \<in> insert [] (set allowed_mimes)
    \<and> uuid_match (rq_idempotency_key rq) \<and> rq_external_ref rq \<noteq> [] \<and> rq_caller_id rq \<noteq> []"
  using assms validate_ref_safe by (auto simp: validate_submit_None)

theorem accepted_submission_safe_witness:
  "safe_ref (e_settings strict_env) (U ''docs'') (U ''a/scan.pdf'')"
  using accepted_submission_safe [OF demo_valid] by (simp add: demo_request_def)

text \<open>
  The expression of the key ends in \<open>$\<close>, which also holds before a final line feed. So
  the text of a UUID with a line feed after it passes the validation, and with a driver that
  does not read such a text as a UUID the call ends with an exception nobody handles, uncounted
  and without the INVALID_ARGUMENT the contract has for it.
\<close>

lemma newline_key_unhandled:
  assumes "validate_submit (e_settings (sv_env S)) (e_schemas (sv_env S)) rq = None"
    and "pg_uuid (e_pg (sv_env S)) (uuid_str u @ [10]) = None"
  shows "SubmitDocument S cx now i (rq\<lparr>rq_idempotency_key := uuid_str u @ [10]\<rparr>) a = (a, Inl (Raised data_error))"
proof -
  have "validate_submit (e_settings (sv_env S)) (e_schemas (sv_env S)) (rq\<lparr>rq_idempotency_key := uuid_str u @ [10]\<rparr>) = None"
    using assms(1) uuid_str_matches [of "[10]" u] by (simp add: validate_submit_None)
  then show ?thesis using assms(2)
    by (simp add: SubmitDocument_def submit_document_def submission_of_def set_db_def api_db_def)
qed

lemma newline_key_unhandled_example:
  "snd (SubmitDocument demo_servicer demo_context 100 7 (demo_request\<lparr>rq_idempotency_key := uuid_str 49 @ [10]\<rparr>) api_init)
     = Inl (Raised data_error)"
proof -
  have "pg_uuid (e_pg (sv_env demo_servicer)) (uuid_str 49 @ [10]) = None"
    by (simp add: demo_servicer_def strict_env_def)
  moreover have "validate_submit (e_settings (sv_env demo_servicer)) (e_schemas (sv_env demo_servicer)) demo_request = None"
    using demo_valid by (simp add: demo_servicer_def)
  ultimately show ?thesis by (simp add: newline_key_unhandled)
qed

subsection \<open>Submitting\<close>

lemma set_db_facts [simp]:
  "api_db (set_db w a) = w" "a_jobs (set_db w a) = a_jobs a" "a_rpcs (set_db w a) = a_rpcs a"
  "set_db w (set_db w' a) = set_db w a" "set_db (api_db a) a = a" "w_io (a_world (set_db w a)) = w_io (a_world a)"
  "api_db (a\<lparr>a_jobs := jobs\<rparr>) = api_db a" "api_db (a\<lparr>a_world := u\<rparr>) = w_db u"
  by (simp_all add: api_db_def set_db_def)

lemma rpc_done_facts [simp]:
  "a_world (rpc_done cx st a) = a_world a" "api_db (rpc_done cx st a) = api_db a" "a_jobs (rpc_done cx st a) = a_jobs a"
  "a_rpcs (rpc_done cx st a) = a_rpcs a @ [(method_name cx, st)]"
  by (simp_all add: rpc_done_def api_db_def)

lemma abort_facts [simp]:
  "snd (abort cx code message a) = Inl (Abort code message)"
  "fst (abort cx code message a) = rpc_done cx (code_name code) a"
  by (simp_all add: abort_def)

lemma delete_appended:
  "i \<notin> d_id ` set (documents w) \<Longrightarrow> d_id row = i \<Longrightarrow> delete_document i (w\<lparr>documents := documents w @ [row]\<rparr>) = w"
  by (cases w) (auto simp: delete_document_def filter_id_conv image_iff)

text \<open>
  What a call that ends with a failure has counted: an abort counts itself, an exception that leaves
  the call is not counted.
\<close>

fun counted :: "failure \<Rightarrow> (pystr \<times> pystr) list \<Rightarrow> rpc_context \<Rightarrow> (pystr \<times> pystr) list" where
  "counted (Abort code message) rpcs cx = rpcs @ [(method_name cx, code_name code)]"
| "counted (Raised e) rpcs cx = rpcs"

text \<open>
  When a submission that is not answered can leave its row behind: the reply to the INSERT was lost,
  the call was cancelled while it handed the job over, or the queue refused the job and the DELETE
  of the rollback failed.
\<close>

definition may_strand :: "servicer \<Rightarrow> uuid \<Rightarrow> bool" where
  "may_strand S i \<longleftrightarrow>
     sv_lost S (uuid_str i) \<noteq> None \<or> sv_enqueue S (uuid_str i) = Some CancelledError
     \<or> (sv_enqueue S (uuid_str i) \<noteq> None \<and> (\<exists>e. sv_delete S (uuid_str i) = Some (e, False)))"

text \<open>The ways a submission ends.\<close>

lemma SubmitDocument_cases:
  assumes "SubmitDocument S cx now i rq a = (a', r)"
  obtains (invalid) message where "validate_submit (e_settings (sv_env S)) (e_schemas (sv_env S)) rq = Some message"
      and "a' = rpc_done cx (U ''INVALID_ARGUMENT'') a" and "r = Inl (Abort INVALID_ARGUMENT message)"
    | (refused) e where "a' = a" and "r = Inl (Raised e)"
    | (exists) existing where "get_idempotent_document (e_pg (sv_env S)) (rq_idempotency_key rq) (api_db a) = Inr existing"
        and "a' = rpc_done cx (U ''ALREADY_EXISTS'') a"
        and "r = Inl (Abort ALREADY_EXISTS (U ''document_id='' @
               (case existing of Some d \<Rightarrow> uuid_str (dw_id d) | None \<Rightarrow> U ''unknown'')))"
    | (stored) key where "validate_submit (e_settings (sv_env S)) (e_schemas (sv_env S)) rq = None"
        and "pg_uuid (e_pg (sv_env S)) (rq_idempotency_key rq) = Some key"
        and "i \<notin> d_id ` set (documents (api_db a))" and "key \<notin> d_key ` set (documents (api_db a))"
        and "sv_enqueue S (uuid_str i) = None"
        and "a' = rpc_done cx (U ''OK'') ((set_db ((api_db a)\<lparr>documents := documents (api_db a)
               @ [queued_row now key (submission_of cx i rq)]\<rparr>) a)\<lparr>a_jobs := a_jobs a @ [uuid_str i]\<rparr>)"
        and "r = Inr \<lparr>sb_document_id = uuid_str i, sb_status = DOCUMENT_STATUS_QUEUED\<rparr>"
        and "submit_document (e_pg (sv_env S)) now (submission_of cx i rq) (api_db a) = (api_db a', Inr True)"
    | (stranded) key f where "pg_uuid (e_pg (sv_env S)) (rq_idempotency_key rq) = Some key"
        and "i \<notin> d_id ` set (documents (api_db a))" and "key \<notin> d_key ` set (documents (api_db a))"
        and "may_strand S i" and "r = Inl f" and "a_jobs a' = a_jobs a" and "w_io (a_world a') = w_io (a_world a)"
        and "api_db a' = (api_db a)\<lparr>documents := documents (api_db a) @ [queued_row now key (submission_of cx i rq)]\<rparr>"
        and "a_rpcs a' = counted f (a_rpcs a) cx"
        and "submit_document (e_pg (sv_env S)) now (submission_of cx i rq) (api_db a) = (api_db a', Inr True)"
    | (rolled_back) e where "sv_enqueue S (uuid_str i) = Some e"
        and "a' = rpc_done cx (U ''RESOURCE_EXHAUSTED'') a"
        and "r = Inl (Abort RESOURCE_EXHAUSTED (U ''queue unavailable''))"
proof (cases "validate_submit (e_settings (sv_env S)) (e_schemas (sv_env S)) rq")
  case (Some message)
  then show ?thesis using assms invalid by (auto simp: SubmitDocument_def abort_def)
next
  case valid: None
  obtain w x where s: "submit_document (e_pg (sv_env S)) now (submission_of cx i rq) (api_db a) = (w, x)" by fastforce
  from s show ?thesis
  proof (cases rule: submit_cases)
    case not_stored: refused
    show ?thesis
    proof (cases x)
      case (Inl e)
      then show ?thesis using assms valid s not_stored refused by (auto simp: SubmitDocument_def)
    next
      case (Inr b)
      with not_stored have b: "b = False" by simp
      show ?thesis
      proof (cases "get_idempotent_document (e_pg (sv_env S)) (rq_idempotency_key rq) (api_db a)")
        case (Inl e)
        then show ?thesis using assms valid s not_stored Inr b refused by (auto simp: SubmitDocument_def Let_def)
      next
        case existing: (Inr existing)
        then show ?thesis using assms valid s not_stored Inr b
          by (intro exists [OF existing]) (auto simp: SubmitDocument_def Let_def abort_def)
      qed
    qed
  next
    case row: (stored key)
    have i: "s_document_id (submission_of cx i rq) = i" "s_idempotency_key (submission_of cx i rq) = rq_idempotency_key rq"
      by (simp_all add: submission_of_def)
    note row = row [unfolded i]
    show ?thesis
    proof (cases "sv_lost S (uuid_str i)")
      case (Some e)
      then show ?thesis using assms valid s row
        by (intro stranded [OF row(1,4,5), of "Raised e"]) (auto simp: SubmitDocument_def Let_def may_strand_def)
    next
      case kept: None
      show ?thesis
      proof (cases "sv_enqueue S (uuid_str i)")
        case None
        then show ?thesis using assms valid s row kept
          by (intro stored [OF valid row(1,4,5) None]) (auto simp: SubmitDocument_def Let_def)
      next
        case (Some e)
        have undone: "delete_document i w = api_db a"
          unfolding row(6) by (rule delete_appended [OF row(4)]) (simp add: queued_row_def i)
        show ?thesis
        proof (cases "e = CancelledError")
          case True
          then show ?thesis using assms valid s row Some kept
            by (intro stranded [OF row(1,4,5), of "Raised CancelledError"]) (auto simp: SubmitDocument_def Let_def may_strand_def)
        next
          case False
          obtain w' x' where b: "rollback S i w = (w', x')" by fastforce
          have ended: "(a', r) = (case x' of Inl e' \<Rightarrow> (set_db w' a, Inl (Raised e'))
              | Inr _ \<Rightarrow> abort cx RESOURCE_EXHAUSTED (U ''queue unavailable'') (set_db w' a))"
            using assms valid s row Some kept False b
            by (cases e) (simp_all add: SubmitDocument_def Let_def split: sum.splits)
          consider (deleted) "w' = api_db a" "sv_delete S (uuid_str i) = None \<or> (\<exists>e'. sv_delete S (uuid_str i) = Some (e', True))"
            | (left) e' where "w' = w" "sv_delete S (uuid_str i) = Some (e', False)"
            using b undone by (auto simp: rollback_def split: option.splits if_splits)
          then show ?thesis
          proof cases
            case deleted
            show ?thesis
            proof (cases x')
              case (Inl e')
              then show ?thesis using ended deleted by (intro refused [of e']) auto
            next
              case (Inr u)
              then show ?thesis using ended deleted by (intro rolled_back [OF Some]) (auto simp: abort_def)
            qed
          next
            case (left e')
            have m: "may_strand S i" using left Some by (auto simp: may_strand_def)
            show ?thesis
            proof (cases x')
              case (Inl e'')
              then show ?thesis using ended left row s
                by (intro stranded [OF row(1,4,5) m, of "Raised e''"]) auto
            next
              case (Inr u)
              then show ?thesis using ended left row s
                by (intro stranded [OF row(1,4,5) m, of "Abort RESOURCE_EXHAUSTED (U ''queue unavailable'')"])
                  (auto simp: abort_def)
            qed
          qed
        qed
      qed
    qed
  qed
qed


definition demo_stored :: db where
  "demo_stored = \<lparr>documents = [queued_row 100 49 (submission_of demo_context 7 demo_request)], outbox = []\<rparr>"

lemma demo_insert:
  "submit_document (e_pg strict_env) 100 (submission_of demo_context 7 demo_request) db_init = (demo_stored, Inr True)"
  by (simp add: strict_env_def demo_request_def submission_of_def trace_id_def demo_context_def submit_document_def
      demo_pg_def py_uuid_str insertable_def queued_row_def db_init_def demo_stored_def)

lemma demo_sv_env [simp]: "sv_env demo_servicer = strict_env"
  by (simp add: demo_servicer_def)

lemma demo_SubmitDocument:
  "SubmitDocument (demo_servicer\<lparr>sv_enqueue := q, sv_delete := d\<rparr>) demo_context 100 7 demo_request api_init =
     (case q (uuid_str 7) of
        Some CancelledError \<Rightarrow> (set_db demo_stored api_init, Inl (Raised CancelledError))
      | Some e \<Rightarrow>
          (case rollback (demo_servicer\<lparr>sv_enqueue := q, sv_delete := d\<rparr>) 7 demo_stored of
             (w', Inl e') \<Rightarrow> (set_db w' (set_db demo_stored api_init), Inl (Raised e'))
           | (w', Inr _) \<Rightarrow> abort demo_context RESOURCE_EXHAUSTED (U ''queue unavailable'') (set_db w' (set_db demo_stored api_init)))
      | None \<Rightarrow> (rpc_done demo_context (U ''OK'') ((set_db demo_stored api_init)\<lparr>a_jobs := [uuid_str 7]\<rparr>),
                 Inr \<lparr>sb_document_id = uuid_str 7, sb_status = DOCUMENT_STATUS_QUEUED\<rparr>))"
proof -
  have "api_db api_init = db_init" by (simp add: api_db_def)
  moreover have "sv_lost (demo_servicer\<lparr>sv_enqueue := q, sv_delete := d\<rparr>) = (\<lambda>_. None)" by (simp add: demo_servicer_def)
  ultimately show ?thesis
    by (simp add: SubmitDocument_def demo_valid demo_insert Let_def cong: option.case_cong)
qed

lemma demo_SubmitDocument_ok:
  "SubmitDocument demo_servicer demo_context 100 7 demo_request api_init =
     (rpc_done demo_context (U ''OK'') ((set_db demo_stored api_init)\<lparr>a_jobs := [uuid_str 7]\<rparr>),
      Inr \<lparr>sb_document_id = uuid_str 7, sb_status = DOCUMENT_STATUS_QUEUED\<rparr>)"
  using demo_SubmitDocument [of "\<lambda>_. None" "\<lambda>_. None"] by (simp add: demo_servicer_def)


text \<open>The row of a key keeps its identifier, whatever operations follow.\<close>

lemma key_row_kept:
  assumes "(store_step P)\<^sup>*\<^sup>* w w'" and "distinct (map d_key (documents w))" and "distinct (map d_id (documents w))"
    and "find_row d_key key (documents w) = Some d"
  shows "\<exists>d'. find_row d_key key (documents w') = Some d' \<and> d_id d' = d_id d"
proof -
  obtain n where n: "n < length (documents w)" "documents w ! n = d" "d_key d = key"
    using find_row_Some [OF assms(4)] by (auto simp: in_set_conv_nth)
  let ?d = "documents w' ! n"
  have i: "n < length (documents w')" "d_id ?d = d_id d" using docs.opers_index [OF assms(1,3) n(1)] n(2) by simp_all
  have k: "d_key ?d = key" using keys.opers_index [OF assms(1,2) n(1)] n(2,3) by simp
  have "distinct (map d_key (documents w'))" using keys.opers_keys [OF assms(1,2)] by blast
  from find_row_in [OF this nth_mem [OF i(1)]] k i(2) show ?thesis by auto
qed

text \<open>
  Property C8: submitting again under the same key answers ALREADY_EXISTS with the identifier of the
  document that the first submission created, whatever the other fields of the second request
  are and whatever the other processes did in between, and changes nothing.
\<close>

theorem resubmission_names_original:
  assumes "SubmitDocument S cx now i rq a = (a1, Inr m)" and "wf_db (api_db a)"
    and "(store_step (e_pg (sv_env S)))\<^sup>*\<^sup>* (api_db a1) (api_db a2)"
    and "rq_idempotency_key rq' = rq_idempotency_key rq"
    and "validate_submit (e_settings (sv_env S)) (e_schemas (sv_env S)) rq' = None"
    and "\<forall>key. insertable (e_pg (sv_env S)) (queued_row now' key (submission_of cx' i' rq'))"
  shows "SubmitDocument S cx' now' i' rq' a2 = abort cx' ALREADY_EXISTS (U ''document_id='' @ uuid_str i) a2"
  using assms(1)
proof (cases rule: SubmitDocument_cases)
  case (stored key)
  let ?P = "e_pg (sv_env S)"
  let ?row = "queued_row now key (submission_of cx i rq)"
  have d: "documents (api_db a1) = documents (api_db a) @ [?row]" using stored(6) by simp
  have row: "d_id ?row = i" "d_key ?row = key" by (simp_all add: queued_row_def submission_of_def)
  have "distinct (map d_id (documents (api_db a1)))" "distinct (map d_key (documents (api_db a1)))"
    using assms(2) stored(3,4) by (auto simp: d row wf_db_def)
  moreover have "find_row d_key key (documents (api_db a1)) = Some ?row"
    using find_row_in [of d_key "documents (api_db a1)" ?row] calculation(2) by (simp add: d row)
  ultimately obtain d' where d': "find_row d_key key (documents (api_db a2)) = Some d'" "d_id d' = i"
    using key_row_kept [OF assms(3)] row(1) by metis
  have key': "pg_uuid ?P (s_idempotency_key (submission_of cx' i' rq')) = Some key"
    using stored(2) assms(4) by (simp add: submission_of_def)
  have "list_ex (\<lambda>r. d_id r = d_id (queued_row now' key (submission_of cx' i' rq')) \<or> d_key r = key) (documents (api_db a2))"
    using find_row_Some [OF d'(1)] by (auto simp: list_ex_iff)
  then have "submit_document ?P now' (submission_of cx' i' rq') (api_db a2) = (api_db a2, Inr False)"
    using assms(6) by (simp add: submit_document_def key' Let_def)
  moreover have "get_idempotent_document ?P (rq_idempotency_key rq') (api_db a2) = Inr (Some (row_to_document ?P d'))"
    using stored(2) assms(4) d'(1) by (simp add: get_idempotent_document_def)
  ultimately show ?thesis using d'(2) by (simp add: SubmitDocument_def assms(5) row_to_document_def)
qed simp_all

theorem resubmission_names_original_witness:
  "snd (SubmitDocument demo_servicer demo_context 900 8 (demo_request\<lparr>rq_caller_id := U ''other''\<rparr>)
     (fst (SubmitDocument demo_servicer demo_context 100 7 demo_request api_init)))
   = Inl (Abort ALREADY_EXISTS (U ''document_id='' @ uuid_str 7))"
proof -
  let ?rq = "demo_request\<lparr>rq_caller_id := U ''other''\<rparr>"
  have v: "validate_submit (e_settings (sv_env demo_servicer)) (e_schemas (sv_env demo_servicer)) ?rq = None"
    using demo_valid by (simp add: validate_submit_None)
  have ok: "\<forall>key. insertable (e_pg (sv_env demo_servicer)) (queued_row 900 key (submission_of demo_context 8 ?rq))"
    by (simp add: strict_env_def demo_pg_def insertable_def queued_row_def submission_of_def
        demo_request_def trace_id_def demo_context_def)
  have "wf_db (api_db api_init)" by (simp add: api_db_def db_init_wf)
  from resubmission_names_original [OF demo_SubmitDocument_ok this rtranclp.rtrancl_refl _ v ok] show ?thesis
    by (simp add: demo_SubmitDocument_ok abort_def)
qed

text \<open>
  A submission that ends with an error and yet leaves its row leaves a queued document that no
  job will ever process: \<open>except Exception\<close> does not catch a cancellation of \<open>enqueue\<close>, a DELETE that
  fails is only logged, and nothing was enqueued; from then on a new submission under the same key is
  answered with ALREADY_EXISTS.
\<close>

lemma failed_submission_strands:
  assumes "SubmitDocument S cx now i rq a = (a', Inl f)" and "api_db a' \<noteq> api_db a"
  shows "a_jobs a' = a_jobs a \<and> (\<exists>row. find_row d_id i (documents (api_db a')) = Some row \<and> d_status row = U ''queued'')
    \<and> (\<forall>now' q. s_idempotency_key q = rq_idempotency_key rq \<longrightarrow>
          snd (submit_document (e_pg (sv_env S)) now' q (api_db a')) \<noteq> Inr True)"
  using assms(1)
proof (cases rule: SubmitDocument_cases)
  case (stranded key)
  let ?row = "queued_row now key (submission_of cx i rq)"
  have "find_row d_id i (documents (api_db a)) = None" using stranded(2) by (simp add: find_row_None)
  then have "find_row d_id i (documents (api_db a')) = Some ?row"
    by (simp add: stranded(8) store_simps) (simp add: find_row_def queued_row_def submission_of_def)
  moreover have "d_status ?row = U ''queued''" by (simp add: queued_row_def)
  moreover have "snd (submit_document (e_pg (sv_env S)) now' q (api_db a')) \<noteq> Inr True"
    if "s_idempotency_key q = rq_idempotency_key rq" for now' q
    using that stranded(1) by (auto simp: submit_document_def stranded(8) Let_def) (auto simp: queued_row_def)
  ultimately show ?thesis using stranded(6) by simp
qed (use assms(2) in auto)

definition lost_queue :: servicer where
  "lost_queue = demo_servicer\<lparr>sv_enqueue := \<lambda>_. Some (LibraryError (U ''ConnectionError'')),
     sv_delete := \<lambda>_. Some (LibraryError (U ''ConnectionDoesNotExistError''), False)\<rparr>"

lemma failed_submission_strands_example:
  "a_jobs (fst (SubmitDocument lost_queue demo_context 100 7 demo_request api_init)) = []"
proof -
  let ?a = "rpc_done demo_context (U ''RESOURCE_EXHAUSTED'') (set_db demo_stored api_init)"
  have s: "SubmitDocument lost_queue demo_context 100 7 demo_request api_init
      = (?a, Inl (Abort RESOURCE_EXHAUSTED (U ''queue unavailable'')))"
    by (simp add: lost_queue_def demo_SubmitDocument rollback_def abort_def)
  have "api_db api_init = db_init" by (simp add: api_db_def)
  then have "api_db ?a \<noteq> api_db api_init" by (simp add: demo_stored_def db_init_def)
  from failed_submission_strands [OF s this] s show ?thesis by simp
qed

end
