(* ===== verification/Ocr_Lifecycle.thy ===== *)
theory Ocr_Lifecycle
  imports Ocr_Store "HOL-Library.Option_ord"
begin

text \<open>
  What the repository promises about a document, and that it keeps the promise: an abstract life
  cycle, queued, processing, settled, with a count of the events announced, and the proof
  that every operation of the repository is a step of it or leaves it alone.
\<close>

subsection \<open>The life cycle\<close>

datatype phase = Queued | Processing | Settled pystr

record life =
  l_phase :: "uuid \<Rightarrow> phase option"
  l_events :: "uuid \<Rightarrow> nat"

definition life_init :: life where
  "life_init = \<lparr>l_phase = (\<lambda>_. None), l_events = (\<lambda>_. 0)\<rparr>"

text \<open>
  A document is born queued, starts once, and settles with an event. It may settle more than once
  (two tries of a job may overlap) and an event may be written for an identifier without a
  document, since the update is not conditional.
\<close>

definition settle :: "uuid \<Rightarrow> pystr \<Rightarrow> life \<Rightarrow> life" where
  "settle i st L =
     L\<lparr>l_phase := (if l_phase L i = None then l_phase L else (l_phase L)(i \<mapsto> Settled st)),
       l_events := (l_events L)(i := Suc (l_events L i))\<rparr>"

inductive life_step :: "life \<Rightarrow> life \<Rightarrow> bool" where
  born: "l_phase L i = None \<Longrightarrow> life_step L (L\<lparr>l_phase := (l_phase L)(i \<mapsto> Queued)\<rparr>)"
| started: "l_phase L i = Some Queued \<Longrightarrow> life_step L (L\<lparr>l_phase := (l_phase L)(i \<mapsto> Processing)\<rparr>)"
| settled: "st \<in> set terminal_statuses \<Longrightarrow> life_step L (settle i st L)"

inductive_cases life_stepE: "life_step L L'"

subsection \<open>What holds of every life cycle\<close>

text \<open>Phases are ordered by how far the document has come; terminal statuses are equally far.\<close>

fun rank :: "phase \<Rightarrow> nat" where
  "rank Queued = 0"
| "rank Processing = 1"
| "rank (Settled st) = 2"

instantiation phase :: preorder
begin

definition less_eq_phase :: "phase \<Rightarrow> phase \<Rightarrow> bool" where
  "p \<le> q \<longleftrightarrow> rank p \<le> rank q"

definition less_phase :: "phase \<Rightarrow> phase \<Rightarrow> bool" where
  "p < q \<longleftrightarrow> rank p < rank q"

instance
  by standard (auto simp: less_eq_phase_def less_phase_def)

end

lemma phase_le [simp]: "Queued \<le> p" "p \<le> Settled st" "Processing \<le> Settled st"
  by (cases p; simp add: less_eq_phase_def)+

lemma settled_le: "Settled st \<le> p \<Longrightarrow> \<exists>st'. p = Settled st'"
  by (cases p) (simp_all add: less_eq_phase_def)

lemma life_step_phase: "life_step L L' \<Longrightarrow> l_phase L i \<le> l_phase L' i"
  by (erule life_stepE; cases "l_phase L i") (auto simp: settle_def)

lemma life_step_events: "life_step L L' \<Longrightarrow> l_events L i \<le> l_events L' i"
  by (erule life_stepE) (auto simp: settle_def)

lemma life_steps_mono:
  assumes "life_step\<^sup>*\<^sup>* L L'"
  shows "l_phase L i \<le> l_phase L' i \<and> l_events L i \<le> l_events L' i"
  using assms by (induction rule: rtranclp_induct) (meson life_step_phase life_step_events order.trans order.refl)+

definition announced :: "life \<Rightarrow> bool" where
  "announced L \<longleftrightarrow> (\<forall>i st. l_phase L i = Some (Settled st) \<longrightarrow> 0 < l_events L i)"

lemma life_step_announced: "life_step L L' \<Longrightarrow> announced L \<Longrightarrow> announced L'"
  by (erule life_stepE) (auto simp: announced_def settle_def split: if_splits)

lemma life_steps_announced: "life_step\<^sup>*\<^sup>* L L' \<Longrightarrow> announced L \<Longrightarrow> announced L'"
  by (induction rule: rtranclp_induct) (auto intro: life_step_announced)

subsection \<open>The repository implements it\<close>

definition phase_of :: "pystr \<Rightarrow> phase" where
  "phase_of st = (if st = U ''queued'' then Queued else if st = U ''processing'' then Processing else Settled st)"

definition life_of :: "db \<Rightarrow> life" where
  "life_of w =
     \<lparr>l_phase = (\<lambda>i. map_option (\<lambda>r. phase_of (d_status r)) (find_row d_id i (documents w))),
      l_events = (\<lambda>i. length (filter (\<lambda>e. o_aggregate_id e = i) (outbox w)))\<rparr>"

lemma life_of_init: "life_of db_init = life_init"
  by (simp add: life_of_def db_init_def life_init_def find_row_def)

lemma phase_terminal: "st \<in> set terminal_statuses \<Longrightarrow> phase_of st = Settled st"
  by (auto simp: phase_of_def terminal_statuses_def)

lemma life_of_events_kept:
  assumes "map o_aggregate_id (outbox w') = map o_aggregate_id (outbox w)"
  shows "l_events (life_of w') = l_events (life_of w)"
proof -
  have "length (filter (\<lambda>e. o_aggregate_id e = i) es) = count_list (map o_aggregate_id es) i" for i es
    by (induction es) auto
  then have "length (filter (\<lambda>e. o_aggregate_id e = i) (outbox w')) = length (filter (\<lambda>e. o_aggregate_id e = i) (outbox w))" for i
    using assms by metis
  then show ?thesis by (simp only: life_of_def life.select_convs)
qed

lemma life_of_phase_kept:
  assumes "documents w' = update_rows Q f (documents w)" and "\<And>r. d_id (f r) = d_id r \<and> d_status (f r) = d_status r"
  shows "l_phase (life_of w') = l_phase (life_of w)"
  using assms by (auto simp: life_of_def store_simps fun_eq_iff option.map_comp comp_def intro!: option.map_cong)

lemma life_eqI: "l_phase L = l_phase L' \<Longrightarrow> l_events L = l_events L' \<Longrightarrow> L = (L' :: life)"
  by (cases L; cases L') simp

lemma find_row_single: "find_row key k [r] = (if key r = k then Some r else None)"
  by (simp add: find_row_def)

lemma submit_life:
  assumes "submit_document P now q w = (w', r)"
  shows "life_of w' = life_of w \<or> life_step (life_of w) (life_of w')"
  using assms
proof (cases rule: submit_cases)
  case (stored key)
  let ?i = "s_document_id q" and ?row = "queued_row now key q"
  have row: "d_id ?row = ?i" "phase_of (d_status ?row) = Queued" by (simp_all add: queued_row_def phase_of_def)
  have n: "find_row d_id ?i (documents w) = None" using stored(4) by (simp add: find_row_None)
  have "l_phase (life_of w') = (l_phase (life_of w))(?i \<mapsto> Queued)"
    using n by (auto simp: life_of_def stored(6) store_simps fun_eq_iff find_row_single row split: option.split)
  moreover have "l_events (life_of w') = l_events (life_of w)" by (simp add: life_of_def stored(6))
  ultimately have "life_of w' = (life_of w)\<lparr>l_phase := (l_phase (life_of w))(?i \<mapsto> Queued)\<rparr>"
    by (intro life_eqI) simp_all
  moreover have "l_phase (life_of w) ?i = None" by (simp add: life_of_def n)
  ultimately show ?thesis using life_step.born by metis
qed simp

lemma processing_life: "life_of (mark_processing now i w) = life_of w \<or> life_step (life_of w) (life_of (mark_processing now i w))"
proof (cases "find_row d_id i (documents w)")
  case None
  then have "i \<notin> d_id ` set (documents w)" by (simp add: find_row_None)
  then have "documents (mark_processing now i w) = documents w"
    by (auto simp: mark_processing_def update_rows_def intro!: map_idI)
  then show ?thesis by (simp add: life_of_def mark_processing_def)
next
  case (Some r)
  have i: "d_id r = i" using find_row_Some [OF Some] by simp
  let ?w = "mark_processing now i w"
  have ev: "l_events (life_of ?w) = l_events (life_of w)" by (rule life_of_events_kept) (simp add: mark_processing_def)
  have ph: "l_phase (life_of ?w) j = (if j = i \<and> d_status r = U ''queued'' then Some Processing else l_phase (life_of w) j)" for j
  proof (cases "j = i")
    case True
    then show ?thesis using Some i by (simp add: life_of_def mark_processing_def store_simps phase_of_def)
  next
    case False
    then show ?thesis using find_row_Some [of d_id j "documents w"]
      by (cases "find_row d_id j (documents w)") (auto simp: life_of_def mark_processing_def store_simps)
  qed
  show ?thesis
  proof (cases "d_status r = U ''queued''")
    case True
    then have "life_of ?w = (life_of w)\<lparr>l_phase := (l_phase (life_of w))(i \<mapsto> Processing)\<rparr>"
      using ev ph by (intro life_eqI) (auto simp: fun_eq_iff)
    moreover have "l_phase (life_of w) i = Some Queued" using Some True by (simp add: life_of_def phase_of_def)
    ultimately show ?thesis using life_step.started by metis
  next
    case False
    then have "life_of ?w = life_of w" using ev ph by (intro life_eqI) (auto simp: fun_eq_iff)
    then show ?thesis by blast
  qed
qed

lemma finish_life:
  assumes "finish_document P now eid i f payload topic trace w = (w', r)" and "f_status f \<in> set terminal_statuses"
  shows "life_of w' = life_of w \<or> life_step (life_of w) (life_of w')"
  using assms(1)
proof (cases rule: finish_cases)
  case committed
  have "l_phase (life_of w') j = (if j = i \<and> l_phase (life_of w) i \<noteq> None then Some (Settled (f_status f)) else l_phase (life_of w) j)" for j
    using phase_terminal [OF assms(2)] find_row_Some [of d_id j "documents w"]
    by (cases "find_row d_id j (documents w)") (auto simp: life_of_def committed(6) store_simps finished_row_def)
  moreover have "l_events (life_of w') = (l_events (life_of w))(i := Suc (l_events (life_of w) i))"
    by (auto simp: life_of_def committed(6) event_row_def fun_eq_iff)
  ultimately have "life_of w' = settle i (f_status f) (life_of w)"
    by (intro life_eqI) (auto simp: settle_def fun_eq_iff)
  then show ?thesis using life_step.settled [OF assms(2)] by metis
qed simp

lemma store_step_life:
  assumes "store_step P w w'"
  shows "life_of w' = life_of w \<or> life_step (life_of w) (life_of w')"
  using assms
proof cases
  case (submitted now q r)
  then show ?thesis by (rule submit_life)
next
  case (processing now i)
  then show ?thesis using processing_life by metis
next
  case (finished f now eid i payload topic trace r)
  from finished(2,1) show ?thesis by (rule finish_life)
next
  case (purged now ids)
  have "l_phase (life_of w') = l_phase (life_of w)"
    unfolding purged purge_document_results_def
    by (rule life_of_phase_kept [where Q = "\<lambda>r. d_id r \<in> set ids"
          and f = "\<lambda>r. r\<lparr>d_result := None, d_error_message := None, d_updated_at := now\<rparr>"]) simp_all
  moreover have "l_events (life_of w') = l_events (life_of w)"
    by (rule life_of_events_kept) (simp add: purged purge_document_results_def)
  ultimately have "life_of w' = life_of w" by (rule life_eqI)
  then show ?thesis ..
next
  case (claimed worker now batch rows)
  then have "life_of w' = life_of w"
    by (intro life_eqI life_of_events_kept) (auto simp: claim_pending_outbox_def Let_def life_of_def update_rows_keys claimed_row_def)
  then show ?thesis ..
next
  case (reclaimed older n)
  then have "life_of w' = life_of w"
    by (intro life_eqI life_of_events_kept) (auto simp: reclaim_abandoned_outbox_def life_of_def update_rows_keys)
  then show ?thesis ..
next
  case (published now i)
  have "life_of w' = life_of w" unfolding published
    by (intro life_eqI life_of_events_kept) (simp_all add: mark_published_def life_of_def update_rows_keys)
  then show ?thesis ..
next
  case (deferred now i err)
  have "life_of w' = life_of w" unfolding deferred
    by (intro life_eqI life_of_events_kept) (simp_all add: defer_outbox_event_def life_of_def update_rows_keys)
  then show ?thesis ..
qed

lemma store_steps_life: "(store_step P)\<^sup>*\<^sup>* w w' \<Longrightarrow> life_step\<^sup>*\<^sup>* (life_of w) (life_of w')"
proof (induction rule: rtranclp_induct)
  case (step y z)
  then show ?case using store_step_life [OF step.hyps(2)] by (auto intro: rtranclp.rtrancl_into_rtrancl)
qed simp

text \<open>
  Property C7: the repository implements the life cycle. Whatever operations run, in whatever order,
  the documents and events seen through \<open>life_of\<close> make a run of the abstract life cycle: documents
  are only born queued, start only when queued, and settle only together with an event;
  the retention and everything the publishers do is invisible in it.
\<close>

theorem store_refines_life_cycle:
  assumes "(store_step P)\<^sup>*\<^sup>* db_init w"
  shows "life_step\<^sup>*\<^sup>* life_init (life_of w) \<and> announced (life_of w)"
proof -
  have run: "life_step\<^sup>*\<^sup>* life_init (life_of w)" using store_steps_life [OF assms] by (simp add: life_of_init)
  have "announced life_init" by (simp add: announced_def life_init_def)
  from run this have "announced (life_of w)" by (rule life_steps_announced)
  with run show ?thesis ..
qed

theorem store_refines_life_cycle_witness:
  "life_step\<^sup>*\<^sup>* life_init (life_of \<lparr>documents = [demo_row], outbox = []\<rparr>)"
proof -
  have "(store_step demo_pg)\<^sup>*\<^sup>* db_init \<lparr>documents = [demo_row], outbox = []\<rparr>"
    by (rule r_into_rtranclp, rule store_step.submitted [OF demo_submit])
  from store_refines_life_cycle [OF this] show ?thesis ..
qed

text \<open>
  A document never goes back. Its status only moves forward, from queued over
  processing to a terminal status, and never out of the terminal ones, whatever any process does
  afterwards; and events once written are never taken back.
\<close>

lemma status_never_regresses:
  assumes "(store_step P)\<^sup>*\<^sup>* w w'" and "find_row d_id i (documents w) = Some d" and "wf_db w"
  shows "\<exists>d'. find_row d_id i (documents w') = Some d' \<and> phase_of (d_status d) \<le> phase_of (d_status d')
    \<and> (if d_status d \<in> set terminal_statuses then d_status d' \<in> set terminal_statuses else True)
    \<and> length (filter (\<lambda>e. o_aggregate_id e = i) (outbox w)) \<le> length (filter (\<lambda>e. o_aggregate_id e = i) (outbox w'))"
proof -
  have "distinct (map d_id (documents w))" using assms(3) by (simp add: wf_db_def)
  from docs.opers_found [OF assms(1) this, of i] assms(2)
  obtain d' where d': "find_row d_id i (documents w') = Some d'" by auto
  have m: "l_phase (life_of w) i \<le> l_phase (life_of w') i" "l_events (life_of w) i \<le> l_events (life_of w') i"
    using life_steps_mono [OF store_steps_life [OF assms(1)]] by blast+
  have "wf_db w'" by (rule store_steps_wf [OF assms(1,3)])
  then have "d_status d' \<in> set statuses"
    using find_row_Some [OF d'] by (auto simp: wf_db_def list_all_iff row_ok_def)
  then have terminal: "d_status d' \<in> set terminal_statuses" if "phase_of (d_status d') = Settled st" for st
    using that by (auto simp: statuses_def terminal_statuses_def phase_of_def split: if_splits)
  have le: "phase_of (d_status d) \<le> phase_of (d_status d')" using m(1) assms(2) d' by (simp add: life_of_def)
  have "d_status d' \<in> set terminal_statuses" if "d_status d \<in> set terminal_statuses"
    using settled_le [of "d_status d" "phase_of (d_status d')"] le phase_terminal [OF that] terminal by auto
  with le m(2) d' show ?thesis by (auto simp: life_of_def)
qed

lemma status_never_regresses_example:
  "\<exists>d'. find_row d_id 7 (documents (mark_processing 200 7 \<lparr>documents = [demo_row], outbox = []\<rparr>)) = Some d'"
proof -
  let ?w = "\<lparr>documents = [demo_row], outbox = []\<rparr>"
  have "wf_db ?w" using store_step_wf [OF store_step.submitted [OF demo_submit] db_init_wf] .
  moreover have "find_row d_id 7 (documents ?w) = Some demo_row"
    by (simp add: find_row_def demo_row_def queued_row_def demo_submission_def)
  moreover have "(store_step demo_pg)\<^sup>*\<^sup>* ?w (mark_processing 200 7 ?w)"
    by (rule r_into_rtranclp, rule store_step.processing)
  ultimately show ?thesis using status_never_regresses by blast
qed

end
