(* ===== verification/Ocr_System.thy ===== *)
theory Ocr_System
  imports Ocr_Servicer Ocr_Lifecycle
begin

text \<open>
  The processes together: the servicer taking submissions, the worker trying the jobs of the queue
  and sweeping, and the publishers, in any interleaving of their operations on one database.
\<close>

subsection \<open>Every operation is made of operations of the repository\<close>

lemma fail_steps: "fail_document E s doc code message w = (w', r) \<Longrightarrow> (store_step (e_pg E))\<^sup>*\<^sup>* w w'"
  unfolding fail_document_def
  by (rule r_into_rtranclp, erule store_step.finished [rotated]) (simp add: terminal_statuses_def)

lemma complete_steps:
  "complete_document E s doc result status w = (w', r) \<Longrightarrow> status \<in> set terminal_statuses \<Longrightarrow> (store_step (e_pg E))\<^sup>*\<^sup>* w w'"
  unfolding complete_document_def by (rule r_into_rtranclp, erule store_step.finished [rotated]) simp

lemma handle_steps:
  assumes "handle E s doc e w = (w', r)"
  shows "(store_step (e_pg E))\<^sup>*\<^sup>* w w'"
proof (cases "handler e")
  case (Pair what out)
  show ?thesis
  proof (cases what)
    case None
    then show ?thesis using assms Pair by (simp add: handle_def)
  next
    case (Some p)
    obtain code message where p: "p = (code, message)" by fastforce
    obtain w1 x where f: "fail_document E s doc code message w = (w1, x)" by fastforce
    then have "w' = w1" using assms by (auto simp: handle_def Pair Some p split: sum.splits)
    with fail_steps [OF f] show ?thesis by simp
  qed
qed

lemma run_stages_steps:
  assumes "run_stages E s1 s2 doc w = (w', r)"
  shows "(store_step (e_pg E))\<^sup>*\<^sup>* (w_db w) (w_db w')"
proof -
  obtain io' tmp got where f: "fetch E doc (w_io w) = (io', tmp, got)" by (metis prod.collapse)
  show ?thesis
  proof (cases "rbind got (analyse E doc)")
    case (Inl e)
    obtain db' x where h: "handle E s2 doc e (w_db w) = (db', x)" by fastforce
    then have "w_db w' = db'" using assms by (auto simp: run_stages_def f Inl)
    with handle_steps [OF h] show ?thesis by simp
  next
    case (Inr p)
    obtain result status where p: "p = (result, status)" by fastforce
    obtain content where "analyse E doc content = Inr (result, status)" using Inr p by (cases got) auto
    then have t: "status \<in> set terminal_statuses" using analyse_Inr build_result_terminal by metis
    obtain db' x where c: "complete_document E s1 doc result status (w_db w) = (db', x)" by fastforce
    note steps = complete_steps [OF c t]
    show ?thesis
    proof (cases x)
      case (Inl e)
      obtain db'' y where h: "handle E s2 doc e db' = (db'', y)" by fastforce
      then have "w_db w' = db''" using assms by (auto simp: run_stages_def f Inr p c Inl)
      with steps handle_steps [OF h] show ?thesis by (simp add: rtranclp_trans)
    next
      case x: (Inr u)
      then have "w_db w' = db'" using assms by (auto simp: run_stages_def f Inr p c x)
      with steps show ?thesis by simp
    qed
  qed
qed

lemma process_steps:
  assumes "process_document E now s1 s2 document_id w = (w', r)"
  shows "(store_step (e_pg E))\<^sup>*\<^sup>* (w_db w) (w_db w')"
  using assms
proof (cases rule: process_cases)
  case (ran i d)
  have "(store_step (e_pg E))\<^sup>*\<^sup>* (mark_processing now i (w_db w)) (w_db w')"
    using run_stages_steps [OF ran(4)] by simp
  then show ?thesis using store_step.processing converse_rtranclp_into_rtranclp by metis
qed simp_all

lemma cleanup_steps: "(store_step P)\<^sup>*\<^sup>* w (cleanup_expired_results now w)"
  by (auto simp: cleanup_expired_results_def Let_def intro: store_step.purged)

lemma publish_rows_steps:
  "publish_rows I K topic now rows n p = (p', r) \<Longrightarrow> (store_step P)\<^sup>*\<^sup>* (p_db p) (p_db p')"
proof (induction rows arbitrary: n p)
  case Nil
  then show ?case by simp
next
  case (Cons row rows)
  show ?case
  proof (cases "message_of I topic row")
    case (Inl e)
    then show ?thesis using Cons.prems by simp
  next
    case (Inr m)
    show ?thesis
    proof (cases "produce K m")
      case None
      then have "(store_step P)\<^sup>*\<^sup>* (mark_published now (o_id row) (p_db p)) (p_db p')"
        using Cons.IH [of "n + 1" "on_delivery K m (p\<lparr>p_sent := p_sent p @ [m], p_db := mark_published now (o_id row) (p_db p)\<rparr>)"]
          Cons.prems Inr by simp
      then show ?thesis using store_step.published converse_rtranclp_into_rtranclp by metis
    next
      case (Some e)
      then show ?thesis using Cons.prems Inr by simp
    qed
  qed
qed

lemma poll_once_steps:
  assumes "poll_once I K topic worker now batch p = (p', r)"
  shows "(store_step P)\<^sup>*\<^sup>* (p_db p) (p_db p')"
proof -
  obtain w rows where c: "claim_pending_outbox worker now batch (p_db p) = (w, rows)" by fastforce
  have "publish_rows I K topic now rows 0 (p\<lparr>p_db := w\<rparr>) = (p', r)" using assms by (simp add: poll_once_def c)
  from publish_rows_steps [OF this] have "(store_step P)\<^sup>*\<^sup>* w (p_db p')" by simp
  then show ?thesis using store_step.claimed [OF c] converse_rtranclp_into_rtranclp by metis
qed

lemma SubmitDocument_steps:
  assumes "SubmitDocument S cx now i rq a = (a', r)"
  shows "(store_step (e_pg (sv_env S)))\<^sup>*\<^sup>* (api_db a) (api_db a')"
  using assms
proof (cases rule: SubmitDocument_cases)
  case (stored key)
  then show ?thesis by (metis store_step.submitted r_into_rtranclp)
next
  case (stranded key)
  then show ?thesis by (metis store_step.submitted r_into_rtranclp)
qed simp_all

subsection \<open>Published events were handed over\<close>

text \<open>Every event marked published was given to the producer, with its payload and its document as key.\<close>

definition handed_over :: "db \<Rightarrow> message list \<Rightarrow> bool" where
  "handed_over w sent \<longleftrightarrow>
     (\<forall>ev \<in> set (outbox w). o_published_at ev \<noteq> None \<longrightarrow>
        (\<exists>m \<in> set sent. mg_value m = o_payload ev \<and> mg_key m = uuid_str (o_aggregate_id ev)))"

text \<open>The rows of a claim are the events of the outbox with those identifiers.\<close>

definition same_events :: "orow list \<Rightarrow> db \<Rightarrow> bool" where
  "same_events rows w \<longleftrightarrow>
     (\<forall>row \<in> set rows. \<forall>ev \<in> set (outbox w). o_id ev = o_id row \<longrightarrow>
        o_payload ev = o_payload row \<and> o_aggregate_id ev = o_aggregate_id row)"

lemma message_of_Inr: "message_of I topic row = Inr m \<Longrightarrow> mg_value m = o_payload row \<and> mg_key m = uuid_str (o_aggregate_id row)"
  by (auto simp: message_of_def elim!: rbind_InrE)

lemma mark_published_handed:
  assumes "handed_over w sent" and "same_events [row] w" and "mg_value m = o_payload row" and "mg_key m = uuid_str (o_aggregate_id row)"
  shows "handed_over (mark_published now (o_id row) w) (sent @ [m])"
  using assms by (auto simp: handed_over_def same_events_def mark_published_def set_update_rows)

lemma publish_rows_handed:
  assumes "publish_rows I K topic now rows n p = (p', r)" and "handed_over (p_db p) (p_sent p)" and "same_events rows (p_db p)"
  shows "handed_over (p_db p') (p_sent p')"
  using assms
proof (induction rows arbitrary: n p)
  case Nil
  then show ?case by simp
next
  case (Cons row rows)
  show ?case
  proof (cases "message_of I topic row")
    case (Inl e)
    then show ?thesis using Cons.prems by simp
  next
    case (Inr m)
    let ?p = "on_delivery K m (p\<lparr>p_sent := p_sent p @ [m], p_db := mark_published now (o_id row) (p_db p)\<rparr>)"
    have "handed_over (p_db ?p) (p_sent ?p)"
      using Cons.prems(2,3) message_of_Inr [OF Inr] by (simp add: same_events_def mark_published_handed)
    moreover have "same_events rows (p_db ?p)"
      using Cons.prems(3) by (auto simp: same_events_def mark_published_def set_update_rows)
    ultimately show ?thesis using Cons.IH [of "n + 1" ?p] Cons.prems Inr by (cases "produce K m") simp_all
  qed
qed

lemma poll_once_handed:
  assumes "poll_once I K topic worker now batch p = (p', r)" and "handed_over (p_db p) (p_sent p)"
    and "distinct (map o_id (outbox (p_db p)))"
  shows "handed_over (p_db p') (p_sent p')"
proof -
  obtain w rows where c: "claim_pending_outbox worker now batch (p_db p) = (w, rows)" by fastforce
  note u = claim_unfold [OF c]
  have "handed_over w (p_sent p)"
    using assms(2) by (auto simp: handed_over_def u(1) set_update_rows claimed_row_def)
  moreover have "distinct (map o_id (outbox w))" using assms(3) claim_db_keys(1) [OF c] by simp
  then have "same_events rows w" by (auto simp: same_events_def u(2) distinct_map inj_on_def)
  ultimately show ?thesis
    using publish_rows_handed [of I K topic now rows 0 "p\<lparr>p_db := w\<rparr>"] assms(1) by (simp add: poll_once_def c)
qed


lemma publish_rows_documents:
  "publish_rows I K topic now rows n p = (p', r) \<Longrightarrow> documents (p_db p') = documents (p_db p)"
proof (induction rows arbitrary: n p)
  case (Cons row rows)
  then show ?case
    by (cases "message_of I topic row"; cases "produce K (projr (message_of I topic row))")
      (auto simp: mark_published_def dest!: Cons.IH)
qed simp

lemma poll_once_documents:
  assumes "poll_once I K topic worker now batch p = (p', r)"
  shows "documents (p_db p') = documents (p_db p)"
proof -
  obtain w rows where c: "claim_pending_outbox worker now batch (p_db p) = (w, rows)" by fastforce
  have "publish_rows I K topic now rows 0 (p\<lparr>p_db := w\<rparr>) = (p', r)" using assms by (simp add: poll_once_def c)
  from publish_rows_documents [OF this] show ?thesis by (simp add: claim_unfold(1) [OF c])
qed

subsection \<open>The system\<close>

text \<open>
  The state of the whole: what the servicer works on, the jobs whose tries are used up, the
  messages handed to the producer, and for each submission how it ended, with whether it met one of the
  failures that can strand its row. A try takes a job of the queue; a job that returns leaves
  the queue, one that raises stays for another try until the queue gives it up. The identifier that
  \<open>uuid4\<close> draws for a submission is a new one.
\<close>

record sys =
  y_api :: api
  y_given_up :: "pystr list"
  y_sent :: "message list"
  y_answers :: "(uuid \<times> bool \<times> (failure + submit_response)) list"

definition sys_init :: sys where
  "sys_init = \<lparr>y_api = \<lparr>a_world = \<lparr>w_io = io_init, w_db = db_init\<rparr>, a_jobs = [], a_rpcs = []\<rparr>, y_given_up = [], y_sent = [],
     y_answers = []\<rparr>"

definition drop_job :: "pystr \<Rightarrow> api \<Rightarrow> api" where
  "drop_job j a = a\<lparr>a_jobs := removeAll j (a_jobs a)\<rparr>"

inductive sys_step :: "pg \<Rightarrow> sys \<Rightarrow> sys \<Rightarrow> bool" for P where
  submitted: "e_pg (sv_env S) = P \<Longrightarrow> i \<notin> fst ` set (y_answers y) \<Longrightarrow>
    SubmitDocument S cx now i rq (y_api y) = (a', r) \<Longrightarrow>
    sys_step P y (y\<lparr>y_api := a', y_answers := (i, may_strand S i, r) # y_answers y\<rparr>)"
| asked: "e_pg (sv_env S) = P \<Longrightarrow> GetDocument S cx document_id (y_api y) = (a', r) \<Longrightarrow> sys_step P y (y\<lparr>y_api := a'\<rparr>)"
| returned: "e_pg E = P \<Longrightarrow> j \<in> set (a_jobs (y_api y)) \<Longrightarrow>
    process_document E now s1 s2 j (a_world (y_api y)) = (w', Inr ()) \<Longrightarrow>
    sys_step P y (y\<lparr>y_api := drop_job j ((y_api y)\<lparr>a_world := w'\<rparr>)\<rparr>)"
| raised: "e_pg E = P \<Longrightarrow> j \<in> set (a_jobs (y_api y)) \<Longrightarrow>
    process_document E now s1 s2 j (a_world (y_api y)) = (w', Inl e) \<Longrightarrow>
    sys_step P y (y\<lparr>y_api := (y_api y)\<lparr>a_world := w'\<rparr>\<rparr>)"
| given_up: "j \<in> set (a_jobs (y_api y)) \<Longrightarrow>
    sys_step P y (y\<lparr>y_api := drop_job j (y_api y), y_given_up := j # y_given_up y\<rparr>)"
| swept: "sys_step P y (y\<lparr>y_api := set_db (cleanup_expired_results now (api_db (y_api y))) (y_api y)\<rparr>)"
| ticked: "poll_once I K topic worker now batch \<lparr>p_db = api_db (y_api y), p_sent = y_sent y, p_ok = n, p_failed = m\<rparr> = (p', r) \<Longrightarrow>
    sys_step P y (y\<lparr>y_api := set_db (p_db p') (y_api y), y_sent := p_sent p'\<rparr>)"

inductive_cases sys_stepE: "sys_step P y y'"

text \<open>
  Every document that is not settled has a job, in the queue or given up, or its submission ended
  with an error after a failure that can strand its row; and a submission that was answered has its row.
\<close>

definition open_row :: "drow \<Rightarrow> bool" where
  "open_row r \<longleftrightarrow> d_status r \<notin> set terminal_statuses"

definition has_job :: "sys \<Rightarrow> uuid \<Rightarrow> bool" where
  "has_job y i \<longleftrightarrow> uuid_str i \<in> set (a_jobs (y_api y)) \<union> set (y_given_up y)"

definition stranded :: "sys \<Rightarrow> uuid \<Rightarrow> bool" where
  "stranded y i \<longleftrightarrow> (case map_of (y_answers y) i of Some (True, Inl f) \<Rightarrow> True | _ \<Rightarrow> False)"

definition answered_ok :: "sys \<Rightarrow> uuid \<times> bool \<times> (failure + submit_response) \<Rightarrow> bool" where
  "answered_ok y p =
     (case snd (snd p) of
        Inr m \<Rightarrow> m = \<lparr>sb_document_id = uuid_str (fst p), sb_status = DOCUMENT_STATUS_QUEUED\<rparr>
          \<and> fst p \<in> d_id ` set (documents (api_db (y_api y)))
      | Inl f \<Rightarrow> True)"

lemma answered_ok_same:
  "d_id ` set (documents (api_db (y_api y'))) = d_id ` set (documents (api_db (y_api y))) \<Longrightarrow> answered_ok y' p = answered_ok y p"
  by (simp add: answered_ok_def split: sum.split)

definition sys_inv :: "sys \<Rightarrow> bool" where
  "sys_inv y \<longleftrightarrow>
     wf_db (api_db (y_api y)) \<and> handed_over (api_db (y_api y)) (y_sent y)
     \<and> (\<forall>r \<in> set (documents (api_db (y_api y))). open_row r \<longrightarrow> has_job y (d_id r) \<or> stranded y (d_id r))
     \<and> distinct (map fst (y_answers y)) \<and> list_all (answered_ok y) (y_answers y)
     \<and> (\<forall>r \<in> set (documents (api_db (y_api y))). d_id r \<in> fst ` set (y_answers y))"

lemma open_row_before:
  assumes "(store_step P)\<^sup>*\<^sup>* w w'" and "map d_id (documents w') = map d_id (documents w)" and "wf_db w"
    and "r' \<in> set (documents w')" and "open_row r'"
  shows "\<exists>r \<in> set (documents w). d_id r = d_id r' \<and> open_row r"
proof -
  have wf': "wf_db w'" by (rule store_steps_wf [OF assms(1,3)])
  obtain r where r: "r \<in> set (documents w)" "d_id r = d_id r'"
    using assms(2,4) by (metis image_iff list.set_map)
  have f: "find_row d_id (d_id r') (documents w') = Some r'" "find_row d_id (d_id r') (documents w) = Some r"
    using find_row_in [of d_id "documents w'" r'] find_row_in [of d_id "documents w" r] assms(3,4) wf' r
    by (simp_all add: wf_db_def)
  have "l_phase (life_of w) (d_id r') \<le> l_phase (life_of w') (d_id r')"
    using life_steps_mono [OF store_steps_life [OF assms(1)]] by blast
  then have le: "phase_of (d_status r) \<le> phase_of (d_status r')" by (simp add: life_of_def f)
  have "d_status r' \<in> {U ''queued'', U ''processing''}"
    using assms(4,5) wf' by (auto simp: open_row_def wf_db_def list_all_iff row_ok_def statuses_def terminal_statuses_def)
  then have "phase_of (d_status r') \<noteq> Settled st" for st by (auto simp: phase_of_def)
  then have "open_row r" using le settled_le unfolding open_row_def by (metis phase_terminal)
  with r show ?thesis by blast
qed

lemma process_ids:
  assumes "process_document E now s1 s2 document_id w = (w', r)"
  shows "map d_id (documents (w_db w')) = map d_id (documents (w_db w))"
  using assms
proof (cases rule: process_cases)
  case (ran i d)
  from process_settles [OF assms ran(1-3)] show ?thesis
    by (auto simp: settled_as_def update_rows_keys mark_processing_def)
qed simp_all

lemma process_handed:
  assumes "process_document E now s1 s2 document_id w = (w', r)" and "handed_over (w_db w) sent"
  shows "handed_over (w_db w') sent"
  using assms(1)
proof (cases rule: process_cases)
  case (ran i d)
  from process_settles [OF assms(1) ran(1-3)] show ?thesis using assms(2)
    by (auto simp: settled_as_def handed_over_def)
qed (use assms(2) in simp_all)

text \<open>A job that returns leaves its document settled.\<close>

lemma returned_settles:
  assumes "process_document E now s1 s2 (uuid_str i) w = (w', Inr ())" and "wf_db (w_db w)"
    and "r' \<in> set (documents (w_db w'))" and "d_id r' = i"
  shows "\<not> open_row r'"
proof -
  have wf': "wf_db (w_db w')" by (rule store_steps_wf [OF process_steps [OF assms(1)] assms(2)])
  have f: "find_row d_id i (documents (w_db w')) = Some r'"
    using find_row_in [of d_id "documents (w_db w')" r'] assms(3,4) wf' by (simp add: wf_db_def)
  from assms(1) show ?thesis
  proof (cases rule: process_cases)
    case (skipped j)
    then have "\<not> processable (d_status r')" using f by (simp add: py_uuid_str)
    then show ?thesis using assms(3) wf'
      by (auto simp: open_row_def processable_def wf_db_def list_all_iff row_ok_def statuses_def terminal_statuses_def)
  next
    case (ran j d)
    have j: "j = i" using ran(1) by (simp add: py_uuid_str)
    from process_settles [OF assms(1) ran(1-3)] obtain f' payload where f': "f_status f' \<in> set terminal_statuses"
        and s: "settled_as i f' payload (mark_processing now i (w_db w)) (w_db w')"
      unfolding j by auto
    have "find_row d_id i (documents (mark_processing now i (w_db w))) \<noteq> None"
      using find_row_marked [OF ran(2,3)] unfolding j by auto
    from settled_row [OF s this] f f' show ?thesis by (auto simp: open_row_def)
  qed auto
qed

subsection \<open>The invariant\<close>

text \<open>
  What a step must show: its changes to the database are operations of the repository that keep the
  documents there are, no message is forgotten, and a job only goes when its document is settled
  or it was given up.
\<close>

lemma sys_invI:
  assumes "sys_inv y" and "(store_step P)\<^sup>*\<^sup>* (api_db (y_api y)) (api_db (y_api y'))"
    and "map d_id (documents (api_db (y_api y'))) = map d_id (documents (api_db (y_api y)))"
    and "handed_over (api_db (y_api y')) (y_sent y')" and "y_answers y' = y_answers y"
    and "\<And>r. r \<in> set (documents (api_db (y_api y'))) \<Longrightarrow> open_row r \<Longrightarrow> has_job y (d_id r) \<Longrightarrow> has_job y' (d_id r)"
  shows "sys_inv y'"
proof -
  have wf: "wf_db (api_db (y_api y))" using assms(1) by (simp add: sys_inv_def)
  have ids: "d_id ` set (documents (api_db (y_api y'))) = d_id ` set (documents (api_db (y_api y)))"
    using assms(3) by (metis list.set_map)
  have "has_job y' (d_id r') \<or> stranded y' (d_id r')"
    if r': "r' \<in> set (documents (api_db (y_api y')))" "open_row r'" for r'
  proof -
    obtain r where "r \<in> set (documents (api_db (y_api y)))" "d_id r = d_id r'" "open_row r"
      using open_row_before [OF assms(2,3) wf r'] by blast
    then have "has_job y (d_id r') \<or> stranded y (d_id r')"
      using assms(1) unfolding sys_inv_def by metis
    moreover have "stranded y' j = stranded y j" for j by (simp add: stranded_def assms(5))
    ultimately show ?thesis using assms(6) [OF r'] by auto
  qed
  moreover have "list_all (answered_ok y') (y_answers y)"
    using assms(1) by (simp add: sys_inv_def answered_ok_same [OF ids] list_all_iff)
  moreover have "d_id r \<in> fst ` set (y_answers y)" if r: "r \<in> set (documents (api_db (y_api y')))" for r
  proof -
    obtain q where "q \<in> set (documents (api_db (y_api y)))" "d_id q = d_id r"
      using imageI [OF r, of d_id] unfolding ids by auto
    then show ?thesis using assms(1) unfolding sys_inv_def by metis
  qed
  ultimately show ?thesis using assms(1,4) store_steps_wf [OF assms(2) wf] by (simp add: sys_inv_def assms(5))
qed

lemma api_db_world: "api_db a = w_db (a_world a)"
  by (simp add: api_db_def)

lemma drop_job_facts [simp]:
  "api_db (drop_job j a) = api_db a" "a_jobs (drop_job j a) = removeAll j (a_jobs a)" "a_world (drop_job j a) = a_world a"
  by (simp_all add: drop_job_def api_db_def)

lemma submitted_inv:
  assumes "SubmitDocument S cx now i rq (y_api y) = (a', r)" and "i \<notin> fst ` set (y_answers y)"
    and "sys_inv y"
  shows "sys_inv (y\<lparr>y_api := a', y_answers := (i, may_strand S i, r) # y_answers y\<rparr>)" (is "sys_inv ?y")
proof -
  have id: "d_id (queued_row now key (submission_of cx i rq)) = i" for key by (simp add: queued_row_def submission_of_def)
  have wf: "wf_db (api_db a')"
    using store_steps_wf [OF SubmitDocument_steps [OF assms(1)]] assms(3) by (simp add: sys_inv_def)
  have ids: "d_id r' \<noteq> i" if "r' \<in> set (documents (api_db (y_api y)))" for r'
    using that assms(2,3) unfolding sys_inv_def by metis
  have old: "stranded ?y (d_id r') = stranded y (d_id r')" if "d_id r' \<noteq> i" for r' :: drow using that by (simp add: stranded_def)
  note inv = assms(3) [unfolded sys_inv_def]
  show ?thesis
  proof (cases "api_db a' = api_db (y_api y) \<and> a_jobs a' = a_jobs (y_api y) \<and> (\<exists>f. r = Inl f)")
    case True
    then have same: "has_job ?y j = has_job y j" "answered_ok ?y p = answered_ok y p" "answered_ok y (i, may_strand S i, r)" for j p
      by (auto simp: has_job_def answered_ok_def split: sum.split)
    have "has_job y (d_id r') \<or> stranded ?y (d_id r')" if r': "r' \<in> set (documents (api_db (y_api y)))" "open_row r'" for r'
      using inv r' old [OF ids [OF r'(1)]] by blast
    then show ?thesis using inv assms(2) True same(3) by (simp add: sys_inv_def same(1,2) list_all_iff)
  next
    case changed: False
    obtain key where docs: "documents (api_db a') = documents (api_db (y_api y)) @ [queued_row now key (submission_of cx i rq)]"
        and out: "outbox (api_db a') = outbox (api_db (y_api y))" and jobs: "set (a_jobs (y_api y)) \<subseteq> set (a_jobs a')"
        and r: "answered_ok ?y (i, may_strand S i, r)" "has_job ?y i \<or> stranded ?y i"
      using assms(1)
    proof (cases rule: SubmitDocument_cases)
      case (stored key)
      then show ?thesis by (intro that [of key]) (auto simp: answered_ok_def has_job_def id)
    next
      case (stranded key f)
      then show ?thesis by (intro that [of key]) (auto simp: answered_ok_def stranded_def)
    qed (use changed in auto)
    have more: "has_job y j \<Longrightarrow> has_job ?y j" "answered_ok y p \<Longrightarrow> answered_ok ?y p" for j p
      using jobs by (auto simp: has_job_def answered_ok_def docs split: sum.splits)
    have "has_job ?y (d_id r') \<or> stranded ?y (d_id r')" if r': "r' \<in> set (documents (api_db a'))" "open_row r'" for r'
    proof (cases "r' \<in> set (documents (api_db (y_api y)))")
      case True
      then have "has_job y (d_id r') \<or> stranded y (d_id r')" using inv r'(2) by blast
      then show ?thesis using more(1) old [OF ids [OF True]] by auto
    next
      case False
      then have "d_id r' = i" using r'(1) by (simp add: docs id)
      then show ?thesis using r(2) by simp
    qed
    moreover have "list_all (answered_ok ?y) (y_answers y)" using inv more(2) by (auto simp: list_all_iff)
    moreover have "handed_over (api_db a') (y_sent y)" using inv by (simp add: handed_over_def out)
    ultimately show ?thesis using inv assms(2) wf r(1) unfolding sys_inv_def by (auto simp: docs id)
  qed
qed

lemma sys_step_inv:
  assumes "sys_step P y y'" and "sys_inv y"
  shows "sys_inv y'"
  using assms(1)
proof cases
  case (submitted S i cx now rq a' r)
  from submitted_inv [OF submitted(4,3) assms(2)] show ?thesis by (simp add: submitted(1))
next
  case (asked S cx document_id a' r)
  have "a_world a' = a_world (y_api y)" "a_jobs a' = a_jobs (y_api y)"
    using asked(3) by (auto simp: GetDocument_def abort_def answer_def split: option.splits)
  then show ?thesis using assms(2) answered_ok_same [of y' y]
    by (simp add: asked(1) sys_inv_def api_db_world has_job_def stranded_def list_all_iff)
next
  case (returned E j now s1 s2 w')
  have w: "w_db (a_world (y_api y)) = api_db (y_api y)" by (simp add: api_db_world)
  have inv: "wf_db (api_db (y_api y))" "handed_over (api_db (y_api y)) (y_sent y)" using assms(2) by (simp_all add: sys_inv_def)
  have steps: "(store_step P)\<^sup>*\<^sup>* (api_db (y_api y)) (w_db w')"
    using process_steps [OF returned(4)] returned(2) by (simp add: w)
  show ?thesis
  proof (rule sys_invI [OF assms(2)])
    show "(store_step P)\<^sup>*\<^sup>* (api_db (y_api y)) (api_db (y_api y'))" using steps by (simp add: returned(1))
    show "map d_id (documents (api_db (y_api y'))) = map d_id (documents (api_db (y_api y)))"
      using process_ids [OF returned(4)] by (simp add: returned(1) w)
    show "handed_over (api_db (y_api y')) (y_sent y')"
      using process_handed [OF returned(4), of "y_sent y"] inv(2) by (simp add: returned(1) w)
    fix r assume r: "r \<in> set (documents (api_db (y_api y')))" "open_row r"
      and j: "has_job y (d_id r)"
    have "j \<noteq> uuid_str (d_id r)"
    proof
      assume "j = uuid_str (d_id r)"
      then have p: "process_document E now s1 s2 (uuid_str (d_id r)) (a_world (y_api y)) = (w', Inr ())" using returned(4) by simp
      have "wf_db (w_db (a_world (y_api y)))" using inv(1) by (simp add: w)
      from returned_settles [OF p this _ refl] r show False by (simp add: returned(1))
    qed
    with j show "has_job y' (d_id r)" by (simp add: has_job_def returned(1))
  qed (simp add: returned(1))
next
  case (raised E j now s1 s2 w' e)
  have w: "w_db (a_world (y_api y)) = api_db (y_api y)" by (simp add: api_db_world)
  show ?thesis
  proof (rule sys_invI [OF assms(2)])
    show "(store_step P)\<^sup>*\<^sup>* (api_db (y_api y)) (api_db (y_api y'))"
      using process_steps [OF raised(4)] raised(2) by (simp add: raised(1) w)
    show "map d_id (documents (api_db (y_api y'))) = map d_id (documents (api_db (y_api y)))"
      using process_ids [OF raised(4)] by (simp add: raised(1) w)
    show "handed_over (api_db (y_api y')) (y_sent y')"
      using process_handed [OF raised(4), of "y_sent y"] assms(2) by (simp add: raised(1) w sys_inv_def)
  qed (simp_all add: raised(1) has_job_def)
next
  case (given_up j)
  then show ?thesis using assms(2)
    using answered_ok_same [of y' y] by (auto simp: sys_inv_def has_job_def stranded_def list_all_iff)
next
  case (swept now)
  show ?thesis
  proof (rule sys_invI [OF assms(2)])
    show "(store_step P)\<^sup>*\<^sup>* (api_db (y_api y)) (api_db (y_api y'))" by (simp add: swept cleanup_steps)
    show "map d_id (documents (api_db (y_api y'))) = map d_id (documents (api_db (y_api y)))"
      by (simp add: swept cleanup_rows update_rows_keys purged_row_def)
    show "handed_over (api_db (y_api y')) (y_sent y')"
      using assms(2) by (simp add: swept sys_inv_def handed_over_def cleanup_rows)
  qed (simp_all add: swept has_job_def)
next
  case (ticked I K topic worker now batch n m p' r)
  let ?p = "\<lparr>p_db = api_db (y_api y), p_sent = y_sent y, p_ok = n, p_failed = m\<rparr>"
  have steps: "(store_step P)\<^sup>*\<^sup>* (api_db (y_api y)) (p_db p')" using poll_once_steps [OF ticked(2), of P] by simp
  have docs: "documents (p_db p') = documents (api_db (y_api y))" using poll_once_documents [OF ticked(2)] by simp
  show ?thesis
  proof (rule sys_invI [OF assms(2)])
    show "(store_step P)\<^sup>*\<^sup>* (api_db (y_api y)) (api_db (y_api y'))" using steps by (simp add: ticked(1))
    show "map d_id (documents (api_db (y_api y'))) = map d_id (documents (api_db (y_api y)))" by (simp add: ticked(1) docs)
    show "handed_over (api_db (y_api y')) (y_sent y')"
      using poll_once_handed [OF ticked(2)] assms(2) by (simp add: ticked(1) sys_inv_def wf_db_def)
  qed (simp_all add: ticked(1) has_job_def)
qed

lemma sys_init_inv: "sys_inv sys_init"
  by (simp add: sys_inv_def sys_init_def api_db_def db_init_wf) (simp add: db_init_def handed_over_def)

lemma sys_steps_inv: "(sys_step P)\<^sup>*\<^sup>* sys_init y \<Longrightarrow> sys_inv y"
  by (induction rule: rtranclp_induct) (auto intro: sys_step_inv sys_init_inv)

lemma settled_event:
  assumes "wf_db w" and "r \<in> set (documents w)" and "d_status r \<in> set terminal_statuses"
  shows "d_processed_at r \<noteq> None \<and> d_id r \<in> o_aggregate_id ` set (outbox w)"
proof -
  have "row_ok r" "d_processed_at r = None \<or> d_id r \<in> o_aggregate_id ` set (outbox w)"
    using assms(1,2) by (simp_all add: wf_db_def list_all_iff)
  moreover from this have "d_processed_at r \<noteq> None" using assms(3) unfolding row_ok_def by simp
  ultimately show ?thesis by simp
qed

text \<open>
  Property C1: no document is lost without its caller being told. In every state the processes can reach
  together, from an empty database and in any interleaving of submissions, tries, sweeps and
  publishing ticks, every document either is settled and has an event, or has a job, in the queue or
  given up by it, or its submission ended with an error after one of the failures that can strand a
  row: the reply to the INSERT was lost, the call was cancelled while it handed the job over, or the queue
  refused the job and the DELETE of the rollback failed. Every submission that was answered QUEUED has
  its document, and that document is settled with an event or has its job. Every event marked
  published was handed to the producer with its payload under the key of its document. (Synchronous
  calls are not part of this system.)
\<close>

theorem no_document_lost:
  assumes "(sys_step P)\<^sup>*\<^sup>* sys_init y"
  shows "list_all (\<lambda>r.
         (d_status r \<in> set terminal_statuses \<and> d_processed_at r \<noteq> None
            \<and> d_id r \<in> o_aggregate_id ` set (outbox (api_db (y_api y))))
         \<or> uuid_str (d_id r) \<in> set (a_jobs (y_api y)) \<union> set (y_given_up y)
         \<or> (\<exists>f. (d_id r, True, Inl f) \<in> set (y_answers y))) (documents (api_db (y_api y)))
    \<and> list_all (\<lambda>(i, failed, r). case r of
         Inl f \<Rightarrow> True
       | Inr m \<Rightarrow> m = \<lparr>sb_document_id = uuid_str i, sb_status = DOCUMENT_STATUS_QUEUED\<rparr>
           \<and> (\<exists>d \<in> set (documents (api_db (y_api y))). d_id d = i
                \<and> (d_status d \<in> set terminal_statuses \<and> i \<in> o_aggregate_id ` set (outbox (api_db (y_api y)))
                   \<or> uuid_str i \<in> set (a_jobs (y_api y)) \<union> set (y_given_up y)))) (y_answers y)
    \<and> distinct (map fst (y_answers y))
    \<and> handed_over (api_db (y_api y)) (y_sent y) \<and> wf_db (api_db (y_api y))"
proof -
  note inv = sys_steps_inv [OF assms, unfolded sys_inv_def]
  then have wf: "wf_db (api_db (y_api y))" by simp
  have settled: "d_status r \<in> set terminal_statuses \<and> d_processed_at r \<noteq> None
      \<and> d_id r \<in> o_aggregate_id ` set (outbox (api_db (y_api y)))"
    if "r \<in> set (documents (api_db (y_api y)))" "\<not> open_row r" for r
    using settled_event [OF wf that(1)] that(2) by (simp add: open_row_def)
  have answer: "\<exists>f. (i, True, Inl f) \<in> set (y_answers y)" if "stranded y i" for i
    using that by (auto simp: stranded_def split: option.splits prod.splits bool.splits sum.splits dest!: map_of_SomeD)
  have answers: "(case r of Inl f \<Rightarrow> True
       | Inr m \<Rightarrow> m = \<lparr>sb_document_id = uuid_str i, sb_status = DOCUMENT_STATUS_QUEUED\<rparr>
           \<and> (\<exists>d \<in> set (documents (api_db (y_api y))). d_id d = i
                \<and> (d_status d \<in> set terminal_statuses \<and> i \<in> o_aggregate_id ` set (outbox (api_db (y_api y)))
                   \<or> uuid_str i \<in> set (a_jobs (y_api y)) \<union> set (y_given_up y))))"
    if p: "(i, failed, r) \<in> set (y_answers y)" for i failed r
  proof (cases r)
    case (Inr m)
    then have a: "m = \<lparr>sb_document_id = uuid_str i, sb_status = DOCUMENT_STATUS_QUEUED\<rparr>"
        "i \<in> d_id ` set (documents (api_db (y_api y)))"
      using inv p by (auto simp: list_all_iff answered_ok_def)
    then obtain d where d: "d \<in> set (documents (api_db (y_api y)))" "d_id d = i" by auto
    have "map_of (y_answers y) i = Some (failed, Inr m)" using inv p Inr by simp
    then have "\<not> stranded y i" by (cases failed) (simp_all add: stranded_def)
    then have "\<not> open_row d \<or> has_job y i" using inv d by auto
    then show ?thesis using a(1) d settled [OF d(1)] Inr by (auto simp: has_job_def)
  qed simp
  have rows: "(d_status r \<in> set terminal_statuses \<and> d_processed_at r \<noteq> None
      \<and> d_id r \<in> o_aggregate_id ` set (outbox (api_db (y_api y))))
      \<or> uuid_str (d_id r) \<in> set (a_jobs (y_api y)) \<union> set (y_given_up y)
      \<or> (\<exists>f. (d_id r, True, Inl f) \<in> set (y_answers y))"
    if r: "r \<in> set (documents (api_db (y_api y)))" for r
  proof (cases "open_row r")
    case True
    then have "has_job y (d_id r) \<or> stranded y (d_id r)" using inv r by blast
    then show ?thesis using answer by (auto simp: has_job_def)
  qed (use settled [OF r] in blast)
  show ?thesis unfolding list_all_iff
    by (intro conjI ballI case_prodI2; ((rule rows, assumption) | (hypsubst, rule answers, assumption) | (use inv in blast)))
qed

definition demo_submitted :: sys where
  "demo_submitted = sys_init\<lparr>y_api := rpc_done demo_context (U ''OK'') ((set_db demo_stored api_init)\<lparr>a_jobs := [uuid_str 7]\<rparr>),
     y_answers := [(7, False, Inr \<lparr>sb_document_id = uuid_str 7, sb_status = DOCUMENT_STATUS_QUEUED\<rparr>)]\<rparr>"

lemma demo_reaches_submitted: "(sys_step (e_pg strict_env))\<^sup>*\<^sup>* sys_init demo_submitted"
proof -
  have "y_api sys_init = api_init" by (simp add: sys_init_def api_init_def)
  then have s: "SubmitDocument demo_servicer demo_context 100 7 demo_request (y_api sys_init)
      = (y_api demo_submitted, Inr \<lparr>sb_document_id = uuid_str 7, sb_status = DOCUMENT_STATUS_QUEUED\<rparr>)"
    by (simp add: demo_SubmitDocument_ok demo_submitted_def)
  have "e_pg (sv_env demo_servicer) = e_pg strict_env" "(7 :: uuid) \<notin> fst ` set (y_answers sys_init)"
    by (simp_all add: sys_init_def)
  from sys_step.submitted [OF this s] have "sys_step (e_pg strict_env) sys_init demo_submitted"
    by (simp add: demo_submitted_def sys_init_def may_strand_def demo_servicer_def)
  then show ?thesis by blast
qed

theorem no_document_lost_witness:
  "list_all (\<lambda>r. d_status r \<in> set terminal_statuses
         \<or> uuid_str (d_id r) \<in> set (a_jobs (y_api demo_submitted)) \<union> set (y_given_up demo_submitted))
     (documents (api_db (y_api demo_submitted)))"
proof -
  have "(i, True, Inl f) \<notin> set (y_answers demo_submitted)" for i f by (simp add: demo_submitted_def)
  with no_document_lost [OF demo_reaches_submitted] show ?thesis by (auto simp: list_all_iff)
qed

text \<open>
  When the queue has run dry and gave nothing up, the system has done its work: every
  document whose submission did not end with an error has a terminal status and an event in the outbox.
\<close>

lemma drained_queue_settled:
  assumes "(sys_step P)\<^sup>*\<^sup>* sys_init y" and "a_jobs (y_api y) = []" and "y_given_up y = []"
    and "r \<in> set (documents (api_db (y_api y)))" and "\<And>f. (d_id r, True, Inl f) \<notin> set (y_answers y)"
  shows "d_status r \<in> set terminal_statuses \<and> d_processed_at r \<noteq> None
    \<and> d_id r \<in> o_aggregate_id ` set (outbox (api_db (y_api y)))"
proof -
  note inv = sys_steps_inv [OF assms(1), unfolded sys_inv_def]
  have "\<not> has_job y (d_id r)" using assms(2,3) by (simp add: has_job_def)
  moreover have "\<not> stranded y (d_id r)"
    using assms(5) by (auto simp: stranded_def split: option.splits prod.splits bool.splits sum.splits dest!: map_of_SomeD)
  ultimately have "\<not> open_row r" using inv assms(4) by blast
  then show ?thesis using settled_event [of "api_db (y_api y)" r] inv assms(4) by (simp add: open_row_def)
qed

text \<open>The object is gone, so the worker fails the document and the job returns.\<close>

definition gone_env :: env where
  "gone_env = strict_env\<lparr>e_storage := \<lambda>_ _ _. Inl no_such_key\<rparr>"

definition demo_drained :: sys where
  "demo_drained = demo_submitted\<lparr>y_api := drop_job (uuid_str 7) ((y_api demo_submitted)
     \<lparr>a_world := fst (process_document gone_env 200 demo_stamp demo_stamp (uuid_str 7) (a_world (y_api demo_submitted)))\<rparr>)\<rparr>"

lemma demo_reaches_drained: "(sys_step (e_pg strict_env))\<^sup>*\<^sup>* sys_init demo_drained"
proof -
  let ?w = "a_world (y_api demo_submitted)"
  have "snd (process_document gone_env 200 demo_stamp demo_stamp (uuid_str 7) ?w) = Inr ()" by code_simp
  then have p: "process_document gone_env 200 demo_stamp demo_stamp (uuid_str 7) ?w
      = (fst (process_document gone_env 200 demo_stamp demo_stamp (uuid_str 7) ?w), Inr ())"
    by (metis prod.collapse)
  have "e_pg gone_env = e_pg strict_env" "uuid_str 7 \<in> set (a_jobs (y_api demo_submitted))"
    by (simp_all add: gone_env_def demo_submitted_def)
  from sys_step.returned [OF this p] have "sys_step (e_pg strict_env) demo_submitted demo_drained"
    unfolding demo_drained_def .
  with demo_reaches_submitted show ?thesis by (rule rtranclp.rtrancl_into_rtrancl)
qed

lemma drained_queue_settled_example:
  "\<exists>r. r \<in> set (documents (api_db (y_api demo_drained))) \<and> d_status r \<in> set terminal_statuses"
proof -
  have e: "a_jobs (y_api demo_drained) = []" "y_given_up demo_drained = []"
    by (simp_all add: demo_drained_def demo_submitted_def sys_init_def)
  have "length (documents (api_db (y_api demo_drained))) = 1" by code_simp
  then obtain r where "r \<in> set (documents (api_db (y_api demo_drained)))" by (cases "documents (api_db (y_api demo_drained))") auto
  moreover have "(d_id r, True, Inl f) \<notin> set (y_answers demo_drained)" for f
    by (simp add: demo_drained_def demo_submitted_def)
  ultimately show ?thesis using drained_queue_settled [OF demo_reaches_drained e] by blast
qed

end
