(* ===== verification/Ocr_Rely.thy ===== *)
theory Ocr_Rely
  imports Ocr_System
begin

text \<open>
  Processes that share the database, statement by statement: what each may rely on from the others
  and what it guarantees them. A family of processes advances one statement of one member at a time;
  the members' assertions survive the statements of the others (\<open>stable\<close>), and every statement keeps
  the shared invariant, the guarantee and its own assertion (\<open>moved\<close>), where the member may advance.
\<close>

subsection \<open>Families of processes\<close>

definition advance :: "('f \<Rightarrow> 'p \<times> 's \<Rightarrow> 'p \<times> 's) \<Rightarrow> 'f \<Rightarrow> nat \<Rightarrow> 'p list \<times> 's \<Rightarrow> 'p list \<times> 's" where
  "advance move f n x =
     (if n < length (fst x) then (case move f (fst x ! n, snd x) of (p, s) \<Rightarrow> ((fst x)[n := p], s)) else x)"

locale interference =
  fixes inv :: "'s \<Rightarrow> bool" and rely :: "'s \<Rightarrow> 's \<Rightarrow> bool" and guar :: "'s \<Rightarrow> 's \<Rightarrow> bool"
    and ok :: "'s \<Rightarrow> 'p \<Rightarrow> bool" and may :: "'s \<Rightarrow> 'p \<Rightarrow> bool" and move :: "'f \<Rightarrow> 'p \<times> 's \<Rightarrow> 'p \<times> 's"
  assumes stable: "ok s p \<Longrightarrow> inv s \<Longrightarrow> inv s' \<Longrightarrow> rely s s' \<Longrightarrow> ok s' p"
    and moved: "move f (p, s) = (p', s') \<Longrightarrow> inv s \<Longrightarrow> ok s p \<Longrightarrow> may s p \<Longrightarrow>
      inv s' \<and> guar s s' \<and> ok s' p'"
    and compatible: "guar s s' \<Longrightarrow> rely s s'"
begin

lemma undisturbed: "list_all (ok s) ps \<Longrightarrow> inv s \<Longrightarrow> inv s' \<Longrightarrow> rely s s' \<Longrightarrow> list_all (ok s') ps"
  by (auto simp: list_all_iff intro: stable)

lemma advanced:
  assumes "advance move f n (ps, s) = (ps', s')" and "inv s" and "list_all (ok s) ps" and "n < length ps"
    and "may s (ps ! n)"
  shows "inv s' \<and> guar s s' \<and> list_all (ok s') ps'"
proof -
  obtain p where m: "move f (ps ! n, s) = (p, s')" and ps': "ps' = ps[n := p]"
    using assms(1,4) by (auto simp: advance_def split: prod.splits)
  have "ok s (ps ! n)" using assms(3,4) by (simp add: list_all_length)
  from moved [OF m assms(2) this assms(5)] have s': "inv s'" "guar s s'" "ok s' p" by simp_all
  have "list_all (ok s') ps" using undisturbed [OF assms(3,2) s'(1) compatible [OF s'(2)]] .
  then have "list_all (ok s') ps'" using s'(3) by (auto simp: ps' list_all_iff dest!: set_update_subset_insert [THEN subsetD])
  with s' show ?thesis by simp
qed

end

text \<open>
  A statement can raise because a connection is lost; the flag says whether it had taken effect.
\<close>

type_synonym fault = "exn \<times> bool"

subsection \<open>What the processes share\<close>

text \<open>
  The servicer's world and queue, the messages handed to the producer, its counters; \<open>h_inline\<close> is for the
  proofs only, the documents that synchronous calls have inserted.
\<close>

record shared =
  h_api :: api
  h_sent :: "message list"
  h_ok :: nat
  h_failed :: nat
  h_inline :: "uuid list"

definition shared_db :: "shared \<Rightarrow> db" where
  "shared_db s = api_db (h_api s)"

definition shared_inv :: "shared \<Rightarrow> bool" where
  "shared_inv s \<longleftrightarrow> wf_db (shared_db s) \<and> handed_over (shared_db s) (h_sent s)"

text \<open>The documents somebody answers for, by their jobs; none of them is opened, no event goes or changes what it says.\<close>

definition claimed :: "shared \<Rightarrow> pystr set" where
  "claimed s = set (a_jobs (h_api s)) \<union> uuid_str ` set (h_inline s)"

definition stays_closed :: "pystr set \<Rightarrow> db \<Rightarrow> db \<Rightarrow> bool" where
  "stays_closed jobs w w' \<longleftrightarrow>
     (\<forall>r' \<in> set (documents w'). open_row r' \<and> uuid_str (d_id r') \<in> jobs \<longrightarrow>
        (\<exists>r \<in> set (documents w). d_id r = d_id r' \<and> open_row r))"

definition event_of :: "orow \<Rightarrow> uuid \<times> uuid \<times> pyv" where
  "event_of r = (o_id r, o_aggregate_id r, o_payload r)"

text \<open>A document of a synchronous call stays under its key.\<close>

definition row_key :: "drow \<Rightarrow> uuid \<times> uuid" where
  "row_key r = (d_id r, d_key r)"

definition rows_persist :: "uuid set \<Rightarrow> db \<Rightarrow> db \<Rightarrow> bool" where
  "rows_persist ids w w' \<longleftrightarrow> (\<forall>r \<in> set (documents w). d_id r \<in> ids \<longrightarrow> row_key r \<in> row_key ` set (documents w'))"

definition interferes :: "shared \<Rightarrow> shared \<Rightarrow> bool" where
  "interferes s s' \<longleftrightarrow>
     set (a_jobs (h_api s)) \<subseteq> set (a_jobs (h_api s')) \<and> set (h_inline s) \<subseteq> set (h_inline s')
     \<and> set (h_sent s) \<subseteq> set (h_sent s')
     \<and> stays_closed (claimed s) (shared_db s) (shared_db s')
     \<and> rows_persist (set (h_inline s)) (shared_db s) (shared_db s')
     \<and> event_of ` set (outbox (shared_db s)) \<subseteq> event_of ` set (outbox (shared_db s'))"

lemma interferes_claimed: "interferes s s' \<Longrightarrow> claimed s \<subseteq> claimed s'"
  by (auto simp: interferes_def claimed_def)

lemma store_step_events:
  assumes "store_step P w w'"
  shows "event_of ` set (outbox w) \<subseteq> event_of ` set (outbox w')"
proof -
  obtain upd new where out: "outbox w' = map upd (outbox w) @ new" and "\<forall>r. o_id (upd r) = o_id r"
      and "\<forall>r. o_payload (upd r) = o_payload r \<and> o_aggregate_id (upd r) = o_aggregate_id r"
    using step_outbox [OF assms] by blast
  then have same: "event_of (upd r) = event_of r" for r by (simp add: event_of_def)
  have "event_of ` set (map upd (outbox w)) = event_of ` set (outbox w)"
    by (simp only: set_map image_image same)
  then show ?thesis unfolding out by auto
qed

text \<open>What the worker and the publishers guarantee besides: they add no document and no job.\<close>

definition adds_nothing :: "shared \<Rightarrow> shared \<Rightarrow> bool" where
  "adds_nothing s s' \<longleftrightarrow>
     interferes s s' \<and> a_jobs (h_api s') = a_jobs (h_api s) \<and> h_inline s' = h_inline s
     \<and> map row_key (documents (shared_db s')) = map row_key (documents (shared_db s))"

lemma adds_nothing_interferes: "adds_nothing s s' \<Longrightarrow> interferes s s'"
  by (simp add: adds_nothing_def)

lemma store_step_keys:
  assumes "store_step P w w'" and "length (documents w') = length (documents w)"
  shows "map row_key (documents w') = map row_key (documents w)"
proof -
  obtain upd new where "documents w' = map upd (documents w) @ new" and "\<forall>r. d_id (upd r) = d_id r \<and> d_key (upd r) = d_key r"
    using step_documents [OF assms(1)] by blast
  with assms(2) show ?thesis by (simp add: row_key_def)
qed

text \<open>A statement of the repository that adds no document keeps the guarantee.\<close>

lemma step_adds_nothing:
  assumes "store_step P (shared_db s) (shared_db s') \<or> shared_db s' = shared_db s"
    and "map d_id (documents (shared_db s')) = map d_id (documents (shared_db s))"
    and "a_jobs (h_api s') = a_jobs (h_api s)" and "h_inline s' = h_inline s"
    and "wf_db (shared_db s)" and "set (h_sent s) \<subseteq> set (h_sent s')"
  shows "wf_db (shared_db s') \<and> adds_nothing s s'"
proof -
  have steps: "(store_step P)\<^sup>*\<^sup>* (shared_db s) (shared_db s')" using assms(1) by auto
  have "stays_closed (claimed s) (shared_db s) (shared_db s')"
    using open_row_before [OF steps assms(2,5)] by (auto simp: stays_closed_def)
  moreover have "event_of ` set (outbox (shared_db s)) \<subseteq> event_of ` set (outbox (shared_db s'))"
    using assms(1) store_step_events by (metis order.refl)
  moreover have "map row_key (documents (shared_db s')) = map row_key (documents (shared_db s))"
    using assms(1) store_step_keys map_eq_imp_length_eq [OF assms(2)] by auto
  moreover from this have "row_key ` set (documents (shared_db s')) = row_key ` set (documents (shared_db s))"
    by (metis list.set_map)
  then have "rows_persist (set (h_inline s)) (shared_db s) (shared_db s')" by (simp add: rows_persist_def)
  ultimately show ?thesis using store_steps_wf [OF steps assms(5)] assms(3,4,6)
    by (simp add: adds_nothing_def interferes_def)
qed

end
