(* ===== verification/Ocr_Overlap.thy ===== *)
theory Ocr_Overlap
  imports Ocr_Rely
begin

text \<open>
  Submissions that overlap in time: \<open>SubmitDocument\<close> (\<open>api/servicer.py\<close>) taken apart into its
  statements, any of which may fail because a connection is lost, and any number of calls in flight
  with the other processes running in between.
\<close>

subsection \<open>A submission statement by statement\<close>

text \<open>Where a call of \<open>SubmitDocument\<close> is: before each statement another process can run.\<close>

datatype submit_pc =
    Arrived
  | Inserted
  | Refused
  | Enqueue_failed
  | Done "failure + submit_response"

record submit_call =
  cl_servicer :: servicer
  cl_context :: rpc_context
  cl_now :: int
  cl_id :: uuid
  cl_request :: submit_request
  cl_pc :: submit_pc

definition ends :: "submit_call \<Rightarrow> api \<times> (failure + submit_response) \<Rightarrow> submit_call \<times> api" where
  "ends c p = (c\<lparr>cl_pc := Done (snd p)\<rparr>, fst p)"

definition submit_turn :: "submit_call \<times> api \<Rightarrow> submit_call \<times> api" where
  "submit_turn x =
     (let c = fst x; a = snd x; S = cl_servicer c; E = sv_env S; cx = cl_context c; rq = cl_request c
      in case cl_pc c of
           Arrived \<Rightarrow>
             (case validate_submit (e_settings E) (e_schemas E) rq of
                Some message \<Rightarrow> ends c (abort cx INVALID_ARGUMENT message a)
              | None \<Rightarrow>
                  (case submit_document (e_pg E) (cl_now c) (submission_of cx (cl_id c) rq) (api_db a) of
                     (w, Inl e) \<Rightarrow> ends c (set_db w a, Inl (Raised e))
                   | (w, Inr inserted) \<Rightarrow> (c\<lparr>cl_pc := (if inserted then Inserted else Refused)\<rparr>, set_db w a)))
         | Refused \<Rightarrow>
             (case get_idempotent_document (e_pg E) (rq_idempotency_key rq) (api_db a) of
                Inl e \<Rightarrow> ends c (a, Inl (Raised e))
              | Inr existing \<Rightarrow>
                  ends c (abort cx ALREADY_EXISTS
                    (U ''document_id='' @ (case existing of Some d \<Rightarrow> uuid_str (dw_id d) | None \<Rightarrow> U ''unknown'')) a))
         | Inserted \<Rightarrow>
             (case sv_enqueue S (uuid_str (cl_id c)) of
                Some CancelledError \<Rightarrow> ends c (a, Inl (Raised CancelledError))
              | Some e \<Rightarrow> (c\<lparr>cl_pc := Enqueue_failed\<rparr>, a)
              | None \<Rightarrow>
                  ends c (rpc_done cx (U ''OK'') (a\<lparr>a_jobs := a_jobs a @ [uuid_str (cl_id c)]\<rparr>),
                    Inr \<lparr>sb_document_id = uuid_str (cl_id c), sb_status = DOCUMENT_STATUS_QUEUED\<rparr>))
         | Enqueue_failed \<Rightarrow>
             (case rollback S (cl_id c) (api_db a) of
                (w, Inl e) \<Rightarrow> ends c (set_db w a, Inl (Raised e))
              | (w, Inr _) \<Rightarrow> ends c (abort cx RESOURCE_EXHAUSTED (U ''queue unavailable'') (set_db w a)))
         | Done r \<Rightarrow> (c, a))"

lemma turn_done [simp]: "cl_pc c = Done r \<Longrightarrow> submit_turn (c, a) = (c, a)"
  by (simp add: submit_turn_def)

lemma ends_facts [simp]: "cl_pc (fst (ends c p)) = Done (snd p)" "submit_turn (ends c p) = ends c p"
  by (simp_all add: ends_def)

lemma enqueue_turn:
  assumes "cl_pc c = Inserted"
  shows "submit_turn (submit_turn (c, a)) =
     (let S = cl_servicer c; cx = cl_context c
      in case sv_enqueue S (uuid_str (cl_id c)) of
           Some CancelledError \<Rightarrow> ends c (a, Inl (Raised CancelledError))
         | Some e \<Rightarrow>
             (case rollback S (cl_id c) (api_db a) of
                (w, Inl e) \<Rightarrow> ends c (set_db w a, Inl (Raised e))
              | (w, Inr _) \<Rightarrow> ends c (abort cx RESOURCE_EXHAUSTED (U ''queue unavailable'') (set_db w a)))
         | None \<Rightarrow>
             ends c (rpc_done cx (U ''OK'') (a\<lparr>a_jobs := a_jobs a @ [uuid_str (cl_id c)]\<rparr>),
               Inr \<lparr>sb_document_id = uuid_str (cl_id c), sb_status = DOCUMENT_STATUS_QUEUED\<rparr>))"
proof (cases "sv_enqueue (cl_servicer c) (uuid_str (cl_id c))")
  case None
  then show ?thesis using assms by (simp add: submit_turn_def Let_def ends_def)
next
  case (Some e)
  then show ?thesis using assms
    by (cases e; cases "rollback (cl_servicer c) (cl_id c) (api_db a)"; cases "snd (rollback (cl_servicer c) (cl_id c) (api_db a))")
      (simp_all add: submit_turn_def Let_def ends_def)
qed

text \<open>
  A call that nothing interrupts is the call as the servicer has it: three turns of the
  statement by statement version end with the answer and the state of \<open>SubmitDocument\<close>. (A reply to the
  INSERT that is lost is a fault of the first turn here, see below.)
\<close>

lemma uninterrupted_submission:
  assumes "sv_lost (cl_servicer c) (uuid_str (cl_id c)) = None"
  shows "(submit_turn ^^ 3) (c\<lparr>cl_pc := Arrived\<rparr>, a) =
     (case SubmitDocument (cl_servicer c) (cl_context c) (cl_now c) (cl_id c) (cl_request c) a of
        (a', r) \<Rightarrow> (c\<lparr>cl_pc := Done r\<rparr>, a'))"
proof -
  let ?E = "sv_env (cl_servicer c)" and ?rq = "cl_request c" and ?c = "c\<lparr>cl_pc := Arrived\<rparr>"
  have three: "(submit_turn ^^ 3) x = submit_turn (submit_turn (submit_turn x))" for x
    by (simp add: numeral_3_eq_3)
  show ?thesis
  proof (cases "validate_submit (e_settings ?E) (e_schemas ?E) ?rq")
    case (Some message)
    have "submit_turn (?c, a) = ends ?c (abort (cl_context c) INVALID_ARGUMENT message a)"
      by (simp add: submit_turn_def Some)
    then show ?thesis by (simp add: three SubmitDocument_def Some) (simp add: ends_def abort_def)
  next
    case valid: None
    obtain w x where s: "submit_document (e_pg ?E) (cl_now c) (submission_of (cl_context c) (cl_id c) ?rq) (api_db a) = (w, x)"
      by fastforce
    show ?thesis
    proof (cases x)
      case (Inl e)
      have "submit_turn (?c, a) = ends ?c (set_db w a, Inl (Raised e))"
        by (simp add: submit_turn_def valid s Inl)
      then show ?thesis by (simp add: three SubmitDocument_def valid s Inl) (simp add: ends_def)
    next
      case (Inr inserted)
      have t: "submit_turn (?c, a) = (c\<lparr>cl_pc := (if inserted then Inserted else Refused)\<rparr>, set_db w a)"
        by (simp add: submit_turn_def valid s Inr)
      show ?thesis
      proof (cases inserted)
        case True
        have c: "cl_pc (c\<lparr>cl_pc := Inserted\<rparr>) = Inserted" by simp
        show ?thesis using t
          by (simp add: three enqueue_turn [OF c] SubmitDocument_def valid s Inr True Let_def assms split: option.split exn.split)
            (auto simp: ends_def abort_def split: prod.split sum.split)
      next
        case False
        show ?thesis using t
          by (cases "get_idempotent_document (e_pg ?E) (rq_idempotency_key ?rq) w")
            (simp_all add: three submit_turn_def SubmitDocument_def valid s Inr False Let_def ends_def abort_def)
      qed
    qed
  qed
qed

subsection \<open>Lost connections\<close>

text \<open>
  A statement can raise because the connection is lost, \<open>applied\<close> says whether it had taken effect
  before. The exception leaves the call, except that the one of \<open>enqueue\<close> starts the rollback and the
  one of the rollback is logged and dropped; a cancellation always leaves.
\<close>

definition submit_fault :: "fault \<Rightarrow> submit_call \<times> api \<Rightarrow> submit_call \<times> api" where
  "submit_fault f x =
     (let e = fst f; applied = snd f; c = fst x; a = snd x; E = sv_env (cl_servicer c); cx = cl_context c; rq = cl_request c
      in case cl_pc c of
           Arrived \<Rightarrow>
             if validate_submit (e_settings E) (e_schemas E) rq \<noteq> None then submit_turn x
             else ends c (if applied
                          then set_db (fst (submit_document (e_pg E) (cl_now c) (submission_of cx (cl_id c) rq) (api_db a))) a
                          else a, Inl (Raised e))
         | Refused \<Rightarrow> ends c (a, Inl (Raised e))
         | Inserted \<Rightarrow>
             (let a' = (if applied then a\<lparr>a_jobs := a_jobs a @ [uuid_str (cl_id c)]\<rparr> else a)
              in if e = CancelledError then ends c (a', Inl (Raised e)) else (c\<lparr>cl_pc := Enqueue_failed\<rparr>, a'))
         | Enqueue_failed \<Rightarrow>
             (let a' = (if applied then set_db (delete_document (cl_id c) (api_db a)) a else a)
              in if e = CancelledError then ends c (a', Inl (Raised e))
                 else ends c (abort cx RESOURCE_EXHAUSTED (U ''queue unavailable'') a'))
         | Done r \<Rightarrow> x)"

definition call_turn :: "fault option \<Rightarrow> submit_call \<times> api \<Rightarrow> submit_call \<times> api" where
  "call_turn f x = (case f of None \<Rightarrow> submit_turn x | Some g \<Rightarrow> submit_fault g x)"

subsection \<open>Calls in flight together\<close>

record conc =
  k_api :: api
  k_calls :: "submit_call list"

definition turn :: "fault option \<Rightarrow> nat \<Rightarrow> conc \<Rightarrow> conc" where
  "turn f n k =
     (if n < length (k_calls k)
      then (case call_turn f (k_calls k ! n, k_api k) of (c, a) \<Rightarrow> k\<lparr>k_calls := (k_calls k)[n := c], k_api := a\<rparr>)
      else k)"

inductive conc_step :: "pg \<Rightarrow> conc \<Rightarrow> conc \<Rightarrow> bool" for P where
  arrived: "cl_pc c = Arrived \<Longrightarrow> e_pg (sv_env (cl_servicer c)) = P \<Longrightarrow> cl_id c \<notin> cl_id ` set (k_calls k) \<Longrightarrow>
    conc_step P k (k\<lparr>k_calls := k_calls k @ [c]\<rparr>)"
| turned: "conc_step P k (turn f n k)"
| others: "store_step P (api_db (k_api k)) w \<Longrightarrow>
    map d_id (documents w) = map d_id (documents (api_db (k_api k))) \<Longrightarrow>
    conc_step P k (k\<lparr>k_api := set_db w (k_api k)\<rparr>)"

subsection \<open>What the calls keep together\<close>

definition with_row :: "pg \<Rightarrow> db \<Rightarrow> submit_call \<Rightarrow> bool" where
  "with_row P w c \<longleftrightarrow>
     (\<exists>r \<in> set (documents w). d_id r = cl_id c \<and> pg_uuid P (rq_idempotency_key (cl_request c)) = Some (d_key r))"

definition queued_answer :: "submit_call \<Rightarrow> submit_response" where
  "queued_answer c = \<lparr>sb_document_id = uuid_str (cl_id c), sb_status = DOCUMENT_STATUS_QUEUED\<rparr>"

text \<open>
  The calls that are answerable for a row: those under way with it, answered with it, and those that
  ended with an exception or an unfinished rollback. \<open>handed\<close>: the call is past handing its job over.
\<close>

fun owning :: "submit_pc \<Rightarrow> bool" where
  "owning Inserted = True"
| "owning Enqueue_failed = True"
| "owning (Done (Inr m)) = True"
| "owning (Done (Inl (Raised e))) = True"
| "owning (Done (Inl (Abort code message))) = (code = RESOURCE_EXHAUSTED)"
| "owning pc = False"

fun handed :: "submit_pc \<Rightarrow> bool" where
  "handed Enqueue_failed = True"
| "handed (Done r) = True"
| "handed pc = False"

fun call_ok :: "pg \<Rightarrow> db \<Rightarrow> pystr list \<Rightarrow> submit_call \<Rightarrow> submit_pc \<Rightarrow> bool" where
  "call_ok P w jobs c Inserted = with_row P w c"
| "call_ok P w jobs c Enqueue_failed = with_row P w c"
| "call_ok P w jobs c (Done (Inr m)) = (with_row P w c \<and> m = queued_answer c \<and> uuid_str (cl_id c) \<in> set jobs)"
| "call_ok P w jobs c pc = True"

text \<open>\<open>F\<close> holds the identifiers of documents that other calls answer for.\<close>

definition conc_inv :: "pg \<Rightarrow> uuid set \<Rightarrow> conc \<Rightarrow> bool" where
  "conc_inv P F k \<longleftrightarrow>
     wf_db (api_db (k_api k)) \<and> distinct (map cl_id (k_calls k)) \<and> cl_id ` set (k_calls k) \<inter> F = {}
     \<and> (\<forall>c \<in> set (k_calls k). e_pg (sv_env (cl_servicer c)) = P
          \<and> call_ok P (api_db (k_api k)) (a_jobs (k_api k)) c (cl_pc c))
     \<and> (\<forall>r \<in> set (documents (api_db (k_api k))).
          d_id r \<in> F \<or> (\<exists>c \<in> set (k_calls k). cl_id c = d_id r \<and> owning (cl_pc c)))
     \<and> (\<forall>j \<in> set (a_jobs (k_api k)). \<exists>c \<in> set (k_calls k). j = uuid_str (cl_id c) \<and> handed (cl_pc c))"

lemma submission_fields [simp]:
  "s_document_id (submission_of cx i rq) = i" "s_idempotency_key (submission_of cx i rq) = rq_idempotency_key rq"
  by (simp_all add: submission_of_def)

text \<open>What one turn of a call does, with or without a fault.\<close>

lemma submit_result: "submit_document P now q w = (w', Inl e) \<Longrightarrow> w' = w"
  by (auto simp: submit_document_def Let_def split: option.splits if_splits)

lemma call_turn_cases:
  assumes "call_turn f (c, a) = (c', a')" and "e_pg (sv_env (cl_servicer c)) = P"
  obtains (idle) "c' = c" and "a' = a"
    | (moved) pc where "c' = c\<lparr>cl_pc := pc\<rparr>" and "api_db a' = api_db a" and "a_jobs a' = a_jobs a"
        and "owning (cl_pc c) \<Longrightarrow> owning pc" and "handed (cl_pc c) \<Longrightarrow> handed pc"
        and "\<And>w jobs. call_ok P w jobs c (cl_pc c) \<Longrightarrow> call_ok P w jobs c pc"
    | (inserted) key pc where "cl_pc c = Arrived" and "c' = c\<lparr>cl_pc := pc\<rparr>" and "a_jobs a' = a_jobs a"
        and "owning pc" and "\<And>w jobs. with_row P w c \<Longrightarrow> call_ok P w jobs c pc"
        and "pg_uuid P (rq_idempotency_key (cl_request c)) = Some key"
        and "documents (api_db a') = documents (api_db a)
               @ [queued_row (cl_now c) key (submission_of (cl_context c) (cl_id c) (cl_request c))]"
        and "store_step P (api_db a) (api_db a')" and "outbox (api_db a') = outbox (api_db a)"
    | (queued) pc where "cl_pc c = Inserted" and "c' = c\<lparr>cl_pc := pc\<rparr>" and "owning pc" and "handed pc"
        and "\<And>w jobs. with_row P w c \<Longrightarrow> uuid_str (cl_id c) \<in> set jobs \<Longrightarrow> call_ok P w jobs c pc"
        and "api_db a' = api_db a" and "a_jobs a' = a_jobs a @ [uuid_str (cl_id c)]"
    | (rolled_back) r where "cl_pc c = Enqueue_failed" and "c' = c\<lparr>cl_pc := Done (Inl r)\<rparr>"
        and "api_db a' = delete_document (cl_id c) (api_db a)" and "a_jobs a' = a_jobs a"
proof (cases "cl_pc c")
  case Arrived
  let ?E = "sv_env (cl_servicer c)" and ?rq = "cl_request c"
  show ?thesis
  proof (cases "validate_submit (e_settings ?E) (e_schemas ?E) ?rq")
    case (Some message)
    then have "call_turn f (c, a) = submit_turn (c, a)"
      using Arrived by (simp add: call_turn_def submit_fault_def split: option.split)
    then show ?thesis using assms Arrived Some
      by (intro moved [of "Done (Inl (Abort INVALID_ARGUMENT message))"]) (auto simp: submit_turn_def ends_def abort_def)
  next
    case valid: None
    obtain w x where s: "submit_document P (cl_now c) (submission_of (cl_context c) (cl_id c) ?rq) (api_db a) = (w, x)"
      by fastforce
    have step: "store_step P (api_db a) w" by (rule store_step.submitted [OF s])
    show ?thesis
    proof (cases f)
      case (Some g)
      then have t: "call_turn f (c, a) = ends c (if snd g then set_db w a else a, Inl (Raised (fst g)))"
        using assms(2) Arrived valid s by (simp add: call_turn_def submit_fault_def)
      show ?thesis
      proof (cases "snd g \<and> x = Inr True")
        case True
        from s show ?thesis
        proof (cases rule: submit_cases)
          case (stored key)
          then show ?thesis using assms(1) t step True Arrived
            by (intro inserted [of "Done (Inl (Raised (fst g)))" key]) (auto simp: ends_def)
        qed (use True in auto)
      next
        case False
        have "w = api_db a" if "snd g" using s by (cases rule: submit_cases) (use False that in auto)
        then show ?thesis using assms(1) t Arrived
          by (intro moved [of "Done (Inl (Raised (fst g)))"]) (auto simp: ends_def)
      qed
    next
      case None
      then have t: "call_turn f (c, a) = submit_turn (c, a)" by (simp add: call_turn_def)
      from s show ?thesis
      proof (cases rule: submit_cases)
        case refused
        show ?thesis
        proof (cases x)
          case (Inl e)
          then show ?thesis using assms Arrived valid s refused(1) t
            by (intro moved [of "Done (Inl (Raised e))"]) (auto simp: submit_turn_def ends_def)
        next
          case (Inr b)
          then have "b = False" using refused(2) by simp
          then show ?thesis using assms Arrived valid s Inr refused(1) t
            by (intro moved [of Refused]) (auto simp: submit_turn_def ends_def)
        qed
      next
        case (stored key)
        then show ?thesis using assms Arrived valid s step t
          by (intro inserted [of Inserted key]) (auto simp: submit_turn_def)
      qed
    qed
  qed
next
  case Refused
  let ?rq = "cl_request c"
  have "\<exists>a1 r. call_turn f (c, a) = (c\<lparr>cl_pc := Done (Inl r)\<rparr>, a1) \<and> api_db a1 = api_db a \<and> a_jobs a1 = a_jobs a"
  proof (cases f)
    case (Some g)
    then show ?thesis using Refused
      by (intro exI [of _ a] exI [of _ "Raised (fst g)"]) (simp add: call_turn_def submit_fault_def ends_def)
  next
    case None
    then show ?thesis using Refused assms(2)
      by (cases "get_idempotent_document P (rq_idempotency_key ?rq) (api_db a)")
        (simp_all add: call_turn_def submit_turn_def ends_def abort_def, blast+)
  qed
  then obtain a1 r where "call_turn f (c, a) = (c\<lparr>cl_pc := Done (Inl r)\<rparr>, a1)" "api_db a1 = api_db a" "a_jobs a1 = a_jobs a"
    by blast
  then show ?thesis using assms(1) Refused by (intro moved [of "Done (Inl r)"]) auto
next
  case Inserted
  show ?thesis
  proof (cases f)
    case (Some g)
    let ?a = "if snd g then a\<lparr>a_jobs := a_jobs a @ [uuid_str (cl_id c)]\<rparr> else a"
    let ?pc = "if fst g = CancelledError then Done (Inl (Raised (fst g))) else Enqueue_failed"
    have t: "call_turn f (c, a) = (c\<lparr>cl_pc := ?pc\<rparr>, ?a)"
      using Inserted Some by (simp add: call_turn_def submit_fault_def ends_def Let_def)
    have pc: "owning ?pc" "handed ?pc" "\<And>w jobs. with_row P w c \<Longrightarrow> call_ok P w jobs c ?pc" by simp_all
    show ?thesis
    proof (cases "snd g")
      case True
      then show ?thesis using assms(1) t Inserted pc by (intro queued [of ?pc]) auto
    next
      case False
      then show ?thesis using assms(1) t Inserted pc by (intro moved [of ?pc]) auto
    qed
  next
    case None
    then have t: "call_turn f (c, a) = submit_turn (c, a)" by (simp add: call_turn_def)
    show ?thesis
    proof (cases "sv_enqueue (cl_servicer c) (uuid_str (cl_id c))")
      case None
      then show ?thesis using assms Inserted t
        by (intro queued [of "Done (Inr (queued_answer c))"]) (auto simp: submit_turn_def ends_def queued_answer_def)
    next
      case (Some e)
      show ?thesis
      proof (cases "e = CancelledError")
        case True
        then show ?thesis using assms Inserted Some t
          by (intro moved [of "Done (Inl (Raised CancelledError))"]) (auto simp: submit_turn_def ends_def)
      next
        case False
        then have "submit_turn (c, a) = (c\<lparr>cl_pc := Enqueue_failed\<rparr>, a)"
          using Inserted Some by (cases e) (simp_all add: submit_turn_def)
        then show ?thesis using assms(1) Inserted t by (intro moved [of Enqueue_failed]) auto
      qed
    qed
  qed
next
  case Enqueue_failed
  let ?m = "U ''queue unavailable''"
  obtain e gone where ends: "call_turn f (c, a) = (c\<lparr>cl_pc := Done (Inl (if e = CancelledError then Raised e else Abort RESOURCE_EXHAUSTED ?m))\<rparr>,
      snd (call_turn f (c, a)))"
    and db: "api_db (snd (call_turn f (c, a))) = (if gone then delete_document (cl_id c) (api_db a) else api_db a)"
      "a_jobs (snd (call_turn f (c, a))) = a_jobs a"
  proof (cases f)
    case (Some g)
    then show ?thesis using Enqueue_failed that [of "fst g" "snd g"]
      by (simp add: call_turn_def submit_fault_def ends_def abort_def Let_def)
  next
    case None
    then have t: "call_turn f (c, a) = submit_turn (c, a)" by (simp add: call_turn_def)
    show ?thesis
    proof (cases "sv_delete (cl_servicer c) (uuid_str (cl_id c))")
      case None
      then show ?thesis using Enqueue_failed t that [of IndexError True]
        by (simp add: submit_turn_def rollback_def ends_def abort_def)
    next
      case (Some p)
      then show ?thesis using Enqueue_failed t that [of "fst p" "snd p"]
        by (cases p) (simp add: submit_turn_def rollback_def ends_def abort_def)
    qed
  qed
  let ?r = "if e = CancelledError then Raised e else Abort RESOURCE_EXHAUSTED ?m"
  have pc: "owning (Done (Inl ?r))" "handed (Done (Inl ?r))" "\<And>w jobs. call_ok P w jobs c (Done (Inl ?r))" by simp_all
  show ?thesis
  proof (cases gone)
    case True
    then show ?thesis using assms(1) ends db Enqueue_failed by (intro rolled_back [of ?r]) auto
  next
    case False
    then show ?thesis using assms(1) ends db Enqueue_failed pc by (intro moved [of "Done (Inl ?r)"]) auto
  qed
next
  case (Done r)
  then show ?thesis using assms(1)
    by (intro idle) (auto simp: call_turn_def submit_fault_def split: option.splits)
qed

lemma call_ok_more:
  assumes "call_ok P w jobs c pc" and "set jobs \<subseteq> set jobs'"
    and "\<And>r. r \<in> set (documents w) \<Longrightarrow> d_id r = cl_id c \<Longrightarrow>
      \<exists>r' \<in> set (documents w'). d_id r' = d_id r \<and> d_key r' = d_key r"
  shows "call_ok P w' jobs' c pc"
proof -
  have "with_row P w c \<Longrightarrow> with_row P w' c" using assms(3) unfolding with_row_def by metis
  with assms(1,2) show ?thesis by (cases "(P, w, jobs, c, pc)" rule: call_ok.cases) auto
qed

lemma delete_wf: "wf_db w \<Longrightarrow> wf_db (delete_document i w)"
  by (auto simp: wf_db_def delete_document_def list_all_iff distinct_map intro: inj_on_subset)

text \<open>A turn of the call at one place, given what it does to the shared state.\<close>

lemma turn_inv:
  assumes inv: "conc_inv P F k" and n: "n < length (k_calls k)" and c: "k_calls k ! n = c"
    and pc: "cl_pc c' = pc" "c' = c\<lparr>cl_pc := pc\<rparr>" and ok: "call_ok P (api_db a') (a_jobs a') c pc"
    and wf: "wf_db (api_db a')" and jobs: "set (a_jobs (k_api k)) \<subseteq> set (a_jobs a')"
    and kept: "\<And>r. r \<in> set (documents (api_db (k_api k))) \<Longrightarrow> d_id r \<noteq> cl_id c \<Longrightarrow> r \<in> set (documents (api_db a'))"
    and new: "\<And>r. r \<in> set (documents (api_db a')) \<Longrightarrow> d_id r \<noteq> cl_id c \<Longrightarrow> r \<in> set (documents (api_db (k_api k)))"
    and own: "\<And>r. r \<in> set (documents (api_db a')) \<Longrightarrow> d_id r = cl_id c \<Longrightarrow> owning pc"
    and hand: "handed (cl_pc c) \<Longrightarrow> handed pc"
    and added: "set (a_jobs a') \<subseteq> set (a_jobs (k_api k)) \<union> (if handed pc then {uuid_str (cl_id c)} else {})"
  shows "conc_inv P F (k\<lparr>k_calls := (k_calls k)[n := c'], k_api := a'\<rparr>)"
proof -
  let ?calls = "(k_calls k)[n := c']"
  have ids: "map cl_id ?calls = map cl_id (k_calls k)" using n c pc(2) by (simp add: map_update) (metis list_update_id nth_map)
  have dist: "distinct (map cl_id (k_calls k))" using inv by (simp add: conc_inv_def)
  have at: "?calls ! n = c'" and in_new: "c' \<in> set ?calls" using n by (simp_all add: set_update_memI)
  have other: "d = c' \<or> (d \<in> set (k_calls k) \<and> cl_id d \<noteq> cl_id c)" if "d \<in> set ?calls" for d
  proof -
    from that obtain m where m: "m < length (k_calls k)" "?calls ! m = d" by (auto simp: in_set_conv_nth)
    show ?thesis
    proof (cases "m = n")
      case True
      then show ?thesis using m at by simp
    next
      case False
      then have "d = k_calls k ! m" using m(2) by simp
      moreover have "cl_id (k_calls k ! m) \<noteq> cl_id (k_calls k ! n)"
        using dist False m(1) n nth_eq_iff_index_eq [of "map cl_id (k_calls k)" m n] by simp
      ultimately show ?thesis using m(1) c by auto
    qed
  qed
  have c_in: "c \<in> set (k_calls k)" using n c by auto
  have calls: "e_pg (sv_env (cl_servicer d)) = P \<and> call_ok P (api_db a') (a_jobs a') d (cl_pc d)" if "d \<in> set ?calls" for d
  proof -
    from other [OF that] show ?thesis
    proof
      assume "d = c'"
      moreover have "call_ok P w jobs (c\<lparr>cl_pc := q\<rparr>) q = call_ok P w jobs c q" for w jobs q
        by (cases "(P, w, jobs, c, q)" rule: call_ok.cases) (simp_all add: with_row_def queued_answer_def)
      ultimately show ?thesis using inv c_in ok pc(2) by (auto simp: conc_inv_def)
    next
      assume d: "d \<in> set (k_calls k) \<and> cl_id d \<noteq> cl_id c"
      then have "call_ok P (api_db (k_api k)) (a_jobs (k_api k)) d (cl_pc d)" using inv by (simp add: conc_inv_def)
      then have "call_ok P (api_db a') (a_jobs a') d (cl_pc d)"
      proof (rule call_ok_more [OF _ jobs])
        fix r assume "r \<in> set (documents (api_db (k_api k)))" "d_id r = cl_id d"
        then show "\<exists>r' \<in> set (documents (api_db a')). d_id r' = d_id r \<and> d_key r' = d_key r" using kept d by auto
      qed
      then show ?thesis using d inv by (simp add: conc_inv_def)
    qed
  qed
  have rows: "d_id r \<in> F \<or> (\<exists>d \<in> set ?calls. cl_id d = d_id r \<and> owning (cl_pc d))" if r: "r \<in> set (documents (api_db a'))" for r
  proof (cases "d_id r = cl_id c \<or> d_id r \<in> F")
    case True
    then have "d_id r \<in> F \<or> cl_id c' = d_id r \<and> owning (cl_pc c')" using own [OF r] pc by auto
    then show ?thesis using in_new by blast
  next
    case False
    then obtain d where d: "d \<in> set (k_calls k)" "cl_id d = d_id r" "owning (cl_pc d)"
      using inv new [OF r] by (auto simp: conc_inv_def)
    then obtain m where m: "m < length (k_calls k)" "k_calls k ! m = d" by (auto simp: in_set_conv_nth)
    have "m \<noteq> n" using m c d(2) False by auto
    then have "?calls ! m = d" using m by simp
    then have "d \<in> set ?calls" using m(1) by (metis length_list_update nth_mem)
    then show ?thesis using d by blast
  qed
  have handed_jobs: "\<exists>d \<in> set ?calls. j = uuid_str (cl_id d) \<and> handed (cl_pc d)" if j: "j \<in> set (a_jobs a')" for j
  proof (cases "j \<in> set (a_jobs (k_api k))")
    case True
    then obtain d where d: "d \<in> set (k_calls k)" "j = uuid_str (cl_id d)" "handed (cl_pc d)"
      using inv unfolding conc_inv_def by metis
    then obtain m where m: "m < length (k_calls k)" "k_calls k ! m = d" by (auto simp: in_set_conv_nth)
    show ?thesis
    proof (cases "m = n")
      case True
      then have "cl_id c' = cl_id d" "handed (cl_pc c')" using m c d(3) hand pc by auto
      then show ?thesis using in_new d(2) by metis
    next
      case False
      then have "?calls ! m = d" using m by simp
      then have "d \<in> set ?calls" using m(1) by (metis length_list_update nth_mem)
      then show ?thesis using d by blast
    qed
  next
    case False
    then have "j = uuid_str (cl_id c)" "handed pc" using added j by (auto split: if_splits)
    then have "j = uuid_str (cl_id c')" "handed (cl_pc c')" using pc by simp_all
    then show ?thesis using in_new by metis
  qed
  have "cl_id ` set ?calls = cl_id ` set (k_calls k)" using ids by (metis list.set_map)
  then have "cl_id ` set ?calls \<inter> F = {}" using inv by (simp add: conc_inv_def)
  then show ?thesis unfolding conc_inv_def using wf dist calls rows handed_jobs by (simp add: ids)
qed

lemma arrived_inv:
  assumes "conc_inv P F k" and "cl_pc c = Arrived" and "e_pg (sv_env (cl_servicer c)) = P"
    and "cl_id c \<notin> cl_id ` set (k_calls k)" and "cl_id c \<notin> F"
  shows "conc_inv P F (k\<lparr>k_calls := k_calls k @ [c]\<rparr>)"
proof -
  have "call_ok P w jobs c (cl_pc c)" for w jobs using assms(2) by simp
  with assms show ?thesis by (auto simp: conc_inv_def)
qed

text \<open>What the calls need of the other processes: that documents are only added where they do not answer for them.\<close>

lemma environment_inv:
  assumes "conc_inv P F k" and "wf_db (api_db a')" and "a_jobs a' = a_jobs (k_api k)"
    and "map row_key (documents (api_db a')) = map row_key (documents (api_db (k_api k))) @ new" and "fst ` set new \<subseteq> F"
  shows "conc_inv P F (k\<lparr>k_api := a'\<rparr>)"
proof -
  let ?w = "api_db (k_api k)"
  have keys: "row_key ` set (documents (api_db a')) = row_key ` set (documents ?w) \<union> set new"
    using arg_cong [OF assms(4), of set] by simp
  have ok: "call_ok P (api_db a') (a_jobs a') c (cl_pc c)" if "c \<in> set (k_calls k)" for c
  proof (rule call_ok_more)
    show "call_ok P ?w (a_jobs (k_api k)) c (cl_pc c)" using assms(1) that by (simp add: conc_inv_def)
    show "\<exists>r' \<in> set (documents (api_db a')). d_id r' = d_id r \<and> d_key r' = d_key r" if "r \<in> set (documents ?w)" for r
    proof -
      have "row_key r \<in> row_key ` set (documents (api_db a'))" using that keys by blast
      then show ?thesis unfolding row_key_def image_iff prod.inject by metis
    qed
  qed (simp add: assms(3))
  have rows: "d_id r \<in> F \<or> (\<exists>c \<in> set (k_calls k). cl_id c = d_id r \<and> owning (cl_pc c))" if "r \<in> set (documents (api_db a'))" for r
  proof -
    have "row_key r \<in> row_key ` set (documents ?w) \<union> set new" using that keys by blast
    then show ?thesis
    proof
      assume "row_key r \<in> row_key ` set (documents ?w)"
      then obtain q where "q \<in> set (documents ?w)" "d_id q = d_id r" by (auto simp: row_key_def)
      then show ?thesis using assms(1) unfolding conc_inv_def by metis
    next
      assume "row_key r \<in> set new"
      then have "fst (row_key r) \<in> F" using assms(5) by blast
      then show ?thesis by (simp add: row_key_def)
    qed
  qed
  show ?thesis using assms(1) unfolding conc_inv_def using assms(2,3) ok rows by simp
qed

lemma turned_inv:
  assumes inv: "conc_inv P F k"
  shows "conc_inv P F (turn f n k)"
proof (cases "n < length (k_calls k)")
  case False
  then show ?thesis using inv by (simp add: turn_def)
next
  case n: True
  let ?c = "k_calls k ! n" and ?w = "api_db (k_api k)"
  obtain c' a' where t: "call_turn f (?c, k_api k) = (c', a')" by fastforce
  have k': "turn f n k = k\<lparr>k_calls := (k_calls k)[n := c'], k_api := a'\<rparr>" using n t by (simp add: turn_def)
  have wf: "wf_db ?w" and ok: "call_ok P ?w (a_jobs (k_api k)) ?c (cl_pc ?c)" and P: "e_pg (sv_env (cl_servicer ?c)) = P"
    using inv n by (simp_all add: conc_inv_def)
  have own: "owning (cl_pc ?c)" if r: "r \<in> set (documents ?w)" "d_id r = cl_id ?c" for r
  proof -
    have "d_id r \<notin> F"
        using inv imageI [OF nth_mem [OF n], of cl_id] unfolding conc_inv_def r(2) by blast
    then obtain d where d: "d \<in> set (k_calls k)" "cl_id d = d_id r" "owning (cl_pc d)"
      using inv r(1) unfolding conc_inv_def by metis
    moreover have "inj_on cl_id (set (k_calls k))" using inv by (simp add: conc_inv_def distinct_map)
    ultimately have "d = ?c" using n r(2) by (auto dest: inj_onD)
    then show ?thesis using d(3) by simp
  qed
  from t P show ?thesis
  proof (cases rule: call_turn_cases)
    case idle
    then show ?thesis using inv k' by simp
  next
    case (moved pc)
    show ?thesis unfolding k'
      by (rule turn_inv [OF inv n refl, where pc = pc]) (use moved own wf ok in auto)
  next
    case (inserted key pc)
    have row: "d_id (queued_row now key (submission_of cx i rq)) = i" "d_key (queued_row now key (submission_of cx i rq)) = key"
      for now cx i rq by (simp_all add: queued_row_def)
    have "with_row P (api_db a') ?c" using inserted(6,7) by (auto simp: with_row_def row)
    then show ?thesis unfolding k' using inserted
      by (intro turn_inv [OF inv n refl, where pc = pc]) (auto simp: row store_step_wf [OF inserted(8) wf])
  next
    case (queued pc)
    show ?thesis unfolding k'
      by (rule turn_inv [OF inv n refl, where pc = pc]) (use queued wf ok in auto)
  next
    case (rolled_back r)
    show ?thesis unfolding k'
      by (rule turn_inv [OF inv n refl, where pc = "Done (Inl r)"])
        (use rolled_back delete_wf [OF wf, of "cl_id ?c"] in \<open>auto simp: delete_document_def\<close>)
  qed
qed

lemma step_inv:
  assumes "conc_step P k k'" and inv: "conc_inv P {} k"
  shows "conc_inv P {} k'"
  using assms(1)
proof cases
  case (arrived c)
  then show ?thesis using arrived_inv [OF inv] by simp
next
  case (turned f n)
  then show ?thesis using turned_inv [OF inv] by simp
next
  case (others w)
  have wf: "wf_db (api_db (k_api k))" using inv by (simp add: conc_inv_def)
  have "map row_key (documents w) = map row_key (documents (api_db (k_api k)))"
    using store_step_keys [OF others(2)] map_eq_imp_length_eq [OF others(3)] by simp
  then have "conc_inv P {} (k\<lparr>k_api := set_db w (k_api k)\<rparr>)"
    by (intro environment_inv [OF inv, where new = "[]"]) (simp_all add: store_step_wf [OF others(2) wf])
  then show ?thesis by (simp add: others(1))
qed

definition conc_init :: conc where
  "conc_init = \<lparr>k_api = api_init, k_calls = []\<rparr>"

lemma init_inv: "conc_inv P F conc_init"
  by (simp add: conc_inv_def conc_init_def api_db_def db_init_wf) (simp add: db_init_def api_init_def)

lemma reachable_inv: "(conc_step P)\<^sup>*\<^sup>* conc_init k \<Longrightarrow> conc_inv P {} k"
  by (induction rule: rtranclp_induct) (auto intro: init_inv step_inv)

text \<open>The calls that may leave a document without a job: under way, or ended without an answer about it.\<close>

fun unfinished :: "submit_pc \<Rightarrow> bool" where
  "unfinished (Done (Inr m)) = False"
| "unfinished pc = owning pc"

lemma conc_answered:
  assumes "conc_inv P F k" and "c \<in> set (k_calls k)" and "cl_pc c = Done (Inr m)"
  shows "m = queued_answer c \<and> with_row P (api_db (k_api k)) c \<and> uuid_str (cl_id c) \<in> set (a_jobs (k_api k))"
  using assms by (fastforce simp: conc_inv_def)

lemma conc_one_key:
  assumes inv: "conc_inv P F k" and cd: "{c, d} \<subseteq> set (k_calls k)" "cl_pc c = Done (Inr m)" "cl_pc d = Done (Inr m')"
    and same: "rq_idempotency_key (cl_request c) = rq_idempotency_key (cl_request d)"
  shows "c = d"
proof -
  have "with_row P (api_db (k_api k)) c" "with_row P (api_db (k_api k)) d" using conc_answered [OF inv] cd by auto
  then obtain r r' where "r \<in> set (documents (api_db (k_api k)))" "d_id r = cl_id c"
      and "r' \<in> set (documents (api_db (k_api k)))" "d_id r' = cl_id d" and "d_key r = d_key r'"
    using same unfolding with_row_def by (metis option.inject)
  moreover have "inj_on d_key (set (documents (api_db (k_api k))))" using inv by (simp add: conc_inv_def wf_db_def distinct_map)
  ultimately have "cl_id c = cl_id d" by (metis inj_onD)
  moreover have "inj_on cl_id (set (k_calls k))" using inv by (simp add: conc_inv_def distinct_map)
  ultimately show ?thesis using cd(1) by (auto dest: inj_onD)
qed

lemma conc_without_job:
  assumes "conc_inv P F k" and "r \<in> set (documents (api_db (k_api k)))" and "uuid_str (d_id r) \<notin> set (a_jobs (k_api k))"
    and "d_id r \<notin> F"
  shows "\<exists>c \<in> set (k_calls k). cl_id c = d_id r \<and> unfinished (cl_pc c)"
proof -
  obtain c where c: "c \<in> set (k_calls k)" "cl_id c = d_id r" "owning (cl_pc c)"
    using assms(1,2,4) unfolding conc_inv_def by metis
  then have "unfinished (cl_pc c) \<or> (\<exists>m. cl_pc c = Done (Inr m))"
    by (cases "cl_pc c" rule: unfinished.cases) auto
  then show ?thesis using c conc_answered [OF assms(1)] assms(3) by metis
qed

text \<open>
  Submissions that overlap statement by statement, with each other and with the other
  processes, keep their promise, also when connections are lost. In every reachable state a call
  that was answered QUEUED has its row, stored under its key, and its job; no key has been given to
  two calls; and a document without a job belongs to a call that is still between inserting and
  handing over, that ended with an exception, or whose rollback was cut off.
\<close>

lemma overlapping_submissions_safe:
  assumes "(conc_step P)\<^sup>*\<^sup>* conc_init k"
  shows "(if c \<in> set (k_calls k) \<and> cl_pc c = Done (Inr m)
      then m = queued_answer c \<and> with_row P (api_db (k_api k)) c \<and> uuid_str (cl_id c) \<in> set (a_jobs (k_api k)) else True)
    \<and> (if {c, d} \<subseteq> set (k_calls k) \<and> cl_pc c = Done (Inr m) \<and> cl_pc d = Done (Inr m')
          \<and> rq_idempotency_key (cl_request c) = rq_idempotency_key (cl_request d) then c = d else True)
    \<and> (if r \<in> set (documents (api_db (k_api k))) \<and> uuid_str (d_id r) \<notin> set (a_jobs (k_api k))
       then \<exists>c \<in> set (k_calls k). cl_id c = d_id r \<and> unfinished (cl_pc c) else True)
    \<and> wf_db (api_db (k_api k))"
proof -
  have inv: "conc_inv P {} k" by (rule reachable_inv [OF assms])
  note answered = conc_answered [OF inv]
  note one = conc_one_key [OF inv]
  show ?thesis using answered one conc_without_job [OF inv] inv by (auto simp: conc_inv_def)
qed

definition demo_call :: "servicer \<Rightarrow> uuid \<Rightarrow> submit_call" where
  "demo_call S i = \<lparr>cl_servicer = S, cl_context = demo_context, cl_now = 100, cl_id = i, cl_request = demo_request, cl_pc = Arrived\<rparr>"

lemma demo_insertable:
  "insertable (e_pg strict_env) (queued_row 100 key (submission_of demo_context i demo_request))"
  by (simp add: strict_env_def demo_pg_def insertable_def queued_row_def submission_of_def
      demo_request_def trace_id_def demo_context_def)

definition demo_answered :: submit_call where
  "demo_answered = (demo_call demo_servicer 7)\<lparr>cl_pc := Done (Inr (queued_answer (demo_call demo_servicer 7)))\<rparr>"

definition demo_api :: api where
  "demo_api = rpc_done demo_context (U ''OK'') ((set_db demo_stored api_init)\<lparr>a_jobs := [uuid_str 7]\<rparr>)"

lemma demo_turns: "(submit_turn ^^ 2) (demo_call demo_servicer 7, api_init) = (demo_answered, demo_api)"
proof -
  let ?c = "demo_call demo_servicer 7"
  have a: "api_db api_init = db_init" by (simp add: api_db_def)
  have "submit_turn (?c, api_init) = (?c\<lparr>cl_pc := Inserted\<rparr>, set_db demo_stored api_init)"
    by (simp add: submit_turn_def demo_call_def demo_valid demo_insert a)
  moreover have "submit_turn (?c\<lparr>cl_pc := Inserted\<rparr>, set_db demo_stored api_init) = (demo_answered, demo_api)"
    by (simp add: submit_turn_def demo_call_def queued_answer_def demo_answered_def demo_api_def)
      (simp add: demo_servicer_def ends_def)
  ultimately show ?thesis by (simp add: numeral_2_eq_2)
qed

definition demo_conc :: conc where
  "demo_conc = turn None 0 (turn None 0 \<lparr>k_api = api_init, k_calls = [demo_call demo_servicer 7]\<rparr>)"

lemma overlapping_submissions_safe_example:
  "uuid_str 7 \<in> set (a_jobs (k_api demo_conc)) \<and> wf_db (api_db (k_api demo_conc))"
proof -
  let ?k = "\<lparr>k_api = api_init, k_calls = [demo_call demo_servicer 7]\<rparr>"
  obtain c a where t: "submit_turn (demo_call demo_servicer 7, api_init) = (c, a)" by fastforce
  then have "submit_turn (c, a) = (demo_answered, demo_api)" using demo_turns by (simp add: numeral_2_eq_2)
  then have k: "k_calls demo_conc = [demo_answered]" by (simp add: demo_conc_def turn_def call_turn_def t)
  have "conc_step (e_pg strict_env) conc_init (conc_init\<lparr>k_calls := k_calls conc_init @ [demo_call demo_servicer 7]\<rparr>)"
    by (rule conc_step.arrived) (simp_all add: demo_call_def conc_init_def)
  then have "conc_step (e_pg strict_env) conc_init ?k" by (simp add: conc_init_def)
  then have "(conc_step (e_pg strict_env))\<^sup>*\<^sup>* conc_init demo_conc"
    unfolding demo_conc_def by (meson conc_step.turned rtranclp.rtrancl_into_rtrancl rtranclp.rtrancl_refl)
  from overlapping_submissions_safe [OF this, of demo_answered "queued_answer (demo_call demo_servicer 7)"] k
  show ?thesis by (simp add: demo_answered_def demo_call_def)
qed

subsection \<open>A rollback that was seen\<close>

definition run_turns :: "nat list \<Rightarrow> conc \<Rightarrow> conc" where
  "run_turns ns k = fold (turn None) ns k"

text \<open>
  Property C22: what a client hears about its key can be wrong. A second submission under a key that
  comes between the insertion and the rollback of the first is answered ALREADY_EXISTS with the
  identifier of the first; then the queue refuses the job, the first call deletes the row and is
  aborted too. Both calls are over, the database and the queue are as before, no document has that
  identifier, and the client was told that its document exists.
\<close>

theorem rollback_race:
  assumes "c = \<lparr>cl_servicer = S, cl_context = cx, cl_now = now, cl_id = i, cl_request = rq, cl_pc = Arrived\<rparr>"
    and "c' = \<lparr>cl_servicer = S, cl_context = cx', cl_now = now', cl_id = i', cl_request = rq', cl_pc = Arrived\<rparr>"
    and "rq_idempotency_key rq' = rq_idempotency_key rq"
    and "validate_submit (e_settings (sv_env S)) (e_schemas (sv_env S)) rq = None"
    and "validate_submit (e_settings (sv_env S)) (e_schemas (sv_env S)) rq' = None"
    and "submit_document (e_pg (sv_env S)) now (submission_of cx i rq) (api_db a) = (w, Inr True)"
    and "\<forall>key. insertable (e_pg (sv_env S)) (queued_row now' key (submission_of cx' i' rq'))"
    and "sv_enqueue S (uuid_str i) = Some e" and "e \<noteq> CancelledError" and "wf_db (api_db a)"
    and "sv_delete S (uuid_str i) = None"
  shows "case run_turns [0, 1, 1, 0, 0] \<lparr>k_api = a, k_calls = [c, c']\<rparr> of k \<Rightarrow>
      map cl_pc (k_calls k) =
        [Done (Inl (Abort RESOURCE_EXHAUSTED (U ''queue unavailable''))),
         Done (Inl (Abort ALREADY_EXISTS (U ''document_id='' @ uuid_str i)))]
      \<and> api_db (k_api k) = api_db a \<and> a_jobs (k_api k) = a_jobs a
      \<and> find_row d_id i (documents (api_db (k_api k))) = None"
proof -
  let ?P = "e_pg (sv_env S)"
  from assms(6) obtain key where key: "pg_uuid ?P (rq_idempotency_key rq) = Some key"
      "i \<notin> d_id ` set (documents (api_db a))" "key \<notin> d_key ` set (documents (api_db a))"
      and w: "w = (api_db a)\<lparr>documents := documents (api_db a) @ [queued_row now key (submission_of cx i rq)]\<rparr>"
    by (cases rule: submit_cases) auto
  let ?row = "queued_row now key (submission_of cx i rq)"
  have row: "d_id ?row = i" "d_key ?row = key" by (simp_all add: queued_row_def)
  have t1: "submit_turn (c, a) = (c\<lparr>cl_pc := Inserted\<rparr>, set_db w a)"
    by (simp add: submit_turn_def assms(1,4,6))
  have refused: "submit_document ?P now' (submission_of cx' i' rq') w = (w, Inr False)"
    using key(1) assms(3,7) by (simp add: submit_document_def Let_def w row)
  have t2: "submit_turn (c', set_db w a) = (c'\<lparr>cl_pc := Refused\<rparr>, set_db w a)"
    by (simp add: submit_turn_def assms(2,5) refused)
  have "find_row d_key key (documents w) = Some ?row"
    using key(3) row(2) by (simp add: w find_row_append find_row_None [THEN iffD2]) (simp add: find_row_def)
  then have found: "get_idempotent_document ?P (rq_idempotency_key rq') w = Inr (Some (row_to_document ?P ?row))"
    using key(1) assms(3) by (simp add: get_idempotent_document_def)
  have t3: "submit_turn (c'\<lparr>cl_pc := Refused\<rparr>, set_db w a) =
      ends (c'\<lparr>cl_pc := Refused\<rparr>) (abort cx' ALREADY_EXISTS (U ''document_id='' @ uuid_str i) (set_db w a))"
    by (simp add: submit_turn_def assms(2) found) (simp add: row_to_document_def row)
  have t4: "submit_turn (c\<lparr>cl_pc := Inserted\<rparr>, b) = (c\<lparr>cl_pc := Enqueue_failed\<rparr>, b)" for b
    using assms(8,9) by (cases e) (simp_all add: submit_turn_def assms(1))
  have t5: "submit_turn (c\<lparr>cl_pc := Enqueue_failed\<rparr>, b) =
      ends (c\<lparr>cl_pc := Enqueue_failed\<rparr>) (abort cx RESOURCE_EXHAUSTED (U ''queue unavailable'') (set_db (delete_document i (api_db b)) b))" for b
    by (simp add: submit_turn_def rollback_def assms(1,11))
  have undone: "delete_document i w = api_db a" unfolding w by (rule delete_appended [OF key(2) row(1)])
  have gone: "find_row d_id i (documents (api_db a)) = None" using key(2) by (simp add: find_row_None)
  show ?thesis
    by (simp add: run_turns_def turn_def call_turn_def t1 t2 t3 t4 t5 ends_def abort_def undone gone)
qed

definition full_servicer :: servicer where
  "full_servicer = demo_servicer\<lparr>sv_enqueue := \<lambda>_. Some (LibraryError (U ''ConnectionError''))\<rparr>"

theorem rollback_race_witness:
  "case run_turns [0, 1, 1, 0, 0] \<lparr>k_api = api_init, k_calls = [demo_call full_servicer 7, demo_call full_servicer 8]\<rparr> of k \<Rightarrow>
     cl_pc (k_calls k ! 1) = Done (Inl (Abort ALREADY_EXISTS (U ''document_id='' @ uuid_str 7)))
     \<and> documents (api_db (k_api k)) = []"
proof -
  have S: "sv_env full_servicer = strict_env" "sv_delete full_servicer (uuid_str 7) = None" "sv_enqueue full_servicer (uuid_str 7) = Some (LibraryError (U ''ConnectionError''))"
    by (simp_all add: full_servicer_def demo_servicer_def)
  have a: "api_db api_init = db_init" by (simp add: api_db_def)
  have "case run_turns [0, 1, 1, 0, 0] \<lparr>k_api = api_init, k_calls = [demo_call full_servicer 7, demo_call full_servicer 8]\<rparr> of k \<Rightarrow>
      map cl_pc (k_calls k) =
        [Done (Inl (Abort RESOURCE_EXHAUSTED (U ''queue unavailable''))),
         Done (Inl (Abort ALREADY_EXISTS (U ''document_id='' @ uuid_str 7)))]
      \<and> api_db (k_api k) = api_db api_init \<and> a_jobs (k_api k) = a_jobs api_init
      \<and> find_row d_id 7 (documents (api_db (k_api k))) = None"
    by (rule rollback_race [OF demo_call_def demo_call_def refl, where w = demo_stored and e = "LibraryError (U ''ConnectionError'')"])
      (simp_all add: S a demo_valid demo_insert demo_insertable db_init_wf)
  then show ?thesis by (auto simp: a db_init_def)
qed

end
