(* ===== verification/Ocr_Ticks.thy ===== *)
theory Ocr_Ticks
  imports Ocr_Rely
begin

text \<open>
  A tick of the publisher taken apart: \<open>poll_once\<close> (\<open>events/publisher.py\<close>) as its statements, the claim,
  and for each event the handing over and the mark, with other publishers, tries and submissions
  in between; and the retention sweep (\<open>worker/settings.py\<close>), which lists first and purges afterwards.
\<close>

subsection \<open>A tick statement by statement\<close>

datatype tick_pc =
    Polling
  | Producing "orow list" nat
  | Handed message orow "orow list" nat
  | Ticked "nat res"

record tick =
  q_interp :: interp
  q_kafka :: kafka
  q_topic :: pystr
  q_worker :: pystr
  q_now :: int
  q_batch :: nat
  q_pc :: tick_pc

definition tick_turn :: "tick \<times> pubstate \<Rightarrow> tick \<times> pubstate" where
  "tick_turn x =
     (let q = fst x; p = snd x
      in case q_pc q of
           Polling \<Rightarrow>
             (case claim_pending_outbox (q_worker q) (q_now q) (q_batch q) (p_db p) of
                (w, rows) \<Rightarrow> (q\<lparr>q_pc := Producing rows 0\<rparr>, p\<lparr>p_db := w\<rparr>))
         | Producing [] published \<Rightarrow> (q\<lparr>q_pc := Ticked (Inr published)\<rparr>, p)
         | Producing (row # rows) published \<Rightarrow>
             (case message_of (q_interp q) (q_topic q) row of
                Inl e \<Rightarrow> (q\<lparr>q_pc := Ticked (Inl e)\<rparr>, p)
              | Inr m \<Rightarrow>
                  (case produce (q_kafka q) m of
                     Some e \<Rightarrow> (q\<lparr>q_pc := Ticked (Inl e)\<rparr>, p)
                   | None \<Rightarrow>
                       (q\<lparr>q_pc := Handed m row rows published\<rparr>, on_delivery (q_kafka q) m (p\<lparr>p_sent := p_sent p @ [m]\<rparr>))))
         | Handed m row rows published \<Rightarrow>
             (q\<lparr>q_pc := Producing rows (published + 1)\<rparr>, p\<lparr>p_db := mark_published (q_now q) (o_id row) (p_db p)\<rparr>)
         | Ticked r \<Rightarrow> x)"

lemma ticked_turn [simp]: "tick_turn (q\<lparr>q_pc := Ticked r\<rparr>, p) = (q\<lparr>q_pc := Ticked r\<rparr>, p)"
  by (simp add: tick_turn_def)

lemma ticked_turns [simp]: "(tick_turn ^^ n) (q\<lparr>q_pc := Ticked r\<rparr>, p) = (q\<lparr>q_pc := Ticked r\<rparr>, p)"
  by (induction n) simp_all

lemma on_delivery_db: "on_delivery K m p\<lparr>p_db := w\<rparr> = on_delivery K m (p\<lparr>p_db := w\<rparr>)"
  by (simp add: on_delivery_def)

lemma producing_turns:
  "(tick_turn ^^ (2 * length rows + 1)) (q\<lparr>q_pc := Producing rows n\<rparr>, p) =
     (case publish_rows (q_interp q) (q_kafka q) (q_topic q) (q_now q) rows n p of (p', r) \<Rightarrow> (q\<lparr>q_pc := Ticked r\<rparr>, p'))"
proof (induction rows arbitrary: n p)
  case Nil
  then show ?case by (simp add: tick_turn_def)
next
  case (Cons row rows)
  have two: "(tick_turn ^^ (2 * length (row # rows) + 1)) x = (tick_turn ^^ (2 * length rows + 1)) (tick_turn (tick_turn x))" for x
    by (simp add: funpow_swap1)
  show ?case
  proof (cases "message_of (q_interp q) (q_topic q) row")
    case (Inl e)
    then have "tick_turn (q\<lparr>q_pc := Producing (row # rows) n\<rparr>, p) = (q\<lparr>q_pc := Ticked (Inl e)\<rparr>, p)"
      by (simp add: tick_turn_def)
    then show ?thesis by (simp only: two ticked_turn ticked_turns) (simp add: Inl)
  next
    case (Inr m)
    show ?thesis
    proof (cases "produce (q_kafka q) m")
      case None
      let ?p = "on_delivery (q_kafka q) m (p\<lparr>p_sent := p_sent p @ [m], p_db := mark_published (q_now q) (o_id row) (p_db p)\<rparr>)"
      have "tick_turn (q\<lparr>q_pc := Producing (row # rows) n\<rparr>, p) =
          (q\<lparr>q_pc := Handed m row rows n\<rparr>, on_delivery (q_kafka q) m (p\<lparr>p_sent := p_sent p @ [m]\<rparr>))"
        by (simp add: tick_turn_def Inr None)
      moreover have "tick_turn \<dots> = (q\<lparr>q_pc := Producing rows (n + 1)\<rparr>, ?p)"
        by (simp add: tick_turn_def on_delivery_db)
      ultimately show ?thesis by (simp only: two Cons.IH) (simp add: Inr None)
    next
      case (Some e)
      then have "tick_turn (q\<lparr>q_pc := Producing (row # rows) n\<rparr>, p) = (q\<lparr>q_pc := Ticked (Inl e)\<rparr>, p)"
        by (simp add: tick_turn_def Inr)
      then show ?thesis by (simp only: two ticked_turn ticked_turns) (simp add: Inr Some)
    qed
  qed
qed

text \<open>
  A tick that nothing interrupts is \<open>poll_once\<close>: two turns per claimed event and two more
  end with its result, its database, its messages and its counters.
\<close>

lemma uninterrupted_tick:
  "(tick_turn ^^ (2 * length (snd (claim_pending_outbox (q_worker q) (q_now q) (q_batch q) (p_db p))) + 2)) (q\<lparr>q_pc := Polling\<rparr>, p) =
     (case poll_once (q_interp q) (q_kafka q) (q_topic q) (q_worker q) (q_now q) (q_batch q) p of
        (p', r) \<Rightarrow> (q\<lparr>q_pc := Ticked r\<rparr>, p'))"
proof -
  obtain w rows where c: "claim_pending_outbox (q_worker q) (q_now q) (q_batch q) (p_db p) = (w, rows)" by fastforce
  have "tick_turn (q\<lparr>q_pc := Polling\<rparr>, p) = (q\<lparr>q_pc := Producing rows 0\<rparr>, p\<lparr>p_db := w\<rparr>)"
    by (simp add: tick_turn_def c)
  moreover have "(tick_turn ^^ (2 * length rows + 2)) x = (tick_turn ^^ (2 * length rows + 1)) (tick_turn x)" for x
    by (simp add: funpow_swap1)
  ultimately show ?thesis by (simp only: c snd_conv producing_turns) (simp add: poll_once_def c)
qed

subsection \<open>Faults\<close>

text \<open>Every exception of a tick leaves it; \<open>run\<close> logs it and goes on with the next tick.\<close>

definition tick_fault :: "fault \<Rightarrow> tick \<times> pubstate \<Rightarrow> tick \<times> pubstate" where
  "tick_fault f x =
     (let applied = snd f; q = fst x; p = snd x; gone = q\<lparr>q_pc := Ticked (Inl (fst f))\<rparr>
      in case q_pc q of
           Ticked r \<Rightarrow> x
         | _ \<Rightarrow> (gone, if applied then snd (tick_turn x) else p))"

definition tick_move :: "fault option \<Rightarrow> tick \<times> pubstate \<Rightarrow> tick \<times> pubstate" where
  "tick_move f x = (case f of None \<Rightarrow> tick_turn x | Some g \<Rightarrow> tick_fault g x)"

definition tick_on :: "fault option \<Rightarrow> tick \<times> shared \<Rightarrow> tick \<times> shared" where
  "tick_on f x =
     (let s = snd x
      in case tick_move f (fst x, \<lparr>p_db = shared_db s, p_sent = h_sent s, p_ok = h_ok s, p_failed = h_failed s\<rparr>) of
           (q, p) \<Rightarrow>
             (q, s\<lparr>h_api := set_db (p_db p) (h_api s), h_sent := p_sent p, h_ok := p_ok p, h_failed := p_failed p\<rparr>))"

text \<open>What a tick knows: the events it holds are in the outbox, and the one it hands over was handed over.\<close>

fun holds :: "shared \<Rightarrow> tick_pc \<Rightarrow> bool" where
  "holds s Polling = True"
| "holds s (Producing rows n) = (event_of ` set rows \<subseteq> event_of ` set (outbox (shared_db s)))"
| "holds s (Handed m row rows n) =
     (event_of ` set (row # rows) \<subseteq> event_of ` set (outbox (shared_db s)) \<and> m \<in> set (h_sent s)
      \<and> mg_value m = o_payload row \<and> mg_key m = uuid_str (o_aggregate_id row))"
| "holds s (Ticked r) = True"

lemma event_same:
  assumes "event_of row \<in> event_of ` set (outbox w)" and "distinct (map o_id (outbox w))"
  shows "same_events [row] w"
proof -
  obtain q where q: "q \<in> set (outbox w)" "event_of q = event_of row" using assms(1) by auto
  have "ev = q" if "ev \<in> set (outbox w)" "o_id ev = o_id row" for ev
    using assms(2) q that unfolding distinct_map event_of_def by (metis inj_onD prod.inject)
  then show ?thesis using q(2) by (auto simp: same_events_def event_of_def)
qed

lemma mark_handed:
  assumes "handed_over w sent" and "event_of row \<in> event_of ` set (outbox w)" and "distinct (map o_id (outbox w))"
    and "m \<in> set sent" and "mg_value m = o_payload row" and "mg_key m = uuid_str (o_aggregate_id row)"
  shows "handed_over (mark_published now (o_id row) w) sent"
proof -
  have "handed_over (mark_published now (o_id row) w) (sent @ [m])"
    using mark_published_handed [OF assms(1) event_same [OF assms(2,3)] assms(5,6)] .
  then show ?thesis using assms(4) by (auto simp: handed_over_def)
qed

definition as_shared :: "shared \<Rightarrow> pubstate \<Rightarrow> shared" where
  "as_shared s p = s\<lparr>h_api := set_db (p_db p) (h_api s), h_sent := p_sent p, h_ok := p_ok p, h_failed := p_failed p\<rparr>"

lemma as_shared_facts [simp]:
  "shared_db (as_shared s p) = p_db p" "h_sent (as_shared s p) = p_sent p" "a_jobs (h_api (as_shared s p)) = a_jobs (h_api s)"
  "h_inline (as_shared s p) = h_inline s"
  by (simp_all add: as_shared_def shared_db_def)

text \<open>What a step of a tick shows for the others: one statement of the repository, or a message.\<close>

definition tick_effect :: "shared \<Rightarrow> pubstate \<Rightarrow> bool" where
  "tick_effect s p \<longleftrightarrow>
     (\<forall>P. store_step P (shared_db s) (p_db p) \<or> p_db p = shared_db s) \<and> documents (p_db p) = documents (shared_db s)
     \<and> set (h_sent s) \<subseteq> set (p_sent p) \<and> handed_over (p_db p) (p_sent p)"

lemma tick_adds_nothing:
  assumes "tick_effect s p" and "shared_inv s"
  shows "shared_inv (as_shared s p) \<and> adds_nothing s (as_shared s p)"
proof -
  have "store_step undefined (shared_db s) (p_db p) \<or> p_db p = shared_db s" using assms(1) by (auto simp: tick_effect_def)
  then have "wf_db (shared_db (as_shared s p)) \<and> adds_nothing s (as_shared s p)"
    using assms by (intro step_adds_nothing [of undefined]) (simp_all add: tick_effect_def shared_inv_def)
  then show ?thesis using assms(1) by (simp add: shared_inv_def tick_effect_def)
qed

definition publishing :: "shared \<Rightarrow> pubstate" where
  "publishing s = \<lparr>p_db = shared_db s, p_sent = h_sent s, p_ok = h_ok s, p_failed = h_failed s\<rparr>"

lemma publishing_facts [simp]: "p_db (publishing s) = shared_db s" "p_sent (publishing s) = h_sent s"
  by (simp_all add: publishing_def)

lemma tick_turn_effect:
  assumes "tick_turn (q, publishing s) = (q', p)" and "shared_inv s" and "holds s (q_pc q)"
  shows "tick_effect s p \<and> holds (as_shared s p) (q_pc q')"
proof (cases "q_pc q")
  case Polling
  obtain w rows where c: "claim_pending_outbox (q_worker q) (q_now q) (q_batch q) (shared_db s) = (w, rows)" by fastforce
  have r: "q' = q\<lparr>q_pc := Producing rows 0\<rparr>" "p = (publishing s)\<lparr>p_db := w\<rparr>"
    using assms(1) Polling c by (simp_all add: tick_turn_def)
  have "handed_over w (h_sent s)"
    using assms(2) by (auto simp: shared_inv_def handed_over_def claim_unfold(1) [OF c] set_update_rows claimed_row_def)
  moreover have "documents w = documents (shared_db s)" by (simp add: claim_unfold(1) [OF c])
  ultimately have "tick_effect s p" using store_step.claimed [OF c] by (simp add: tick_effect_def r)
  moreover have "set rows \<subseteq> set (outbox w)" by (auto simp: claim_unfold(2) [OF c])
  ultimately show ?thesis by (auto simp: r)
next
  case (Producing rows n)
  have none: "tick_effect s (publishing s)" using assms(2) by (simp add: tick_effect_def shared_inv_def)
  show ?thesis
  proof (cases rows)
    case Nil
    then show ?thesis using assms(1) Producing none by (auto simp: tick_turn_def)
  next
    case (Cons row rest_rows)
    show ?thesis
    proof (cases "message_of (q_interp q) (q_topic q) row")
      case (Inl e)
      then show ?thesis using assms(1) Producing Cons none by (auto simp: tick_turn_def)
    next
      case (Inr m)
      show ?thesis
      proof (cases "produce (q_kafka q) m")
        case None
        then have r: "q' = q\<lparr>q_pc := Handed m row rest_rows n\<rparr>"
            "p = on_delivery (q_kafka q) m ((publishing s)\<lparr>p_sent := h_sent s @ [m]\<rparr>)"
          using assms(1) Producing Cons Inr by (simp_all add: tick_turn_def)
        have "handed_over (shared_db s) (h_sent s @ [m])" using assms(2) by (auto simp: shared_inv_def handed_over_def)
        then have "tick_effect s p" by (auto simp: tick_effect_def r)
        then show ?thesis using assms(3) Producing Cons message_of_Inr [OF Inr] by (simp add: r)
      next
        case (Some e)
        then show ?thesis using assms(1) Producing Cons Inr none by (auto simp: tick_turn_def)
      qed
    qed
  qed
next
  case (Handed m row rows n)
  let ?w = "mark_published (q_now q) (o_id row) (shared_db s)"
  have r: "q' = q\<lparr>q_pc := Producing rows (n + 1)\<rparr>" "p = (publishing s)\<lparr>p_db := ?w\<rparr>"
    using assms(1) Handed by (simp_all add: tick_turn_def)
  have step: "store_step P (shared_db s) ?w" for P by (rule store_step.published)
  have "handed_over ?w (h_sent s)"
    by (rule mark_handed [where m = m]) (use assms(2,3) Handed in \<open>simp_all add: shared_inv_def wf_db_def\<close>)
  then have "tick_effect s p" using step by (simp add: tick_effect_def r) (simp add: mark_published_def)
  moreover have "event_of ` set (outbox (shared_db s)) \<subseteq> event_of ` set (outbox ?w)" by (rule store_step_events [OF step])
  moreover have "event_of ` set rows \<subseteq> event_of ` set (outbox (shared_db s))" using assms(3) Handed by simp
  ultimately show ?thesis by (simp add: r)
next
  case (Ticked r)
  then have "q' = q" "p = publishing s" using assms(1) by (simp_all add: tick_turn_def)
  then show ?thesis using assms(2) Ticked by (simp add: tick_effect_def shared_inv_def)
qed

lemma tick_move_effect:
  assumes "tick_move f (q, publishing s) = (q', p)" and "shared_inv s" and "holds s (q_pc q)"
  shows "tick_effect s p \<and> holds (as_shared s p) (q_pc q')"
proof (cases f)
  case None
  then show ?thesis using tick_turn_effect [OF _ assms(2,3)] assms(1) by (simp add: tick_move_def)
next
  case (Some g)
  obtain q1 p1 where t: "tick_turn (q, publishing s) = (q1, p1)" by fastforce
  have none: "tick_effect s (publishing s)" using assms(2) by (simp add: tick_effect_def shared_inv_def)
  show ?thesis using assms(1) none conjunct1 [OF tick_turn_effect [OF t assms(2,3)]]
    by (cases "q_pc q") (auto simp: tick_move_def Some tick_fault_def t Let_def split: if_splits)
qed

lemma holds_stays:
  assumes "holds s pc" and "interferes s s'"
  shows "holds s' pc"
proof -
  have ev: "event_of ` set rows \<subseteq> event_of ` set (outbox (shared_db s'))"
    if "event_of ` set rows \<subseteq> event_of ` set (outbox (shared_db s))" for rows
    using order.trans [OF that] assms(2) by (simp add: interferes_def)
  have sent: "set (h_sent s) \<subseteq> set (h_sent s')" using assms(2) by (simp add: interferes_def)
  show ?thesis
  proof (cases pc)
    case (Producing rows n)
    then show ?thesis using assms(1) ev [of rows] by (simp only: holds.simps)
  next
    case (Handed m row rows n)
    then show ?thesis using assms(1) ev [of "row # rows"] sent by (simp only: holds.simps) blast
  qed simp_all
qed

interpretation ticks: interference shared_inv interferes adds_nothing "\<lambda>s q. holds s (q_pc q)" "\<lambda>_ _. True" tick_on
proof
  fix s s' q assume "holds s (q_pc q)" and "interferes s s'"
  then show "holds s' (q_pc q)" by (rule holds_stays)
next
  fix f q s q' s' assume m: "tick_on f (q, s) = (q', s')" and inv: "shared_inv s" and ok: "holds s (q_pc q)"
  obtain p where t: "tick_move f (q, publishing s) = (q', p)" and s': "s' = as_shared s p"
    using m by (auto simp: tick_on_def publishing_def as_shared_def Let_def split: prod.splits)
  from tick_move_effect [OF t inv ok] have "tick_effect s p" and "holds s' (q_pc q')" by (simp_all add: s')
  then show "shared_inv s' \<and> adds_nothing s s' \<and> holds s' (q_pc q')" using tick_adds_nothing inv by (simp add: s')
qed (rule adds_nothing_interferes)

subsection \<open>The retention sweep\<close>

text \<open>\<open>cleanup_expired_results\<close> as its two statements.\<close>

datatype sweep_pc = Listing | Purging "uuid list" | Swept "unit res"

record sweep =
  v_now :: int
  v_pc :: sweep_pc

definition sweep_turn :: "sweep \<times> db \<Rightarrow> sweep \<times> db" where
  "sweep_turn x =
     (let v = fst x; w = snd x
      in case v_pc v of
           Listing \<Rightarrow>
             (let ids = list_expired_documents (v_now v - retention) w
              in (v\<lparr>v_pc := (if ids \<noteq> [] then Purging ids else Swept (Inr ()))\<rparr>, w))
         | Purging ids \<Rightarrow> (v\<lparr>v_pc := Swept (Inr ())\<rparr>, purge_document_results (v_now v) ids w)
         | Swept r \<Rightarrow> x)"

lemma uninterrupted_sweep:
  "(sweep_turn ^^ 2) (v\<lparr>v_pc := Listing\<rparr>, w) = (v\<lparr>v_pc := Swept (Inr ())\<rparr>, cleanup_expired_results (v_now v) w)"
  by (simp add: numeral_2_eq_2 sweep_turn_def cleanup_expired_results_def Let_def)

definition sweep_move :: "fault option \<Rightarrow> sweep \<times> db \<Rightarrow> sweep \<times> db" where
  "sweep_move f x =
     (case f of
        None \<Rightarrow> sweep_turn x
      | Some (e, applied) \<Rightarrow>
          (case v_pc (fst x) of
             Swept r \<Rightarrow> x
           | _ \<Rightarrow> ((fst x)\<lparr>v_pc := Swept (Inl e)\<rparr>, if applied then snd (sweep_turn x) else snd x)))"

definition sweep_on :: "fault option \<Rightarrow> sweep \<times> shared \<Rightarrow> sweep \<times> shared" where
  "sweep_on f x =
     (case sweep_move f (fst x, shared_db (snd x)) of
        (v, w) \<Rightarrow> (v, (snd x)\<lparr>h_api := set_db w (h_api (snd x))\<rparr>))"

lemma sweep_move_db: "\<exists>now ids. snd (sweep_move f (v, w)) \<in> {w, purge_document_results now ids w}"
  by (cases "v_pc v"; cases f) (auto simp: sweep_move_def sweep_turn_def Let_def split: prod.split)

text \<open>A sweep needs to know nothing: purging is harmless for every other process whatever the list says.\<close>

interpretation sweeps: interference shared_inv interferes adds_nothing "\<lambda>_ _. True" "\<lambda>_ _. True" sweep_on
proof
  fix f v s v' s' assume m: "sweep_on f (v, s) = (v', s')" and inv: "shared_inv s"
  let ?w = "snd (sweep_move f (v, shared_db s))"
  have s': "s' = s\<lparr>h_api := set_db ?w (h_api s)\<rparr>" using m by (auto simp: sweep_on_def split: prod.splits)
  then have db: "shared_db s' = ?w" by (simp add: shared_db_def)
  obtain now ids where w: "?w = shared_db s \<or> ?w = purge_document_results now ids (shared_db s)"
    using sweep_move_db [of f v "shared_db s"] by auto
  then have step: "store_step demo_pg (shared_db s) (shared_db s') \<or> shared_db s' = shared_db s"
    unfolding db using store_step.purged by metis
  have same: "outbox (shared_db s') = outbox (shared_db s)"
      "map d_id (documents (shared_db s')) = map d_id (documents (shared_db s))"
    using w by (auto simp: db purge_document_results_def update_rows_keys)
  have "wf_db (shared_db s') \<and> adds_nothing s s'"
    using inv by (intro step_adds_nothing [OF step same(2)]) (simp_all add: s' shared_inv_def)
  then show "shared_inv s' \<and> adds_nothing s s' \<and> True"
    using inv same(1) by (simp add: shared_inv_def handed_over_def) (simp add: s')
qed (simp_all add: adds_nothing_interferes)

end
