(* ===== verification/Ocr_Tries.thy ===== *)
theory Ocr_Tries
  imports Ocr_Rely
begin

text \<open>
  A try of a job taken apart: \<open>process_document\<close> (\<open>pipeline/pipeline.py\<close>) as its statements on the
  database, with the download and the analysis, which touch no shared state but the temporary
  directory, as one more; any of them may raise, and the worker's other tries, the submissions
  and the publishers run in between.
\<close>

subsection \<open>A try statement by statement\<close>

text \<open>
  Where a try is: before reading the row, before marking it, before the download, before writing the
  result, before writing a failure (with what leaves the job afterwards), or over.
\<close>

datatype try_pc =
    Starting
  | Known document_row
  | Marked document_row
  | Completing document_row document_result pystr
  | Failing document_row pystr pystr "exn option"
  | Ended "unit res"

record job_try =
  t_env :: env
  t_now :: int
  t_stamp1 :: stamp
  t_stamp2 :: stamp
  t_job :: pystr
  t_tmp :: "nat option"
  t_pc :: try_pc

text \<open>Leaving the job from inside its \<open>try\<close>: the \<open>finally\<close> clause removes the temporary file.\<close>

definition leave :: "unit res \<Rightarrow> job_try \<times> world \<Rightarrow> job_try \<times> world" where
  "leave r x =
     (case x of (t, w) \<Rightarrow> (t\<lparr>t_tmp := None, t_pc := Ended r\<rparr>, w\<lparr>w_io := cleanup_temp (t_tmp t) (w_io w)\<rparr>))"

text \<open>What leaves the job after a failure was written: the exception raised again, if any.\<close>

definition leaving :: "exn option \<Rightarrow> unit res" where
  "leaving out = (case out of Some e \<Rightarrow> Inl e | None \<Rightarrow> Inr ())"

text \<open>An exception inside the \<open>try\<close> reaches its handler.\<close>

definition caught :: "document_row \<Rightarrow> exn \<Rightarrow> job_try \<times> world \<Rightarrow> job_try \<times> world" where
  "caught doc e x =
     (case handler e of
        (None, out) \<Rightarrow> leave (leaving out) x
      | (Some (code, message), out) \<Rightarrow> ((fst x)\<lparr>t_pc := Failing doc code message out\<rparr>, snd x))"

definition try_turn :: "job_try \<times> world \<Rightarrow> job_try \<times> world" where
  "try_turn x =
     (let t = fst x; w = snd x; E = t_env t
      in case t_pc t of
           Starting \<Rightarrow>
             (case py_uuid (t_job t) of
                None \<Rightarrow> (t\<lparr>t_pc := Ended (Inl (ValueError (U ''badly formed hexadecimal UUID string'')))\<rparr>, w)
              | Some i \<Rightarrow>
                  (case get_document (e_pg E) i (w_db w) of
                     None \<Rightarrow> (t\<lparr>t_pc := Ended (Inr ())\<rparr>, w)
                   | Some doc \<Rightarrow>
                       (t\<lparr>t_pc := (if processable (dw_status doc) then Known doc else Ended (Inr ()))\<rparr>, w)))
         | Known doc \<Rightarrow> (t\<lparr>t_pc := Marked doc\<rparr>, w\<lparr>w_db := mark_processing (t_now t) (dw_id doc) (w_db w)\<rparr>)
         | Marked doc \<Rightarrow>
             (case fetch E doc (w_io w) of
                (io', tmp, fetched) \<Rightarrow>
                  (let t' = t\<lparr>t_tmp := tmp\<rparr>; w' = w\<lparr>w_io := io'\<rparr>
                   in case rbind fetched (analyse E doc) of
                        Inl e \<Rightarrow> caught doc e (t', w')
                      | Inr (result, status) \<Rightarrow> (t'\<lparr>t_pc := Completing doc result status\<rparr>, w')))
         | Completing doc result status \<Rightarrow>
             (case complete_document E (t_stamp1 t) doc result status (w_db w) of
                (db', Inl e) \<Rightarrow> caught doc e (t, w\<lparr>w_db := db'\<rparr>)
              | (db', Inr _) \<Rightarrow> leave (Inr ()) (t, w\<lparr>w_db := db'\<rparr>))
         | Failing doc code message out \<Rightarrow>
             (case fail_document E (t_stamp2 t) doc code message (w_db w) of
                (db', Inl e) \<Rightarrow> leave (Inl e) (t, w\<lparr>w_db := db'\<rparr>)
              | (db', Inr _) \<Rightarrow> leave (leaving out) (t, w\<lparr>w_db := db'\<rparr>))
         | Ended r \<Rightarrow> x)"

lemma ended_turn [simp]: "t_pc t = Ended r \<Longrightarrow> try_turn (t, w) = (t, w)"
  by (simp add: try_turn_def)

lemma leave_turn [simp]: "try_turn (leave r x) = leave r x"
  by (cases x) (simp add: leave_def)

lemma failing_turn:
  "try_turn (caught doc e (t, w)) =
     (case handle (t_env t) (t_stamp2 t) doc e (w_db w) of (db', r) \<Rightarrow> leave r (t, w\<lparr>w_db := db'\<rparr>))"
proof (cases "handler e")
  case (Pair what out)
  show ?thesis
  proof (cases what)
    case None
    then show ?thesis by (simp add: caught_def handle_def Pair leaving_def)
  next
    case (Some p)
    obtain code message where p: "p = (code, message)" by fastforce
    show ?thesis
      by (cases "fail_document (t_env t) (t_stamp2 t) doc code message (w_db w)")
        (simp add: caught_def handle_def Pair Some p try_turn_def leaving_def leave_def split: sum.split)
  qed
qed

lemma marked_turns:
  assumes "t_pc t = Marked doc"
  shows "try_turn (try_turn (try_turn (t, w))) =
     (case run_stages (t_env t) (t_stamp1 t) (t_stamp2 t) doc w of (w', r) \<Rightarrow> (t\<lparr>t_tmp := None, t_pc := Ended r\<rparr>, w'))"
proof -
  let ?E = "t_env t"
  obtain io' tmp got where f: "fetch ?E doc (w_io w) = (io', tmp, got)" by (metis prod.collapse)
  show ?thesis
  proof (cases "rbind got (analyse ?E doc)")
    case (Inl e)
    have "try_turn (t, w) = caught doc e (t\<lparr>t_tmp := tmp\<rparr>, w\<lparr>w_io := io'\<rparr>)"
      by (simp add: try_turn_def assms f Inl)
    then show ?thesis
      by (simp add: failing_turn run_stages_def f Inl split: prod.split) (simp add: leave_def)
  next
    case (Inr p)
    obtain result status where p: "p = (result, status)" by fastforce
    have a: "try_turn (t, w) = (t\<lparr>t_tmp := tmp, t_pc := Completing doc result status\<rparr>, w\<lparr>w_io := io'\<rparr>)"
      by (simp add: try_turn_def assms f Inr p)
    obtain db' x where c: "complete_document ?E (t_stamp1 t) doc result status (w_db w) = (db', x)" by fastforce
    show ?thesis
    proof (cases x)
      case (Inl e)
      have "try_turn (try_turn (t, w)) = caught doc e (t\<lparr>t_tmp := tmp, t_pc := Completing doc result status\<rparr>, w\<lparr>w_io := io', w_db := db'\<rparr>)"
        unfolding a by (simp add: try_turn_def c Inl)
      then show ?thesis
        by (simp add: failing_turn run_stages_def f Inr p c Inl split: prod.split) (simp add: leave_def)
    next
      case (Inr u)
      have "try_turn (try_turn (t, w)) = leave (Inr ()) (t\<lparr>t_tmp := tmp, t_pc := Completing doc result status\<rparr>, w\<lparr>w_io := io', w_db := db'\<rparr>)"
        unfolding a by (simp add: try_turn_def c Inr)
      then show ?thesis using \<open>rbind got (analyse ?E doc) = Inr p\<close>
        by (simp add: run_stages_def f p c Inr) (simp add: leave_def)
    qed
  qed
qed

lemma try_turns:
  "(try_turn ^^ 5) (t\<lparr>t_tmp := None, t_pc := Starting\<rparr>, w) =
     (case process_document (t_env t) (t_now t) (t_stamp1 t) (t_stamp2 t) (t_job t) w of
        (w', r) \<Rightarrow> (t\<lparr>t_tmp := None, t_pc := Ended r\<rparr>, w'))"
proof -
  let ?t = "t\<lparr>t_tmp := None, t_pc := Starting\<rparr>" and ?E = "t_env t"
  have five: "(try_turn ^^ 5) x = try_turn (try_turn (try_turn (try_turn (try_turn x))))" for x
    by (simp add: numeral_eq_Suc)
  show ?thesis
  proof (cases "py_uuid (t_job t)")
    case None
    then have "try_turn (?t, w) = (?t\<lparr>t_pc := Ended (Inl (ValueError (U ''badly formed hexadecimal UUID string'')))\<rparr>, w)"
      by (simp add: try_turn_def)
    then show ?thesis by (simp add: five process_document_def None)
  next
    case (Some i)
    note id = Some
    show ?thesis
    proof (cases "get_document (e_pg ?E) i (w_db w)")
      case None
      then have "try_turn (?t, w) = (?t\<lparr>t_pc := Ended (Inr ())\<rparr>, w)" by (simp add: try_turn_def id)
      then show ?thesis by (simp add: five process_document_def id None)
    next
      case (Some doc)
      show ?thesis
      proof (cases "processable (dw_status doc)")
        case True
        let ?w = "w\<lparr>w_db := mark_processing (t_now t) (dw_id doc) (w_db w)\<rparr>"
        have "try_turn (try_turn (?t, w)) = (?t\<lparr>t_pc := Marked doc\<rparr>, ?w)"
          by (simp add: try_turn_def id Some True)
        then show ?thesis
          by (simp add: five marked_turns process_document_def id Some True split: prod.split)
      next
        case False
        then have "try_turn (?t, w) = (?t\<lparr>t_pc := Ended (Inr ())\<rparr>, w)" by (simp add: try_turn_def id Some)
        then show ?thesis by (simp add: five process_document_def id Some False)
      qed
    qed
  qed
qed

subsection \<open>Faults\<close>

text \<open>
  A statement that raises. The reading and the mark are outside the \<open>try\<close>, so their exceptions
  leave the job; one of the stages or of the result's transaction reaches the handlers, one of the
  failure's transaction leaves through the \<open>finally\<close> clause.
\<close>

definition try_fault :: "fault \<Rightarrow> job_try \<times> world \<Rightarrow> job_try \<times> world" where
  "try_fault f x =
     (let e = fst f; applied = snd f; t = fst x; w = snd x; E = t_env t
      in case t_pc t of
           Starting \<Rightarrow> if py_uuid (t_job t) = None then try_turn x else (t\<lparr>t_pc := Ended (Inl e)\<rparr>, w)
         | Known doc \<Rightarrow>
             (t\<lparr>t_pc := Ended (Inl e)\<rparr>, if applied then w\<lparr>w_db := mark_processing (t_now t) (dw_id doc) (w_db w)\<rparr> else w)
         | Marked doc \<Rightarrow> caught doc e x
         | Completing doc result status \<Rightarrow>
             caught doc e (t, if applied then w\<lparr>w_db := fst (complete_document E (t_stamp1 t) doc result status (w_db w))\<rparr> else w)
         | Failing doc code message out \<Rightarrow>
             leave (Inl e) (t, if applied then w\<lparr>w_db := fst (fail_document E (t_stamp2 t) doc code message (w_db w))\<rparr> else w)
         | Ended r \<Rightarrow> x)"

definition try_move :: "fault option \<Rightarrow> job_try \<times> world \<Rightarrow> job_try \<times> world" where
  "try_move f x = (case f of None \<Rightarrow> try_turn x | Some g \<Rightarrow> try_fault g x)"

definition try_on :: "fault option \<Rightarrow> job_try \<times> shared \<Rightarrow> job_try \<times> shared" where
  "try_on f x =
     (case try_move f (fst x, a_world (h_api (snd x))) of
        (t, w) \<Rightarrow> (t, (snd x)\<lparr>h_api := (h_api (snd x))\<lparr>a_world := w\<rparr>\<rparr>))"

text \<open>What a try knows.\<close>

fun knows :: "uuid option \<Rightarrow> try_pc \<Rightarrow> bool" where
  "knows i Starting = True"
| "knows i (Known doc) = (i = Some (dw_id doc))"
| "knows i (Marked doc) = (i = Some (dw_id doc))"
| "knows i (Completing doc result status) = (i = Some (dw_id doc) \<and> status \<in> set terminal_statuses)"
| "knows i (Failing doc code message out) = (i = Some (dw_id doc))"
| "knows i (Ended r) = True"

definition closed :: "uuid option \<Rightarrow> db \<Rightarrow> bool" where
  "closed i w \<longleftrightarrow> (\<forall>r \<in> set (documents w). Some (d_id r) = i \<longrightarrow> \<not> open_row r)"

definition try_ok :: "pg \<Rightarrow> shared \<Rightarrow> job_try \<Rightarrow> bool" where
  "try_ok P s t \<longleftrightarrow>
     e_pg (t_env t) = P \<and> t_job t \<in> claimed s \<and> knows (py_uuid (t_job t)) (t_pc t)
     \<and> (\<exists>i. t_job t = uuid_str i) \<and> (t_pc t = Ended (Inr ()) \<longrightarrow> closed (py_uuid (t_job t)) (shared_db s))"

text \<open>What the statements of a try do to the database.\<close>

definition try_effect :: "pg \<Rightarrow> db \<Rightarrow> db \<Rightarrow> bool" where
  "try_effect P w w' \<longleftrightarrow>
     (store_step P w w' \<or> w' = w) \<and> map d_id (documents w') = map d_id (documents w)
     \<and> (\<exists>new. outbox w' = outbox w @ new \<and> (\<forall>ev \<in> set new. o_published_at ev = None))"

lemma same_effect: "try_effect P w w"
  by (simp add: try_effect_def)

lemma mark_effect: "try_effect P w (mark_processing now i w)"
  using store_step.processing by (auto simp: try_effect_def mark_processing_def update_rows_keys)

lemma finish_effect:
  assumes "finish_document P now eid i f payload topic trace w = (w', r)" and "f_status f \<in> set terminal_statuses"
  shows "try_effect P w w' \<and> (r = Inr () \<longrightarrow> closed (Some i) w')"
  using assms(1)
proof (cases rule: finish_cases)
  case committed
  have "store_step P w w'" using assms by (rule store_step.finished [rotated])
  moreover have "map d_id (documents w') = map d_id (documents w)"
    by (simp add: committed(6) update_rows_keys finished_row_def)
  moreover have "\<exists>new. outbox w' = outbox w @ new \<and> (\<forall>ev \<in> set new. o_published_at ev = None)"
    by (rule exI [of _ "[event_row now eid i topic payload trace]"]) (simp add: committed(6) event_row_def)
  moreover have "closed (Some i) w'"
    unfolding closed_def
  proof (intro ballI impI)
    fix r assume "r \<in> set (documents w')" and i: "Some (d_id r) = Some i"
    then have "r \<in> (\<lambda>q. if d_id q = i then finished_row now f q else q) ` set (documents w)"
      by (simp add: committed(6) set_update_rows)
    then obtain q where "r = (if d_id q = i then finished_row now f q else q)" by (rule imageE)
    moreover have "d_id (finished_row now f q) = d_id q" "d_status (finished_row now f q) = f_status f"
      by (simp_all add: finished_row_def)
    ultimately show "\<not> open_row r" using assms(2) i by (auto simp: open_row_def split: if_splits)
  qed
  ultimately show ?thesis by (simp add: try_effect_def)
qed (simp add: same_effect)

lemma complete_effect:
  assumes "complete_document E s doc result status w = (w', r)" and "status \<in> set terminal_statuses"
  shows "try_effect (e_pg E) w w' \<and> (r = Inr () \<longrightarrow> closed (Some (dw_id doc)) w')"
  using finish_effect [OF assms(1) [unfolded complete_document_def]] assms(2) by simp

lemma fail_effect:
  assumes "fail_document E s doc code message w = (w', r)"
  shows "try_effect (e_pg E) w w' \<and> (r = Inr () \<longrightarrow> closed (Some (dw_id doc)) w')"
  using finish_effect [OF assms [unfolded fail_document_def]] by (simp add: terminal_statuses_def)

lemma handler_raises: "handler e = (None, out) \<Longrightarrow> \<exists>e'. out = Some e'"
  by (auto simp: handler_def split: exn.splits)

subsection \<open>What a turn of a try owes the others\<close>

definition moves :: "pg \<Rightarrow> job_try \<times> world \<Rightarrow> job_try \<times> world \<Rightarrow> bool" where
  "moves P x y \<longleftrightarrow>
     t_env (fst y) = t_env (fst x) \<and> t_job (fst y) = t_job (fst x) \<and> try_effect P (w_db (snd x)) (w_db (snd y))
     \<and> knows (py_uuid (t_job (fst x))) (t_pc (fst y))
     \<and> (t_pc (fst y) = Ended (Inr ()) \<longrightarrow>
          t_pc (fst x) = Ended (Inr ()) \<and> snd y = snd x \<or> closed (py_uuid (t_job (fst x))) (w_db (snd y)))"

lemma leave_facts [simp]:
  "t_env (fst (leave r x)) = t_env (fst x)" "t_job (fst (leave r x)) = t_job (fst x)"
  "t_pc (fst (leave r x)) = Ended r" "w_db (snd (leave r x)) = w_db (snd x)"
  by (simp_all add: leave_def split: prod.split)

lemma caught_moves:
  assumes "try_effect P (w_db w) (w_db w')" and "py_uuid (t_job t) = Some (dw_id doc)"
    and "t_env t' = t_env t" and "t_job t' = t_job t"
  shows "moves P (t, w) (caught doc e (t', w'))"
  using assms handler_raises [of e] by (auto simp: moves_def caught_def leaving_def split: option.splits prod.splits)

lemma leave_moves:
  assumes "try_effect P (w_db w) (w_db w')" and "t_env t' = t_env t" and "t_job t' = t_job t"
    and "r = Inr () \<Longrightarrow> closed (py_uuid (t_job t)) (w_db w')"
  shows "moves P (t, w) (leave r (t', w'))"
  using assms by (auto simp: moves_def)

lemma not_processable_closed:
  assumes "get_document P i w = Some doc" and "\<not> processable (dw_status doc)" and "wf_db w"
  shows "closed (Some i) w"
  unfolding closed_def
proof (intro ballI impI)
  fix r assume r: "r \<in> set (documents w)" "Some (d_id r) = Some i"
  obtain d where d: "find_row d_id i (documents w) = Some d" "doc = row_to_document P d"
    using assms(1) by (auto simp: get_document_def)
  have "find_row d_id (d_id r) (documents w) = Some r"
    using find_row_in [of d_id "documents w" r] assms(3) r(1) by (simp add: wf_db_def)
  then have "r = d" using d(1) r(2) by simp
  then have "\<not> processable (d_status r)" using assms(2) d(2) by (simp add: row_to_document_def)
  then show "\<not> open_row r" using r(1) assms(3)
    by (auto simp: open_row_def processable_def wf_db_def list_all_iff row_ok_def statuses_def terminal_statuses_def)
qed

lemma try_move_moves:
  assumes "wf_db (w_db w)" and "knows (py_uuid (t_job t)) (t_pc t)" and "e_pg (t_env t) = P"
  shows "moves P (t, w) (try_move f (t, w))"
proof (cases "t_pc t")
  case Starting
  have "closed (Some i) (w_db w)" if "get_document P i (w_db w) = None" for i
    using that by (auto simp: get_document_def closed_def find_row_None)
  moreover have "dw_id doc = i" if "get_document P i (w_db w) = Some doc" for i doc
    using that by (auto simp: get_document_def row_to_document_def dest: find_row_Some)
  ultimately show ?thesis using Starting assms not_processable_closed [of P _ "w_db w"]
    by (auto simp: try_move_def try_fault_def try_turn_def moves_def same_effect split: option.split)
next
  case (Known doc)
  then show ?thesis using assms
    by (auto simp: try_move_def try_fault_def try_turn_def moves_def same_effect mark_effect split: option.split)
next
  case (Marked doc)
  have id: "py_uuid (t_job t) = Some (dw_id doc)" using assms(2) Marked by simp
  show ?thesis
  proof (cases f)
    case (Some g)
    then show ?thesis using Marked id by (simp add: try_move_def try_fault_def caught_moves same_effect)
  next
    case None
    obtain io' tmp got where g: "fetch (t_env t) doc (w_io w) = (io', tmp, got)" by (metis prod.collapse)
    show ?thesis
    proof (cases "rbind got (analyse (t_env t) doc)")
      case (Inl e)
      then show ?thesis using Marked id None
        by (simp add: try_move_def try_turn_def g) (simp add: caught_moves same_effect)
    next
      case (Inr p)
      obtain result status where p: "p = (result, status)" by fastforce
      obtain content where "analyse (t_env t) doc content = Inr (result, status)" using Inr p by (cases got) auto
      then have "status \<in> set terminal_statuses" using analyse_Inr build_result_terminal by metis
      then show ?thesis using Marked id None Inr p
        by (simp add: try_move_def try_turn_def g) (simp add: moves_def same_effect)
    qed
  qed
next
  case (Completing doc result status)
  have id: "py_uuid (t_job t) = Some (dw_id doc)" and st: "status \<in> set terminal_statuses" using assms(2) Completing by simp_all
  obtain db' r where c: "complete_document (t_env t) (t_stamp1 t) doc result status (w_db w) = (db', r)" by fastforce
  have eff: "try_effect P (w_db w) db'" "r = Inr () \<Longrightarrow> closed (Some (dw_id doc)) db'"
    using complete_effect [OF c st] assms(3) by simp_all
  show ?thesis
  proof (cases f)
    case (Some g)
    then show ?thesis using Completing id eff(1) by (simp add: try_move_def try_fault_def c caught_moves same_effect)
  next
    case None
    then show ?thesis using Completing id eff
      by (cases r) (simp_all add: try_move_def try_turn_def c caught_moves leave_moves)
  qed
next
  case (Failing doc code message out)
  have id: "py_uuid (t_job t) = Some (dw_id doc)" using assms(2) Failing by simp
  obtain db' r where c: "fail_document (t_env t) (t_stamp2 t) doc code message (w_db w) = (db', r)" by fastforce
  have eff: "try_effect P (w_db w) db'" "r = Inr () \<Longrightarrow> closed (Some (dw_id doc)) db'"
    using fail_effect [OF c] assms(3) by simp_all
  show ?thesis
  proof (cases f)
    case (Some g)
    then show ?thesis using Failing id eff(1)
      by (auto simp: try_move_def try_fault_def c same_effect intro!: leave_moves)
  next
    case None
    then show ?thesis using Failing id eff
      by (cases r) (auto simp: try_move_def try_turn_def c intro!: leave_moves)
  qed
next
  case (Ended r)
  then show ?thesis using assms by (simp add: try_move_def try_fault_def try_turn_def moves_def same_effect split: option.split)
qed

lemma effect_handed: "try_effect P w w' \<Longrightarrow> handed_over w sent \<Longrightarrow> handed_over w' sent"
  by (auto simp: try_effect_def handed_over_def)

lemma closed_stays:
  assumes "closed (py_uuid (uuid_str i)) w" and "stays_closed jobs w w'" and "uuid_str i \<in> jobs"
  shows "closed (py_uuid (uuid_str i)) w'"
  using assms unfolding closed_def stays_closed_def py_uuid_str by (metis option.inject)

text \<open>
  The tries are a family of processes: a try that ended normally has left no open row of its document,
  and nothing the others do opens one again.
\<close>

interpretation tries: interference shared_inv interferes adds_nothing "try_ok P" "\<lambda>_ _. True" try_on for P
proof
  fix s s' t assume ok: "try_ok P s t" and "shared_inv s" and "shared_inv s'" and i: "interferes s s'"
  obtain i where j: "t_job t = uuid_str i" using ok by (auto simp: try_ok_def)
  have c: "t_job t \<in> claimed s" using ok by (simp add: try_ok_def)
  have "stays_closed (claimed s) (shared_db s) (shared_db s')" using i by (simp add: interferes_def)
  then have "closed (py_uuid (t_job t)) (shared_db s) \<Longrightarrow> closed (py_uuid (t_job t)) (shared_db s')"
    using closed_stays c unfolding j by metis
  then show "try_ok P s' t" using ok subsetD [OF interferes_claimed [OF i] c] by (simp add: try_ok_def)
next
  fix f t s t' s' assume m: "try_on f (t, s) = (t', s')" and inv: "shared_inv s" and ok: "try_ok P s t"
  let ?x = "(t, a_world (h_api s))" and ?y = "try_move f (t, a_world (h_api s))"
  have t': "t' = fst ?y" and s': "s' = s\<lparr>h_api := (h_api s)\<lparr>a_world := snd ?y\<rparr>\<rparr>"
    using m by (auto simp: try_on_def split: prod.splits)
  have db: "w_db (a_world (h_api s)) = shared_db s" "w_db (snd ?y) = shared_db s'"
    by (simp_all add: shared_db_def api_db_def s')
  have "moves P ?x ?y"
    using try_move_moves [of "a_world (h_api s)" t P f] inv ok by (simp add: db shared_inv_def try_ok_def)
  then have same: "t_env t' = t_env t" "t_job t' = t_job t" and eff: "try_effect P (shared_db s) (shared_db s')"
    and k: "knows (py_uuid (t_job t)) (t_pc t')"
    and c: "t_pc t' = Ended (Inr ()) \<Longrightarrow>
      t_pc t = Ended (Inr ()) \<and> snd ?y = a_world (h_api s) \<or> closed (py_uuid (t_job t)) (shared_db s')"
    by (auto simp: moves_def db t')
  have jobs: "a_jobs (h_api s') = a_jobs (h_api s)" "h_sent s' = h_sent s" "h_inline s' = h_inline s"
    by (simp_all add: s')
  then have cl: "claimed s' = claimed s" by (simp add: claimed_def)
  have "wf_db (shared_db s') \<and> adds_nothing s s'"
    using step_adds_nothing [of P s s'] eff inv jobs by (auto simp: try_effect_def shared_inv_def)
  moreover have "handed_over (shared_db s') (h_sent s')" using effect_handed [OF eff] inv jobs by (simp add: shared_inv_def)
  moreover have "closed (py_uuid (t_job t)) (shared_db s')" if e: "t_pc t' = Ended (Inr ())"
    using c [OF e] ok db by (metis try_ok_def)
  ultimately show "shared_inv s' \<and> adds_nothing s s' \<and> try_ok P s' t'"
    using ok same k cl by (simp add: shared_inv_def try_ok_def)
qed (rule adds_nothing_interferes)

text \<open>
  A commit whose acknowledgement is lost: the result was stored and announced, the exception of the
  connection reaches the handlers, and the failure they write goes over it. The document ends \<open>failed\<close> after two
  events, the first with its result.
\<close>

lemma lost_acknowledgement:
  assumes "t_pc t = Completing doc result status" and "handler e = (Some (code, message), out)"
    and "complete_document (t_env t) (t_stamp1 t) doc result status (w_db w) = (w1, Inr ())"
    and "fail_document (t_env t) (t_stamp2 t) doc code message w1 = (w2, Inr ())"
    and "find_row d_id (dw_id doc) (documents (w_db w)) \<noteq> None"
  shows "case try_turn (try_fault (e, True) (t, w)) of
     (t', w') \<Rightarrow> t_pc t' = Ended (leaving out)
       \<and> (\<exists>d'. find_row d_id (dw_id doc) (documents (w_db w')) = Some d' \<and> d_status d' = U ''failed'' \<and> d_result d' = None)
       \<and> (\<exists>ev1 ev2. outbox (w_db w') = outbox (w_db w) @ [ev1, ev2]
             \<and> o_aggregate_id ev1 = dw_id doc \<and> o_aggregate_id ev2 = dw_id doc
             \<and> o_payload ev1 = build_envelope (t_stamp1 t) doc status (Some (to_dict result)) None
             \<and> o_payload ev2 = build_envelope (t_stamp2 t) doc (U ''failed'') None (Some (error_dict code message)))"
proof -
  have 1: "settled_as (dw_id doc) (done_outcome result status) (build_envelope (t_stamp1 t) doc status (Some (to_dict result)) None) (w_db w) w1"
    using complete_settles [OF assms(3)] by auto
  have 2: "settled_as (dw_id doc) (failed_outcome code message)
      (build_envelope (t_stamp2 t) doc (U ''failed'') None (Some (error_dict code message))) w1 w2"
    using fail_settles [OF assms(4)] by auto
  have "find_row d_id (dw_id doc) (documents w1) \<noteq> None" using settled_row [OF 1 assms(5)] by auto
  from settled_row [OF 2 this] obtain d' where "find_row d_id (dw_id doc) (documents w2) = Some d'"
      "d_status d' = U ''failed''" "d_result d' = None" by (auto simp: failed_outcome_def)
  moreover have "try_turn (try_fault (e, True) (t, w)) = leave (leaving out) (t\<lparr>t_pc := Failing doc code message out\<rparr>, w\<lparr>w_db := w2\<rparr>)"
    by (simp add: try_fault_def assms(1,3) caught_def assms(2)) (simp add: try_turn_def assms(4))
  moreover obtain ev1 ev2 where "outbox w1 = outbox (w_db w) @ [ev1]" "outbox w2 = outbox w1 @ [ev2]"
      and "o_aggregate_id ev1 = dw_id doc" "o_payload ev1 = build_envelope (t_stamp1 t) doc status (Some (to_dict result)) None"
      and "o_aggregate_id ev2 = dw_id doc" "o_payload ev2 = build_envelope (t_stamp2 t) doc (U ''failed'') None (Some (error_dict code message))"
    using 1 2 by (auto simp: settled_as_def)
  ultimately show ?thesis by (simp add: leave_def)
qed

subsection \<open>Two tries at the same time\<close>

text \<open>
  Property C26: a document can be settled and announced twice. When two tries of a job overlap, each
  read the row before either of them settled it; the update of \<open>finish_document\<close> has no condition on the
  status. If the outcome of each alone would be accepted, then after the first has been
  committed the second is accepted as well: the row then has the outcome of the second, written over that
  of the first, and there are two events for the one document, with the two payloads.
\<close>

theorem late_settlement_accepted:
  assumes "finish_document P now eid i f payload topic trace w = (w1, Inr ())"
    and "finish_document P now' eid' i f' payload' topic' trace' w = (w1', Inr ())" and "eid' \<noteq> eid"
    and "find_row d_id i (documents w) = Some d"
  shows "case finish_document P now' eid' i f' payload' topic' trace' w1 of
      (w2, r) \<Rightarrow> r = Inr ()
        \<and> find_row d_id i (documents w2) = Some (finished_row now' f' (finished_row now f d))
        \<and> (\<exists>ev ev'. outbox w2 = outbox w @ [ev, ev'] \<and> o_aggregate_id ev = i \<and> o_aggregate_id ev' = i
             \<and> o_payload ev = payload \<and> o_payload ev' = payload')"
  using assms(1)
proof (cases rule: finish_cases)
  case committed
  obtain w2 r where second: "finish_document P now' eid' i f' payload' topic' trace' w1 = (w2, r)" by fastforce
  have "r = Inr ()"
    using second assms(2,3) committed(6)
    by (auto simp: finish_document_def Let_def event_row_def split: sum.splits if_splits elim!: rbind_InrE)
  from second show ?thesis
  proof (cases rule: finish_cases)
    case second_done: committed
    have row: "find_row d_id i (documents w1) = Some (finished_row now f d)"
      by (rule find_row_finished [OF assms(4)]) (simp add: committed(6))
    have "find_row d_id i (documents w2) = Some (finished_row now' f' (finished_row now f d))"
      by (rule find_row_finished [OF row]) (simp add: second_done(6))
    moreover have "outbox w2 = outbox w @ [event_row now eid i topic payload trace, event_row now' eid' i topic' payload' trace']"
      by (simp add: second_done(6) committed(6))
    ultimately show ?thesis unfolding second prod.case by (simp add: \<open>r = Inr ()\<close> event_row_def)
  qed (simp add: \<open>r = Inr ()\<close>)
qed simp

definition late_stamp :: stamp where
  "late_stamp = demo_stamp\<lparr>st_row_id := 9\<rparr>"

definition late_fail :: "stamp \<Rightarrow> db \<Rightarrow> db \<times> unit res" where
  "late_fail s = finish_document (e_pg lost_env) 500 (st_row_id s) 7 (failed_outcome (U ''INTERNAL'') [])
     (build_envelope s (row_to_document (e_pg lost_env) demo_row) (U ''failed'') None (Some (error_dict (U ''INTERNAL'') [])))
     (U ''t'') None"

theorem late_settlement_accepted_witness:
  "map o_aggregate_id (outbox (fst (late_fail late_stamp (fst (late_fail demo_stamp (w_db demo_world)))))) = [7, 7]"
proof -
  have "snd (late_fail demo_stamp (w_db demo_world)) = Inr ()" "snd (late_fail late_stamp (w_db demo_world)) = Inr ()"
    by code_simp+
  then obtain w1 w1' where a: "late_fail demo_stamp (w_db demo_world) = (w1, Inr ())"
      and b: "late_fail late_stamp (w_db demo_world) = (w1', Inr ())"
    by (metis prod.collapse)
  have "st_row_id late_stamp \<noteq> st_row_id demo_stamp" by (simp add: late_stamp_def demo_stamp_def)
  note ends = late_settlement_accepted [OF a [unfolded late_fail_def] b [unfolded late_fail_def] this demo_found(2), folded late_fail_def]
  obtain w2 r where c: "late_fail late_stamp w1 = (w2, r)" by fastforce
  have "outbox (w_db demo_world) = []" by (simp add: demo_world_def)
  then have "map o_aggregate_id (outbox w2) = [7, 7]" using ends unfolding c by auto
  then show ?thesis by (simp only: a c fst_conv)
qed

end
