(* ===== verification/Ocr_Answers.thy ===== *)
theory Ocr_Answers
  imports Ocr_Servicer
begin

text \<open>
  The answers of the servicer (\<open>_response_for\<close>, \<open>_fill_result\<close>, \<open>GetDocument\<close>): their shape, the
  message of a result field by field, and polling for a submitted document.
\<close>

subsection \<open>The answer\<close>

text \<open>
  The answer for a document has the status of the row under its name in the contract;
  it carries an error exactly when the document failed, with a code that is never empty, and a
  result only when it is completed or in review and has one; never both.
\<close>

lemma response_shape:
  assumes "response_for L PB doc = Inr m"
  shows "rs_document_id m = uuid_str (dw_id doc) \<and> map_of status_map (dw_status doc) = Some (rs_status m)
    \<and> (rs_error m \<noteq> None \<longleftrightarrow> dw_status doc = U ''failed'')
    \<and> (rs_result m \<noteq> None \<longleftrightarrow> dw_status doc \<in> {U ''completed'', U ''needs_review''} \<and> dw_result doc \<noteq> None)
    \<and> (case rs_error m of Some (code, message) \<Rightarrow> code \<noteq> [] \<and> rs_result m = None | None \<Rightarrow> True)"
  using assms
  by (auto simp: response_for_def text_or_def elim!: rbind_InrE split: option.splits if_splits)

text \<open>The message of one field, as the contract has it.\<close>

definition field_message :: "pystr \<Rightarrow> field_schema \<Rightarrow> extracted \<Rightarrow> field_msg" where
  "field_message name fs e =
     \<lparr>fm_name = name,
      fm_status = (if \<not> has_value e then FIELD_STATUS_MISSING
                   else if ef_confidence e < fs_threshold fs then FIELD_STATUS_LOW_CONFIDENCE
                   else FIELD_STATUS_EXTRACTED),
      fm_confidence = (if has_value e then round4 (ef_confidence e) else 0),
      fm_value = (if fs_type fs \<noteq> TMoney \<and> has_value e then (case ef_value e of Some t \<Rightarrow> t | None \<Rightarrow> []) else []),
      fm_amount = (if fs_type fs = TMoney \<and> has_value e then (case ef_amount e of Some n \<Rightarrow> n | None \<Rightarrow> 0) else 0),
      fm_currency = (if fs_type fs = TMoney
                     then (case (if has_value e then ef_currency e else fs_currency fs) of PStr c \<Rightarrow> c | _ \<Rightarrow> []) else []),
      fm_bbox = (case ef_source e of Some l \<Rightarrow> if has_value e then Some (l_x1 l, l_y1 l, l_x2 l, l_y2 l) else None
                 | None \<Rightarrow> None),
      fm_page = (case ef_source e of Some l \<Rightarrow> if has_value e then l_page l else 1 | None \<Rightarrow> 1)\<rparr>"

definition encodable :: "pystr \<Rightarrow> bool" where
  "encodable s \<longleftrightarrow> list_all (\<lambda>c. \<not> (0xD800 \<le> c \<and> c \<le> 0xDFFF)) s"

text \<open>
  The protobuf runtime as documented: a string field takes any text without surrogates, an integer
  field any number of its width.
\<close>

definition documented_protobuf :: "protobuf \<Rightarrow> bool" where
  "documented_protobuf PB \<longleftrightarrow>
     (\<forall>s. encodable s \<longrightarrow> pb_string PB (PStr s) = Inr s)
     \<and> (\<forall>n. - (2 ^ 63) \<le> n \<and> n < 2 ^ 63 \<longrightarrow> pb_int64 PB n = Inr n)
     \<and> (\<forall>n. - (2 ^ 31) \<le> n \<and> n < 2 ^ 31 \<longrightarrow> pb_int32 PB n = Inr n)"

text \<open>What fits the message: text names and currencies, amounts and coordinates within their width.\<close>

definition fits32 :: "int \<Rightarrow> bool" where
  "fits32 n \<longleftrightarrow> - (2 ^ 31) \<le> n \<and> n < 2 ^ 31"

definition fits_message :: "pystr \<Rightarrow> field_schema \<Rightarrow> extracted \<Rightarrow> bool" where
  "fits_message name fs e \<longleftrightarrow>
     fs_name fs = PStr name \<and> encodable name
     \<and> (fs_type fs = TMoney \<longrightarrow> (\<exists>c. (if has_value e then ef_currency e else fs_currency fs) = PStr c \<and> encodable c))
     \<and> (\<forall>t. ef_value e = Some t \<longrightarrow> encodable t)
     \<and> (\<forall>n. ef_amount e = Some n \<longrightarrow> - (2 ^ 63) \<le> n \<and> n < 2 ^ 63)
     \<and> (\<forall>l. ef_source e = Some l \<longrightarrow> fits32 (l_x1 l) \<and> fits32 (l_y1 l) \<and> fits32 (l_x2 l) \<and> fits32 (l_y2 l) \<and> fits32 (l_page l))"

lemma field_status_of_field:
  "field_status_of (PStr (field_status fs e)) = Inr (fm_status (field_message name fs e))"
  by (simp add: field_status_of_def field_status_def field_status_map_def field_message_def)

lemma field_items_lookup:
  "map_of (field_items fs e) (U ''confidence'') = Some (PFloat (if has_value e then round4 (ef_confidence e) else 0))"
  "map_of (field_items fs e) (U ''value'') =
     (if fs_type fs = TMoney then None else Some (if has_value e then opt_str (ef_value e) else PStr []))"
  "map_of (field_items fs e) (U ''amount'') =
     (if fs_type fs = TMoney then Some (if has_value e then opt_int (ef_amount e) else PInt 0) else None)"
  "map_of (field_items fs e) (U ''currency'') =
     (if fs_type fs = TMoney then Some (if has_value e then ef_currency e else fs_currency fs) else None)"
  "map_of (field_items fs e) (U ''bbox'') =
     (case ef_source e of None \<Rightarrow> None
      | Some l \<Rightarrow> if has_value e then Some (PDict [(U ''x1'', PInt (l_x1 l)), (U ''y1'', PInt (l_y1 l)),
                               (U ''x2'', PInt (l_x2 l)), (U ''y2'', PInt (l_y2 l))]) else None)"
  "map_of (field_items fs e) (U ''page'') =
     (case ef_source e of None \<Rightarrow> None | Some l \<Rightarrow> if has_value e then Some (PInt (l_page l)) else None)"
  by (auto simp: field_items_def field_dict_def missing_dict_def extracted_dict_def low_confidence_dict_def
      dict_set_map_of split: option.splits)

lemma fill_bbox_side:
  assumes "documented_protobuf PB" and "fits32 n" and "map_of kvs k = Some (PInt n)"
  shows "rbind (py_get (PDict kvs) k (PInt 0)) (\<lambda>v. rbind (json_int v) (pb_int32 PB)) = Inr n"
  using assms by (simp add: documented_protobuf_def fits32_def)

lemma fill_field_dict:
  assumes "documented_protobuf PB" and "fits_message name fs e"
  shows "fill_field L PB (field_dict fs e) = Inr (field_message name fs e)"
proof -
  note fits = assms(2) [unfolded fits_message_def]
  have str: "pb_string PB (PStr t) = Inr t" if "encodable t" for t
    using assms(1) that by (simp add: documented_protobuf_def)
  have val: "rbind (py_get (field_dict fs e) (U ''value'') PNone) (\<lambda>v.
      if truthy v then pb_string PB (PStr (py_str I v)) else Inr []) = Inr (fm_value (field_message name fs e))" for I
    using fits str by (auto simp: field_dict_items field_items_lookup field_message_def opt_str_def py_str_def split: option.splits)
  have amount: "rbind (py_get (field_dict fs e) (U ''amount'') PNone) (\<lambda>v.
      if v \<noteq> PNone then rbind (json_int v) (pb_int64 PB) else Inr 0) = Inr (fm_amount (field_message name fs e))"
    using fits assms(1)
    by (auto simp: field_dict_items field_items_lookup field_message_def opt_int_def documented_protobuf_def split: option.splits)
  have currency: "rbind (py_get (field_dict fs e) (U ''currency'') PNone) (\<lambda>v.
      if truthy v then pb_string PB v else Inr []) = Inr (fm_currency (field_message name fs e))"
    using fits str by (auto simp: field_dict_items field_items_lookup field_message_def)
  have bbox: "rbind (py_get (field_dict fs e) (U ''bbox'') PNone) (fill_bbox PB) = Inr (fm_bbox (field_message name fs e))"
    using fits assms(1)
    by (auto simp: field_dict_items field_items_lookup field_message_def fill_bbox_def documented_protobuf_def fits32_def
        split: option.splits)
  have page: "rbind (rbind (py_get (field_dict fs e) (U ''page'') (PInt 1)) json_int) (pb_int32 PB)
      = Inr (fm_page (field_message name fs e))"
    using fits assms(1)
    by (auto simp: field_dict_items field_items_lookup field_message_def documented_protobuf_def fits32_def split: option.splits)
  have conf: "rbind (py_get (field_dict fs e) (U ''confidence'') (PFloat 0)) (py_float L)
      = Inr (fm_confidence (field_message name fs e))"
    by (simp add: field_dict_items field_items_lookup field_message_def)
  have status: "rbind (py_get (field_dict fs e) (U ''status'') (PStr (U ''missing''))) field_status_of
      = Inr (fm_status (field_message name fs e))"
    by (simp add: field_dict_items field_items_status field_status_of_field)
  have nm: "rbind (py_get (field_dict fs e) (U ''name'') (PStr [])) (pb_string PB) = Inr (fm_name (field_message name fs e))"
    using fits str by (simp add: field_dict_items field_items_name field_message_def)
  have get: "\<exists>v. py_get (field_dict fs e) k d = Inr v" for k d by (simp add: field_dict_items)
  obtain v where v: "py_get (field_dict fs e) (U ''value'') PNone = Inr v" using get by blast
  obtain am where am: "py_get (field_dict fs e) (U ''amount'') PNone = Inr am" using get by blast
  obtain cu where cu: "py_get (field_dict fs e) (U ''currency'') PNone = Inr cu" using get by blast
  have "(if truthy v then pb_string PB (PStr (py_str (interp.truncate L) v)) else Inr []) = Inr (fm_value (field_message name fs e))"
    using val by (simp add: v)
  moreover have "(if am \<noteq> PNone then rbind (json_int am) (pb_int64 PB) else Inr 0) = Inr (fm_amount (field_message name fs e))"
    using amount by (simp add: am)
  moreover have "(if truthy cu then pb_string PB cu else Inr []) = Inr (fm_currency (field_message name fs e))"
    using currency by (simp add: cu)
  ultimately have "fill_field L PB (field_dict fs e) = Inr
      \<lparr>fm_name = fm_name (field_message name fs e), fm_status = fm_status (field_message name fs e),
       fm_confidence = fm_confidence (field_message name fs e), fm_value = fm_value (field_message name fs e),
       fm_amount = fm_amount (field_message name fs e), fm_currency = fm_currency (field_message name fs e),
       fm_bbox = fm_bbox (field_message name fs e), fm_page = fm_page (field_message name fs e)\<rparr>"
    unfolding fill_field_def nm status conf bbox page v am cu by (simp only: rbind_simps)
  then show ?thesis by (cases "field_message name fs e") simp
qed


lemma encodable_ascii: "list_all (\<lambda>c. c < 128) s \<Longrightarrow> encodable s"
  by (auto simp: encodable_def list_all_iff)

lemma fmt2_ascii: "list_all (\<lambda>c. c < 128) (fmt2 x)"
proof -
  define n where "n = rhe (\<bar>x\<bar> * 100)"
  have "rhe 0 \<le> n" unfolding n_def by (rule rhe_mono) simp
  then have n: "0 \<le> n" using rhe_of_int [of 0] by simp
  have "list_all is_ascii_digit (dec_digits (n div 100))" using n by (intro dec_digits_ascii) simp
  then have "list_all (\<lambda>c. c < 128) (dec_digits (n div 100))"
    by (auto simp: list_all_iff is_ascii_digit_def)
  moreover have "n mod 100 div 10 < 10" by simp
  ultimately show ?thesis by (simp add: fmt2_def Let_def flip: n_def)
qed

lemma fill_issues:
  assumes "documented_protobuf PB" and "fits_message name fs e"
  shows "\<exists>ms. rmap (fill_issue PB) (field_issues fs e) = Inr ms
    \<and> map im_code ms = (if has_value e then (if ef_confidence e < fs_threshold fs then [U ''LOW_CONFIDENCE''] else [])
                     else if fs_required fs then [U ''VALIDATION_FAILED''] else [])
    \<and> list_all (\<lambda>m. im_field m = name) ms"
proof -
  have str: "pb_string PB (PStr t) = Inr t" if "encodable t" for t
    using assms(1) that by (simp add: documented_protobuf_def)
  have n: "fs_name fs = PStr name" "encodable name" using assms(2) by (simp_all add: fits_message_def)
  have "encodable (U ''not found'')" "encodable (U ''VALIDATION_FAILED'')" "encodable (U ''LOW_CONFIDENCE'')"
    by (simp_all add: encodable_def U_def)
  moreover have "encodable (fmt2 x @ U '' < threshold '' @ fmt2 y)" for x y
    using encodable_ascii [OF fmt2_ascii] by (simp add: encodable_def U_def)
  ultimately show ?thesis by (simp add: field_issues_def issue_def fill_issue_def n str)
qed


lemma rmap_map_Inr: "(\<And>x. x \<in> set xs \<Longrightarrow> f (g x) = Inr (h x)) \<Longrightarrow> rmap f (map g xs) = Inr (map h xs)"
  by (induction xs) auto

lemma rmap_append_Inr: "rmap f xs = Inr us \<Longrightarrow> rmap f ys = Inr vs \<Longrightarrow> rmap f (xs @ ys) = Inr (us @ vs)"
  by (induction xs arbitrary: us) (auto elim!: rbind_InrE)

lemma fill_all_issues:
  assumes "documented_protobuf PB" and "list_all (\<lambda>(name, fs, e). fits_message name fs e) ts"
  shows "\<exists>ms. rmap (fill_issue PB) (concat (map (\<lambda>(name, fs, e). field_issues fs e) ts)) = Inr ms"
  using assms(2)
proof (induction ts)
  case Nil
  then show ?case by simp
next
  case (Cons t ts)
  obtain name fs e where t: "t = (name, fs, e)" by (cases t)
  obtain us where "rmap (fill_issue PB) (field_issues fs e) = Inr us"
    using fill_issues [OF assms(1), of name fs e] Cons.prems t by auto
  moreover obtain vs where "rmap (fill_issue PB) (concat (map (\<lambda>(name, fs, e). field_issues fs e) ts)) = Inr vs"
    using Cons by auto
  ultimately show ?case using rmap_append_Inr t by fastforce
qed

text \<open>
  Property C11: the answer shows what was extracted. For every result the validation builds whose
  names, currencies and numbers fit the message, the message is filled without an exception and
  has one field per field of the schema, in order, with the status, the rounded confidence, the
  amount and currency or the text, the position and the page of what was extracted, and the
  rounded mean confidence.
\<close>

theorem result_message_faithful:
  assumes "build_result sch es = Inr (r, st)" and "documented_protobuf PB" and "length names = length es"
    and "list_all (\<lambda>(name, fs, e). fits_message name fs e) (zip names (zip (sc_fields sch) es))"
  shows "\<exists>m. fill_result L PB (to_dict r) = Inr m \<and> rm_schema_version m = U ''1.0''
    \<and> rm_avg_confidence m = round4 (dr_avg_confidence r)
    \<and> rm_fields m = map (\<lambda>(name, fs, e). field_message name fs e) (zip names (zip (sc_fields sch) es))"
proof -
  let ?ts = "zip names (zip (sc_fields sch) es)"
  note b = build_result_Inr [OF assms(1)]
  have snds: "map snd ?ts = zip (sc_fields sch) es" using assms(3) b(1) by simp
  have "dr_fields r = map (\<lambda>(fs, e). field_dict fs e) (map snd ?ts)" by (simp only: b(2) snds)
  also have "\<dots> = map (\<lambda>(name, fs, e). field_dict fs e) ?ts" by (simp add: case_prod_beta comp_def)
  finally have fields: "rmap (fill_field L PB) (dr_fields r) = Inr (map (\<lambda>(name, fs, e). field_message name fs e) ?ts)"
    using assms(4) fill_field_dict [OF assms(2)] by (auto simp: list_all_iff intro!: rmap_map_Inr)
  have "dr_issues r = concat (map (\<lambda>(fs, e). field_issues fs e) (map snd ?ts))" by (simp only: b(3) snds)
  also have "\<dots> = concat (map (\<lambda>(name, fs, e). field_issues fs e) ?ts)"
    unfolding map_map by (intro arg_cong [where f = concat] map_cong) auto
  finally obtain ms where issues: "rmap (fill_issue PB) (dr_issues r) = Inr ms"
    using fill_all_issues [OF assms(2,4)] by auto
  have version: "dr_schema_version r = U ''1.0''" using assms(1) by (auto simp: build_result_def Let_def split: if_splits)
  have "encodable (U ''1.0'')" by (simp add: encodable_def U_def)
  then have "pb_string PB (PStr (U ''1.0'')) = Inr (U ''1.0'')" using assms(2) by (simp add: documented_protobuf_def)
  then have "fill_result L PB (to_dict r) = Inr \<lparr>rm_schema_version = U ''1.0'', rm_avg_confidence = round4 (dr_avg_confidence r),
      rm_fields = map (\<lambda>(name, fs, e). field_message name fs e) ?ts, rm_issues = ms\<rparr>"
    by (simp add: fill_result_def to_dict_def fields issues version)
  then show ?thesis by simp
qed

theorem result_message_faithful_witness:
  "\<exists>r st m. build_result demo_schema demo_extracted = Inr (r, st)
     \<and> fill_result demo_libs demo_protobuf (to_dict r) = Inr m \<and> map fm_name (rm_fields m) = [U ''merchant'', U ''total'']"
proof -
  have "length demo_extracted = length (sc_fields demo_schema)" by (simp add: demo_extracted_def demo_schema_def)
  then obtain r st where b: "build_result demo_schema demo_extracted = Inr (r, st)" using build_result_total by blast
  have p: "documented_protobuf demo_protobuf" by (simp add: documented_protobuf_def demo_protobuf_def)
  have "length [U ''merchant'', U ''total''] = length demo_extracted" by (simp add: demo_extracted_def)
  moreover have "list_all (\<lambda>(name, fs, e). fits_message name fs e)
      (zip [U ''merchant'', U ''total''] (zip (sc_fields demo_schema) demo_extracted))"
    by (simp add: fits_message_def fits32_def encodable_def demo_schema_def demo_extracted_def demo_merchant_def demo_total_def has_value_def demo_lines_def U_def)
  ultimately show ?thesis
    using result_message_faithful [OF b p] b by (fastforce simp: demo_schema_def demo_extracted_def field_message_def)
qed

lemma response_shape_example:
  "\<exists>m. response_for demo_libs demo_protobuf (row_to_document demo_pg demo_row) = Inr m \<and> rs_status m = DOCUMENT_STATUS_QUEUED"
proof -
  obtain m where m: "response_for demo_libs demo_protobuf (row_to_document demo_pg demo_row) = Inr m"
    by (auto simp: response_for_def row_to_document_def demo_row_def queued_row_def status_map_def)
  from response_shape [OF m] m show ?thesis
    by (auto simp: row_to_document_def demo_row_def queued_row_def status_map_def)
qed

subsection \<open>Polling\<close>

text \<open>
  Property C19: the identifier that a submission answers with leads to its document for ever: after
  any later operations of any process, asking for it answers with the document of that
  identifier, never with NOT_FOUND or INVALID_ARGUMENT, and changes nothing but the counters;
  asked at once, the answer is QUEUED, without result and error.
\<close>

theorem poll_finds_submission:
  assumes "SubmitDocument S cx now i rq a = (a1, Inr m)" and "wf_db (api_db a)"
    and "(store_step (e_pg (sv_env S)))\<^sup>*\<^sup>* (api_db a1) (api_db a2)"
  shows "\<exists>d. GetDocument S cx' (sb_document_id m) a2 = answer S cx' d a2 \<and> dw_id d = i
    \<and> a_world (fst (GetDocument S cx' (sb_document_id m) a2)) = a_world a2
    \<and> snd (GetDocument S cx' (sb_document_id m) a1) = Inr \<lparr>rs_document_id = uuid_str i,
         rs_status = DOCUMENT_STATUS_QUEUED, rs_result = None, rs_error = None\<rparr>"
  using assms(1)
proof (cases rule: SubmitDocument_cases)
  case (stored key)
  let ?P = "e_pg (sv_env S)" and ?row = "queued_row now key (submission_of cx i rq)"
  have row: "d_id ?row = i" by (simp add: queued_row_def submission_of_def)
  have d: "documents (api_db a1) = documents (api_db a) @ [?row]" using stored(6) by simp
  have m: "py_uuid (sb_document_id m) = Some i" using stored(7) by (simp add: py_uuid_str)
  have dist: "distinct (map d_id (documents (api_db a1)))" using assms(2) stored(3) by (auto simp: d row wf_db_def)
  have first: "find_row d_id i (documents (api_db a1)) = Some ?row"
    using find_row_in [OF dist, of ?row] by (simp add: d row)
  obtain r where r: "find_row d_id i (documents (api_db a2)) = Some r"
    using docs.opers_found [OF assms(3) dist, of i] first by auto
  have "snd (GetDocument S cx' (sb_document_id m) a1) = Inr \<lparr>rs_document_id = uuid_str i,
      rs_status = DOCUMENT_STATUS_QUEUED, rs_result = None, rs_error = None\<rparr>"
    by (simp add: GetDocument_def m get_document_def first answer_def response_for_def row_to_document_def row)
      (simp add: queued_row_def status_map_def)
  moreover have "d_id r = i" using find_row_Some [OF r] by simp
  ultimately show ?thesis
    by (intro exI [of _ "row_to_document ?P r"])
      (simp add: GetDocument_def m get_document_def r row_to_document_def answer_def)
qed simp_all

theorem poll_finds_submission_witness:
  "snd (GetDocument demo_servicer demo_context (uuid_str 7) (fst (SubmitDocument demo_servicer demo_context 100 7 demo_request api_init)))
     = Inr \<lparr>rs_document_id = uuid_str 7, rs_status = DOCUMENT_STATUS_QUEUED, rs_result = None, rs_error = None\<rparr>"
proof -
  have "wf_db (api_db api_init)" by (simp add: api_db_def db_init_wf)
  from poll_finds_submission [OF demo_SubmitDocument_ok this rtranclp.rtrancl_refl, of demo_context]
  show ?thesis by (auto simp: demo_SubmitDocument_ok)
qed

end
