(* ===== verification/Ocr_Inline.thy ===== *)
theory Ocr_Inline
  imports Ocr_Tries Ocr_Answers
begin

text \<open>
  The synchronous call \<open>ProcessDocument\<close> (\<open>api/servicer.py\<close>) taken apart into its statements, with the
  statements of the pipeline it runs inline, any of which may fail with the loss of its connection.
\<close>

subsection \<open>The call statement by statement\<close>

text \<open>
  Where a call is: before the insertion, with a key that is known, in the pipeline, before reading and
  before marking a cancelled document, before reading the result, or over: turned away or answered by the
  state of a known document, or answered for the document it processed.
\<close>

datatype inline_pc =
    Come
  | Known_key
  | Inside job_try
  | Cancelling
  | Marking document_row
  | Reading
  | Turned_away "failure + document_response"
  | Answered "failure + document_response"

record inline_call =
  n_servicer :: servicer
  n_context :: rpc_context
  n_now :: int
  n_id :: uuid
  n_drawn :: "int \<times> stamp \<times> stamp \<times> stamp"
  n_request :: submit_request
  n_pc :: inline_pc

definition inner_try :: "inline_call \<Rightarrow> job_try" where
  "inner_try c =
     (case n_drawn c of (mark, s1, s2, s3) \<Rightarrow>
        \<lparr>t_env = sv_env (n_servicer c), t_now = mark, t_stamp1 = s1, t_stamp2 = s2, t_job = uuid_str (n_id c),
         t_tmp = None, t_pc = Starting\<rparr>)"

definition turns_away :: "inline_call \<Rightarrow> api \<times> (failure + document_response) \<Rightarrow> inline_call \<times> api" where
  "turns_away c p = (c\<lparr>n_pc := Turned_away (snd p)\<rparr>, fst p)"

definition replies :: "inline_call \<Rightarrow> api \<times> (failure + document_response) \<Rightarrow> inline_call \<times> api" where
  "replies c p = (c\<lparr>n_pc := Answered (snd p)\<rparr>, fst p)"

text \<open>The guards before the insertion.\<close>

definition sync_guard :: "inline_call \<Rightarrow> (grpc_code \<times> pystr) option" where
  "sync_guard c =
     (let S = n_servicer c; E = sv_env S; rq = n_request c; size = src_size_bytes (rq_source rq)
      in case validate_submit (e_settings E) (e_schemas E) rq of
           Some message \<Rightarrow> Some (INVALID_ARGUMENT, message)
         | None \<Rightarrow>
             if size > sync_max_bytes (e_settings E)
             then Some (FAILED_PRECONDITION,
                    U ''size_bytes '' @ int_str size @ U '' exceeds the synchronous cap (''
                      @ int_str (sync_max_bytes (e_settings E)) @ U ''); submit via SubmitDocument instead'')
             else if \<not> sv_pipeline S then Some (UNAVAILABLE, U ''processing not configured'')
             else None)"

text \<open>The transaction of \<open>_mark_cancelled\<close> on the row it read.\<close>

definition finish_cancelled :: "inline_call \<Rightarrow> document_row \<Rightarrow> db \<Rightarrow> db" where
  "finish_cancelled c doc w =
     (let E = sv_env (n_servicer c); s = snd (snd (snd (n_drawn c)))
      in fst (finish_document (e_pg E) (st_now s) (st_row_id s) (n_id c)
           \<lparr>f_status = U ''failed'', f_result = None, f_avg_confidence = None,
            f_error_code = Some (U ''INTERNAL''), f_error_message = Some cancelled_message\<rparr>
           (build_envelope s doc (U ''failed'') None (Some (error_dict (U ''INTERNAL'') cancelled_message)))
           (kafka_topic (e_settings E)) (trace_id (n_context c)) w))"

definition cancelled :: "inline_call \<Rightarrow> api \<Rightarrow> inline_call \<times> api" where
  "cancelled c a = replies c (rpc_done (n_context c) (U ''CANCELLED'') a, Inl (Raised CancelledError))"

definition inline_turn :: "inline_call \<times> api \<Rightarrow> inline_call \<times> api" where
  "inline_turn x =
     (let c = fst x; a = snd x; S = n_servicer c; E = sv_env S; cx = n_context c; rq = n_request c
      in case n_pc c of
           Come \<Rightarrow>
             (case sync_guard c of
                Some (code, message) \<Rightarrow> turns_away c (abort cx code message a)
              | None \<Rightarrow>
                  (case submit_document (e_pg E) (n_now c) (submission_of cx (n_id c) rq) (api_db a) of
                     (w, Inl e) \<Rightarrow> turns_away c (set_db w a, Inl (Raised e))
                   | (w, Inr inserted) \<Rightarrow>
                       (c\<lparr>n_pc := (if inserted then Inside (inner_try c) else Known_key)\<rparr>, set_db w a)))
         | Known_key \<Rightarrow>
             (case get_idempotent_document (e_pg E) (rq_idempotency_key rq) (api_db a) of
                Inl e \<Rightarrow> turns_away c (a, Inl (Raised e))
              | Inr None \<Rightarrow> turns_away c (abort cx INTERNAL (U ''idempotent document vanished'') a)
              | Inr (Some existing) \<Rightarrow> turns_away c (answer S cx existing a))
         | Inside t \<Rightarrow>
             (case t_pc t of
                Ended (Inl CancelledError) \<Rightarrow> (c\<lparr>n_pc := Cancelling\<rparr>, a)
              | Ended (Inl e) \<Rightarrow> replies c (abort cx INTERNAL (U ''processing failed'') a)
              | Ended (Inr _) \<Rightarrow> (c\<lparr>n_pc := Reading\<rparr>, a)
              | _ \<Rightarrow> (case try_turn (t, a_world a) of (t', w) \<Rightarrow> (c\<lparr>n_pc := Inside t'\<rparr>, a\<lparr>a_world := w\<rparr>)))
         | Cancelling \<Rightarrow>
             (case get_document (e_pg E) (n_id c) (api_db a) of
                None \<Rightarrow> cancelled c a
              | Some doc \<Rightarrow> (c\<lparr>n_pc := Marking doc\<rparr>, a))
         | Marking doc \<Rightarrow> cancelled c (set_db (finish_cancelled c doc (api_db a)) a)
         | Reading \<Rightarrow>
             (case get_document (e_pg E) (n_id c) (api_db a) of
                None \<Rightarrow> replies c (abort cx INTERNAL (U ''document vanished after processing'') a)
              | Some doc \<Rightarrow> replies c (answer S cx doc a))
         | _ \<Rightarrow> x)"

text \<open>When a call is over, and when it has a document of its own.\<close>

fun result :: "inline_pc \<Rightarrow> (failure + document_response) option" where
  "result (Turned_away r) = Some r"
| "result (Answered r) = Some r"
| "result pc = None"

fun with_document :: "inline_pc \<Rightarrow> bool" where
  "with_document Come = False"
| "with_document Known_key = False"
| "with_document (Turned_away r) = False"
| "with_document pc = True"

lemma result_turn: "result (n_pc c) = Some r \<Longrightarrow> inline_turn (c, a) = (c, a)"
  by (cases "n_pc c") (simp_all add: inline_turn_def)

lemma result_turns: "result (n_pc (fst x)) \<noteq> None \<Longrightarrow> (inline_turn ^^ n) x = x"
  using result_turn by (induction n) (auto, metis prod.collapse)

lemma over_by:
  assumes "(inline_turn ^^ m) x = y" and "m \<le> n" and "result (n_pc (fst y)) \<noteq> None"
  shows "(inline_turn ^^ n) x = y"
proof -
  have "(inline_turn ^^ n) x = (inline_turn ^^ (n - m)) ((inline_turn ^^ m) x)"
    using assms(2) by (metis comp_apply diff_add funpow_add)
  then show ?thesis using result_turns assms(1,3) by simp
qed

lemma replies_facts [simp]:
  "n_pc (fst (turns_away c p)) = Turned_away (snd p)" "snd (turns_away c p) = fst p"
  "n_pc (fst (replies c p)) = Answered (snd p)" "snd (replies c p) = fst p"
  by (simp_all add: turns_away_def replies_def)

lemma answer_facts [simp]: "api_db (fst (answer S cx d a)) = api_db a" "a_jobs (fst (answer S cx d a)) = a_jobs a"
  by (simp_all add: answer_def)

text \<open>The pipeline inside the call takes the turns of a try.\<close>

lemma inside_turns:
  assumes "n_pc c = Inside t" and "(try_turn ^^ n) (t, a_world a) = (t', w')" and "t_pc t' = Ended r"
  shows "\<exists>m \<le> n. (inline_turn ^^ m) (c, a) = (c\<lparr>n_pc := Inside t'\<rparr>, a\<lparr>a_world := w'\<rparr>)"
  using assms(1,2)
proof (induction n arbitrary: c t a)
  case 0
  then have "c\<lparr>n_pc := Inside t'\<rparr> = c" "a\<lparr>a_world := w'\<rparr> = a" by simp_all
  then show ?case by (intro exI [of _ 0]) simp
next
  case (Suc n)
  show ?case
  proof (cases "\<exists>q. t_pc t = Ended q")
    case True
    then have "(try_turn ^^ k) (t, a_world a) = (t, a_world a)" for k by (induction k) auto
    then have "t' = t" "w' = a_world a" using Suc.prems(2) by (metis Pair_inject)+
    then show ?thesis using Suc.prems(1) by (intro exI [of _ 0]) simp
  next
    case False
    obtain t1 w1 where t1: "try_turn (t, a_world a) = (t1, w1)" by fastforce
    have one: "inline_turn (c, a) = (c\<lparr>n_pc := Inside t1\<rparr>, a\<lparr>a_world := w1\<rparr>)"
      using False Suc.prems(1) t1 by (cases "t_pc t") (auto simp: inline_turn_def)
    have "(try_turn ^^ n) (t1, w1) = (t', w')" using Suc.prems(2) t1 by (simp add: funpow_swap1)
    then obtain m where "m \<le> n" "(inline_turn ^^ m) (c\<lparr>n_pc := Inside t1\<rparr>, a\<lparr>a_world := w1\<rparr>) = (c\<lparr>n_pc := Inside t'\<rparr>, a\<lparr>a_world := w'\<rparr>)"
      using Suc.IH [of "c\<lparr>n_pc := Inside t1\<rparr>" t1 "a\<lparr>a_world := w1\<rparr>"] by auto
    then show ?thesis using one by (intro exI [of _ "Suc m"]) (simp add: funpow_swap1)
  qed
qed

lemma mark_cancelled_turns:
  "mark_cancelled (sv_env (n_servicer c)) (n_context c) (snd (snd (snd (n_drawn c)))) (n_id c) w =
     (case get_document (e_pg (sv_env (n_servicer c))) (n_id c) w of None \<Rightarrow> w | Some doc \<Rightarrow> finish_cancelled c doc w)"
  by (simp add: mark_cancelled_def finish_cancelled_def Let_def split: option.split)

lemma ended_inside:
  assumes "n_pc c = Inside t" and "t_pc t = Ended r"
  shows "inline_turn (c, a) =
     (case r of
        Inr _ \<Rightarrow> (c\<lparr>n_pc := Reading\<rparr>, a)
      | Inl e \<Rightarrow> if e = CancelledError then (c\<lparr>n_pc := Cancelling\<rparr>, a)
                 else replies c (abort (n_context c) INTERNAL (U ''processing failed'') a))"
proof (cases r)
  case (Inl e)
  then show ?thesis using assms by (cases e) (simp_all add: inline_turn_def)
qed (simp add: inline_turn_def assms)

text \<open>From the end of the pipeline to the answer: at most three turns.\<close>

lemma answer_turns:
  assumes "n_pc c = Inside t" and "t_pc t = Ended r"
  shows "(inline_turn ^^ 3) (c, a) =
     (case sync_answer (n_servicer c) (n_context c) (snd (snd (snd (n_drawn c)))) (n_id c) (a_world a, r) a of
        (a', out) \<Rightarrow> (c\<lparr>n_pc := Answered out\<rparr>, a'))"
proof -
  let ?P = "e_pg (sv_env (n_servicer c))"
  have three: "(inline_turn ^^ 3) x = inline_turn (inline_turn (inline_turn x))" for x by (simp add: numeral_3_eq_3)
  have over: "inline_turn (replies d p) = replies d p" for d p by (simp add: replies_def inline_turn_def)
  have same: "a\<lparr>a_world := a_world a\<rparr> = a" by simp
  have db: "w_db (a_world a) = api_db a" by (simp add: api_db_def)
  show ?thesis
  proof (cases r)
    case (Inr u)
    have "inline_turn (c, a) = (c\<lparr>n_pc := Reading\<rparr>, a)" using Inr by (simp add: ended_inside [OF assms])
    moreover have "inline_turn (c\<lparr>n_pc := Reading\<rparr>, a) = (case get_document ?P (n_id c) (api_db a) of
        None \<Rightarrow> replies (c\<lparr>n_pc := Reading\<rparr>) (abort (n_context c) INTERNAL (U ''document vanished after processing'') a)
      | Some doc \<Rightarrow> replies (c\<lparr>n_pc := Reading\<rparr>) (answer (n_servicer c) (n_context c) doc a))"
      by (simp add: inline_turn_def Let_def split: option.split)
    ultimately show ?thesis
      by (cases "get_document ?P (n_id c) (api_db a)")
        (simp_all add: three over sync_answer_def Inr db same, simp_all add: replies_def abort_def split: prod.split)
  next
    case (Inl e)
    show ?thesis
    proof (cases "e = CancelledError")
      case True
      have "inline_turn (c, a) = (c\<lparr>n_pc := Cancelling\<rparr>, a)" using Inl True by (simp add: ended_inside [OF assms])
      moreover have "inline_turn (inline_turn (c\<lparr>n_pc := Cancelling\<rparr>, a)) =
          cancelled c (set_db (mark_cancelled (sv_env (n_servicer c)) (n_context c) (snd (snd (snd (n_drawn c)))) (n_id c) (api_db a)) a)"
        unfolding mark_cancelled_turns
        by (cases "get_document ?P (n_id c) (api_db a)")
          (simp_all add: inline_turn_def cancelled_def replies_def finish_cancelled_def set_db_def api_db_def)
      ultimately show ?thesis
        by (simp add: three sync_answer_def Inl True db) (simp add: cancelled_def replies_def set_db_def)
    next
      case False
      then have "inline_turn (c, a) = replies c (abort (n_context c) INTERNAL (U ''processing failed'') a)"
        using Inl by (simp add: ended_inside [OF assms])
      moreover have "sync_answer S cx s i (a_world a, r) a = abort cx INTERNAL (U ''processing failed'') a" for S cx s i
        using False Inl by (cases e) (simp_all add: sync_answer_def)
      ultimately show ?thesis by (simp add: three over) (simp add: replies_def abort_def)
    qed
  qed
qed

lemma ProcessDocument_guard:
  "ProcessDocument (n_servicer c) (n_context c) (n_now c) (n_id c) (n_drawn c) (n_request c) a =
     (let S = n_servicer c; E = sv_env S; cx = n_context c; rq = n_request c
      in case sync_guard c of
           Some (code, message) \<Rightarrow> abort cx code message a
         | None \<Rightarrow>
             (case submit_document (e_pg E) (n_now c) (submission_of cx (n_id c) rq) (api_db a) of
                (w, Inl e) \<Rightarrow> (set_db w a, Inl (Raised e))
              | (w, Inr inserted) \<Rightarrow>
                  (let a = set_db w a
                   in if \<not> inserted
                      then (case get_idempotent_document (e_pg E) (rq_idempotency_key rq) w of
                              Inl e \<Rightarrow> (a, Inl (Raised e))
                            | Inr None \<Rightarrow> abort cx INTERNAL (U ''idempotent document vanished'') a
                            | Inr (Some existing) \<Rightarrow> answer S cx existing a)
                      else (case n_drawn c of (mark, s1, s2, s3) \<Rightarrow>
                             sync_answer S cx s3 (n_id c) (process_document E mark s1 s2 (uuid_str (n_id c)) (a_world a)) a))))"
  unfolding ProcessDocument_def sync_guard_def Let_def
  by (cases "validate_submit (e_settings (sv_env (n_servicer c))) (e_schemas (sv_env (n_servicer c))) (n_request c)")
    simp_all

lemma sync_answer_world: "sync_answer S cx s i (w, r) (a\<lparr>a_world := w'\<rparr>) = sync_answer S cx s i (w, r) a"
  by (simp add: sync_answer_def abort_def answer_def rpc_done_def split: sum.split exn.split option.split)

lemma pipeline_turns:
  fixes c a
  defines "d \<equiv> c\<lparr>n_pc := Inside (inner_try c)\<rparr>"
  shows "\<exists>m \<le> 8. \<exists>c'. (inline_turn ^^ m) (d, a) =
     (case n_drawn c of (mark, s1, s2, s3) \<Rightarrow>
        (case sync_answer (n_servicer c) (n_context c) s3 (n_id c)
            (process_document (sv_env (n_servicer c)) mark s1 s2 (uuid_str (n_id c)) (a_world a)) a of
           (a', r) \<Rightarrow> (c\<lparr>n_pc := Answered r\<rparr>, a')))"
proof -
  obtain mark s1 s2 s3 where drawn: "n_drawn c = (mark, s1, s2, s3)" by (cases "n_drawn c")
  let ?t = "inner_try c"
  obtain w r where p: "process_document (sv_env (n_servicer c)) mark s1 s2 (uuid_str (n_id c)) (a_world a) = (w, r)" by fastforce
  have t: "?t\<lparr>t_tmp := None, t_pc := Starting\<rparr> = ?t" by (simp add: inner_try_def drawn)
  have "(try_turn ^^ 5) (?t, a_world a) = (?t\<lparr>t_tmp := None, t_pc := Ended r\<rparr>, w)"
    using try_turns [of ?t "a_world a"] unfolding t by (simp add: p inner_try_def drawn)
  from inside_turns [OF _ this, of d] obtain m where m: "m \<le> 5"
      "(inline_turn ^^ m) (d, a) = (d\<lparr>n_pc := Inside (?t\<lparr>t_tmp := None, t_pc := Ended r\<rparr>)\<rparr>, a\<lparr>a_world := w\<rparr>)"
    by (auto simp: d_def)
  let ?d = "d\<lparr>n_pc := Inside (?t\<lparr>t_tmp := None, t_pc := Ended r\<rparr>)\<rparr>"
  have "(inline_turn ^^ 3) (?d, a\<lparr>a_world := w\<rparr>) =
      (case sync_answer (n_servicer c) (n_context c) s3 (n_id c) (w, r) a of (a', out) \<Rightarrow> (c\<lparr>n_pc := Answered out\<rparr>, a'))"
    by (subst answer_turns [where r = r and t = "?t\<lparr>t_tmp := None, t_pc := Ended r\<rparr>"]) (simp_all add: d_def drawn sync_answer_world)
  then have "(inline_turn ^^ (3 + m)) (d, a) =
      (case sync_answer (n_servicer c) (n_context c) s3 (n_id c) (w, r) a of (a', out) \<Rightarrow> (c\<lparr>n_pc := Answered out\<rparr>, a'))"
    using m(2) by (simp only: funpow_add comp_apply)
  then show ?thesis using m(1) by (intro exI [of _ "3 + m"]) (simp add: drawn p)
qed

text \<open>
  A call that nothing interrupts is \<open>ProcessDocument\<close>: within nine turns the statement by statement version has
  its result and its state; one that was turned away has left the database alone.
\<close>

lemma inline_turns:
  "case (inline_turn ^^ 9) (c\<lparr>n_pc := Come\<rparr>, a) of
     (c', a') \<Rightarrow> (\<exists>r. result (n_pc c') = Some r \<and> (with_document (n_pc c') \<or> api_db a' = api_db a)
       \<and> ProcessDocument (n_servicer c) (n_context c) (n_now c) (n_id c) (n_drawn c) (n_request c) a = (a', r))"
proof -
  let ?c = "c\<lparr>n_pc := Come\<rparr>" and ?E = "sv_env (n_servicer c)" and ?rq = "n_request c"
  let ?P = "ProcessDocument (n_servicer c) (n_context c) (n_now c) (n_id c) (n_drawn c) (n_request c) a"
  have ends: ?thesis if "(inline_turn ^^ m) (?c, a) = (c', a')" "m \<le> 9" "result (n_pc c') = Some r" "?P = (a', r)"
      "with_document (n_pc c') \<or> api_db a' = api_db a" for m c' a' r
    using over_by [OF that(1,2)] that(3-5) by simp
  have g: "sync_guard ?c = sync_guard c" "inner_try ?c = inner_try c" by (simp_all add: sync_guard_def inner_try_def)
  show ?thesis
  proof (cases "sync_guard c")
    case (Some p)
    obtain code message where p: "p = (code, message)" by fastforce
    have "(inline_turn ^^ 1) (?c, a) = (c\<lparr>n_pc := Turned_away (Inl (Abort code message))\<rparr>, rpc_done (n_context c) (code_name code) a)"
      by (simp add: inline_turn_def g Some p turns_away_def abort_def)
    then show ?thesis by (rule ends) (simp_all add: ProcessDocument_guard Some p abort_def)
  next
    case None
    obtain w x where s: "submit_document (e_pg ?E) (n_now c) (submission_of (n_context c) (n_id c) ?rq) (api_db a) = (w, x)"
      by fastforce
    have same: "w = api_db a" if "x \<noteq> Inr True"
      using s by (cases rule: submit_cases) (simp_all add: that)
    show ?thesis
    proof (cases x)
      case (Inl e)
      have "(inline_turn ^^ 1) (?c, a) = (c\<lparr>n_pc := Turned_away (Inl (Raised e))\<rparr>, set_db w a)"
        by (simp add: inline_turn_def g None s Inl turns_away_def)
      then show ?thesis by (rule ends) (simp_all add: ProcessDocument_guard None s Inl same [unfolded Inl])
    next
      case (Inr inserted)
      show ?thesis
      proof (cases inserted)
        case True
        have one: "inline_turn (?c, a) = (c\<lparr>n_pc := Inside (inner_try c)\<rparr>, set_db w a)"
          by (simp add: inline_turn_def g None s Inr True)
        have P: "?P = (case n_drawn c of (mark, s1, s2, s3) \<Rightarrow>
            sync_answer (n_servicer c) (n_context c) s3 (n_id c) (process_document ?E mark s1 s2 (uuid_str (n_id c)) (a_world (set_db w a))) (set_db w a))"
          by (simp add: ProcessDocument_guard None s Inr True Let_def)
        obtain a' r where ar: "?P = (a', r)" by fastforce
        obtain m where "m \<le> 8" "(inline_turn ^^ m) (c\<lparr>n_pc := Inside (inner_try c)\<rparr>, set_db w a) = (c\<lparr>n_pc := Answered r\<rparr>, a')"
          using pipeline_turns [of c "set_db w a"] ar unfolding P by (auto split: prod.splits)
        then have "(inline_turn ^^ Suc m) (?c, a) = (c\<lparr>n_pc := Answered r\<rparr>, a')" "Suc m \<le> 9"
          by (simp_all del: funpow.simps add: funpow_Suc_right one)
        then show ?thesis by (rule ends) (simp_all add: ar)
      next
        case False
        have one: "inline_turn (?c, a) = (c\<lparr>n_pc := Known_key\<rparr>, set_db w a)"
          by (simp add: inline_turn_def g None s Inr False)
        let ?k = "get_idempotent_document (e_pg ?E) (rq_idempotency_key ?rq) w"
        have "(inline_turn ^^ 2) (?c, a) = (c\<lparr>n_pc := Turned_away (snd ?P)\<rparr>, fst ?P)"
          by (cases ?k) (auto simp: numeral_2_eq_2 one inline_turn_def [of "(c\<lparr>n_pc := Known_key\<rparr>, set_db w a)"]
            ProcessDocument_guard None s Inr False Let_def turns_away_def split: option.split)
        moreover have "api_db (fst ?P) = api_db a"
          using same Inr False
          by (cases ?k) (auto simp: ProcessDocument_guard None s Let_def abort_def split: option.split)
        ultimately show ?thesis by (intro ends) (assumption, simp, simp, rule prod.collapse [symmetric], rule disjI2)
      qed
    qed
  qed
qed

subsection \<open>Faults\<close>

text \<open>
  A statement that raises. An exception of the insertion, of the lookup of the key or of the reading leaves
  the call; one of the pipeline's statements is the pipeline's; one while the cancelled document is marked is
  logged and dropped, unless it is a cancellation. \<open>applied\<close> says whether the statement had taken effect.
\<close>

definition inline_fault :: "fault \<Rightarrow> inline_call \<times> api \<Rightarrow> inline_call \<times> api" where
  "inline_fault f x =
     (let e = fst f; applied = snd f; c = fst x; a = snd x; E = sv_env (n_servicer c); cx = n_context c; rq = n_request c
      in case n_pc c of
           Come \<Rightarrow>
             if sync_guard c \<noteq> None then inline_turn x
             else turns_away c (if applied
                          then set_db (fst (submit_document (e_pg E) (n_now c) (submission_of cx (n_id c) rq) (api_db a))) a
                          else a, Inl (Raised e))
         | Known_key \<Rightarrow> turns_away c (a, Inl (Raised e))
         | Inside t \<Rightarrow>
             (case t_pc t of
                Ended r \<Rightarrow> inline_turn x
              | _ \<Rightarrow> (case try_fault f (t, a_world a) of (t', w) \<Rightarrow> (c\<lparr>n_pc := Inside t'\<rparr>, a\<lparr>a_world := w\<rparr>)))
         | Cancelling \<Rightarrow> if e = CancelledError then replies c (a, Inl (Raised e)) else cancelled c a
         | Marking doc \<Rightarrow>
             (let a' = (if applied then set_db (finish_cancelled c doc (api_db a)) a else a)
              in if e = CancelledError then replies c (a', Inl (Raised e)) else cancelled c a')
         | Reading \<Rightarrow> replies c (a, Inl (Raised e))
         | _ \<Rightarrow> x)"

definition inline_move :: "fault option \<Rightarrow> inline_call \<times> api \<Rightarrow> inline_call \<times> api" where
  "inline_move f x = (case f of None \<Rightarrow> inline_turn x | Some g \<Rightarrow> inline_fault g x)"

text \<open>The ghost records the documents that were inserted.\<close>

fun coming :: "inline_pc \<Rightarrow> bool" where
  "coming Come = True"
| "coming pc = False"

lemma coming_iff [simp]: "coming pc \<longleftrightarrow> pc = Come"
  by (cases pc) simp_all

definition inline_on :: "fault option \<Rightarrow> inline_call \<times> shared \<Rightarrow> inline_call \<times> shared" where
  "inline_on f x =
     (case inline_move f (fst x, h_api (snd x)) of
        (c, a) \<Rightarrow> (c, (snd x)\<lparr>h_api := a,
          h_inline := (if coming (n_pc (fst x)) \<and> api_db a \<noteq> shared_db (snd x)
                       then h_inline (snd x) @ [n_id c] else h_inline (snd x))\<rparr>))"

subsection \<open>What a call owes the others\<close>

definition settled_status :: "document_status set" where
  "settled_status = {DOCUMENT_STATUS_COMPLETED, DOCUMENT_STATUS_NEEDS_REVIEW, DOCUMENT_STATUS_FAILED}"

text \<open>What a call knows of its document.\<close>

fun sound :: "pg \<Rightarrow> uuid \<Rightarrow> db \<Rightarrow> inline_pc \<Rightarrow> bool" where
  "sound P i w (Inside t) =
     (e_pg (t_env t) = P \<and> t_job t = uuid_str i \<and> knows (Some i) (t_pc t)
      \<and> (t_pc t = Ended (Inr ()) \<longrightarrow> closed (Some i) w))"
| "sound P i w Reading = closed (Some i) w"
| "sound P i w (Answered (Inr m)) = (closed (Some i) w \<and> rs_document_id m = uuid_str i \<and> rs_status m \<in> settled_status)"
| "sound P i w pc = True"

definition keyed :: "pg \<Rightarrow> db \<Rightarrow> inline_call \<Rightarrow> bool" where
  "keyed P w c \<longleftrightarrow>
     (\<exists>key. pg_uuid P (rq_idempotency_key (n_request c)) = Some key \<and> (n_id c, key) \<in> row_key ` set (documents w))"

definition inline_ok :: "pg \<Rightarrow> shared \<Rightarrow> inline_call \<Rightarrow> bool" where
  "inline_ok P s c \<longleftrightarrow>
     e_pg (sv_env (n_servicer c)) = P \<and> sound P (n_id c) (shared_db s) (n_pc c)
     \<and> (with_document (n_pc c) \<longrightarrow> n_id c \<in> set (h_inline s) \<and> keyed P (shared_db s) c)"

definition may_come :: "shared \<Rightarrow> inline_call \<Rightarrow> bool" where
  "may_come s c \<longleftrightarrow> (n_pc c = Come \<longrightarrow> uuid_str (n_id c) \<notin> claimed s)"

text \<open>A turn before the insertion.\<close>

lemma come_cases:
  assumes "inline_move f (c, a) = (c', a')" and "n_pc c = Come" and "e_pg (sv_env (n_servicer c)) = P"
  obtains (away) pc where "c' = c\<lparr>n_pc := pc\<rparr>" and "\<not> with_document pc" and "api_db a' = api_db a" and "a_jobs a' = a_jobs a"
      and "pc \<noteq> Come"
    | (inserts) key pc where "c' = c\<lparr>n_pc := pc\<rparr>" and "pc = Inside (inner_try c) \<or> (\<exists>r. pc = Turned_away r)"
      and "a_jobs a' = a_jobs a" and "pg_uuid P (rq_idempotency_key (n_request c)) = Some key"
      and "documents (api_db a') = documents (api_db a)
             @ [queued_row (n_now c) key (submission_of (n_context c) (n_id c) (n_request c))]"
      and "store_step P (api_db a) (api_db a')" and "outbox (api_db a') = outbox (api_db a)"
proof (cases "sync_guard c")
  case (Some p)
  obtain code message where p: "p = (code, message)" by fastforce
  have "inline_move f (c, a) = inline_turn (c, a)"
    using Some assms(2) by (simp add: inline_move_def inline_fault_def split: option.split)
  then show ?thesis using assms(1,2) Some p
    by (intro away [of "Turned_away (Inl (Abort code message))"]) (auto simp: inline_turn_def turns_away_def abort_def)
next
  case None
  obtain w x where s: "submit_document P (n_now c) (submission_of (n_context c) (n_id c) (n_request c)) (api_db a) = (w, x)"
    by fastforce
  define pc where "pc = (case f of
      None \<Rightarrow> (case x of Inl e \<Rightarrow> Turned_away (Inl (Raised e)) | Inr b \<Rightarrow> if b then Inside (inner_try c) else Known_key)
    | Some g \<Rightarrow> Turned_away (Inl (Raised (fst g))))"
  have "inline_move f (c, a) = (c\<lparr>n_pc := pc\<rparr>, if \<exists>g. f = Some g \<and> \<not> snd g then a else set_db w a)"
  proof (cases f)
    case (Some g)
    then show ?thesis using assms(2,3) None s
      by (simp add: inline_move_def inline_fault_def turns_away_def pc_def Let_def)
  next
    case plain: None
    then show ?thesis using assms(2,3) None s
      by (cases x) (simp_all add: inline_move_def inline_turn_def turns_away_def pc_def Let_def)
  qed
  then have t: "c' = c\<lparr>n_pc := pc\<rparr>" "a' = (if \<exists>g. f = Some g \<and> \<not> snd g then a else set_db w a)"
    using assms(1) by simp_all
  have sel: "a_jobs (set_db w a) = a_jobs a" "api_db (set_db w a) = w" by (simp_all add: api_db_def set_db_def)
  have jobs: "a_jobs a' = a_jobs a" unfolding t(2) by (simp add: sel)
  have db: "api_db a' = (if \<exists>g. f = Some g \<and> \<not> snd g then api_db a else w)"
    unfolding t(2) if_distrib [of api_db] sel by (rule refl)
  from s show ?thesis
  proof (cases rule: submit_cases)
    case refused
    then have "\<not> with_document pc" "pc \<noteq> Come" by (auto simp: pc_def split: option.split sum.split)
    then show ?thesis using away [OF t(1)] jobs db refused(1) by (simp split: if_splits)
  next
    case (stored key)
    show ?thesis
    proof (cases "\<exists>g. f = Some g \<and> \<not> snd g")
      case True
      then show ?thesis using away [OF t(1)] jobs db by (auto simp: pc_def)
    next
      case False
      then have "api_db a' = w" unfolding db by (rule if_not_P)
      moreover have "store_step P (api_db a) w" by (rule store_step.submitted [OF s])
      moreover have "pc = Inside (inner_try c) \<or> (\<exists>r. pc = Turned_away r)"
        using stored(2) by (cases f) (simp_all add: pc_def)
      ultimately show ?thesis using stored by (intro inserts [OF t(1) _ jobs]) (simp_all add: submission_of_def)
    qed
  qed
qed

lemma sound_answer:
  assumes "get_document P i w = Some doc" and "closed (Some i) w" and "wf_db w"
    and "snd (answer S cx doc a) = Inr m"
  shows "rs_document_id m = uuid_str i \<and> rs_status m \<in> settled_status"
proof -
  obtain r where "find_row d_id i (documents w) = Some r" "doc = row_to_document P r"
    using assms(1) by (auto simp: get_document_def)
  then have doc: "dw_id doc = i" "\<not> open_row r" "dw_status doc = d_status r"
    using find_row_Some [of d_id i "documents w" r] assms(2) by (auto simp: row_to_document_def closed_def)
  have "response_for (e_libs (sv_env S)) (sv_protobuf S) doc = Inr m" using assms(4) by (simp add: answer_def split: sum.splits)
  then have "rs_document_id m = uuid_str i" "map_of status_map (d_status r) = Some (rs_status m)"
    using doc by (auto dest: response_shape)
  moreover have "d_status r \<in> set terminal_statuses" using doc(2) by (simp add: open_row_def)
  ultimately show ?thesis by (auto simp: terminal_statuses_def status_map_def settled_status_def)
qed

lemma finish_cancelled_effect: "e_pg (sv_env (n_servicer c)) = P \<Longrightarrow> try_effect P w (finish_cancelled c doc w)"
  unfolding finish_cancelled_def Let_def
  using finish_effect [OF prod.collapse [symmetric]] by (simp add: terminal_statuses_def)

lemma cancelled_facts [simp]:
  "n_pc (fst (cancelled c a)) = Answered (Inl (Raised CancelledError))" "api_db (snd (cancelled c a)) = api_db a"
  "a_jobs (snd (cancelled c a)) = a_jobs a" "fst (cancelled c a) = c\<lparr>n_pc := Answered (Inl (Raised CancelledError))\<rparr>"
  by (simp_all add: cancelled_def replies_def)

lemma inline_keeps:
  assumes "inline_move f (c, a) = (c', a')" and "n_pc c \<noteq> Come" and P: "e_pg (sv_env (n_servicer c)) = P"
    and "wf_db (api_db a)" and "sound P (n_id c) (api_db a) (n_pc c)"
  shows "try_effect P (api_db a) (api_db a') \<and> sound P (n_id c) (api_db a') (n_pc c') \<and> a_jobs a' = a_jobs a
    \<and> c' = c\<lparr>n_pc := n_pc c'\<rparr> \<and> (with_document (n_pc c') \<longrightarrow> with_document (n_pc c)) \<and> n_pc c' \<noteq> Come"
proof -
  let ?k = "\<lambda>p. try_effect P (api_db a) (api_db (snd p)) \<and> sound P (n_id c) (api_db (snd p)) (n_pc (fst p))
    \<and> a_jobs (snd p) = a_jobs a \<and> fst p = c\<lparr>n_pc := n_pc (fst p)\<rparr>
    \<and> (with_document (n_pc (fst p)) \<longrightarrow> with_document (n_pc c)) \<and> n_pc (fst p) \<noteq> Come"
  have db: "api_db (set_db w b) = w" "a_jobs (set_db w b) = a_jobs b" for w b by (simp_all add: api_db_def set_db_def)
  have "?k (inline_move f (c, a))"
  proof (cases "n_pc c")
    case Come
    then show ?thesis using assms(2) by simp
  next
    case Known_key
    then show ?thesis
      by (simp add: inline_move_def inline_turn_def inline_fault_def turns_away_def same_effect abort_def Let_def
        split: option.split sum.split)
  next
    case (Inside t)
    show ?thesis
    proof (cases "\<exists>r. t_pc t = Ended r")
      case True
      then have "inline_move f (c, a) = inline_turn (c, a)"
        using Inside by (auto simp: inline_move_def inline_fault_def split: option.split)
      moreover obtain r where "t_pc t = Ended r" using True by auto
      ultimately show ?thesis using Inside assms(5)
        by (cases r) (auto simp: ended_inside replies_def abort_def same_effect)
    next
      case False
      have t: "inline_move f (c, a) = (case try_move f (t, a_world a) of (t', w) \<Rightarrow> (c\<lparr>n_pc := Inside t'\<rparr>, a\<lparr>a_world := w\<rparr>))"
        using False Inside by (cases "t_pc t") (auto simp: inline_move_def inline_fault_def inline_turn_def try_move_def split: option.split)
      have "moves P (t, a_world a) (try_move f (t, a_world a))"
        using assms(4,5) Inside by (intro try_move_moves) (simp_all add: api_db_def py_uuid_str)
      then show ?thesis using assms(5) Inside False unfolding t
        by (auto simp: moves_def py_uuid_str api_db_def split: prod.split)
    qed
  next
    case Cancelling
    then show ?thesis
      by (simp add: inline_move_def inline_turn_def inline_fault_def replies_def same_effect Let_def split: option.split)
  next
    case (Marking doc)
    then show ?thesis
      by (simp add: inline_move_def inline_turn_def inline_fault_def replies_def same_effect db finish_cancelled_effect P Let_def split: option.split)
  next
    case Reading
    then show ?thesis
    proof (cases f)
      case None
      show ?thesis
      proof (cases "get_document P (n_id c) (api_db a)")
        case None
        then show ?thesis using Reading P \<open>f = None\<close>
          by (simp add: inline_move_def inline_turn_def replies_def abort_def same_effect Let_def)
      next
        case (Some doc)
        let ?r = "answer (n_servicer c) (n_context c) doc a"
        have "sound P (n_id c) (api_db a) (Answered (snd ?r))"
          using sound_answer [OF Some _ assms(4)] assms(5) Reading by (cases "snd ?r") simp_all
        then show ?thesis using Reading P \<open>f = None\<close> Some
          by (simp add: inline_move_def inline_turn_def replies_def same_effect Let_def)
      qed
    next
      case (Some g)
      then show ?thesis using Reading by (simp add: inline_move_def inline_fault_def replies_def same_effect Let_def)
    qed
  next
    case (Turned_away r)
    then show ?thesis by (simp add: inline_move_def inline_turn_def inline_fault_def same_effect Let_def split: option.split)
  next
    case (Answered r)
    then show ?thesis using assms(5)
      by (simp add: inline_move_def inline_turn_def inline_fault_def same_effect Let_def split: option.split)
  qed
  then show ?thesis by (simp add: assms(1))
qed

text \<open>
  The synchronous calls are a family of processes too. They guarantee that they add no job and no document
  but their own, and that they open none that somebody answers for.
\<close>

definition adds_inline :: "shared \<Rightarrow> shared \<Rightarrow> bool" where
  "adds_inline s s' \<longleftrightarrow>
     interferes s s' \<and> a_jobs (h_api s') = a_jobs (h_api s)
     \<and> (\<exists>new. map row_key (documents (shared_db s')) = map row_key (documents (shared_db s)) @ new
          \<and> set (h_inline s') = set (h_inline s) \<union> fst ` set new)"

lemma adds_nothing_inline: "adds_nothing s s' \<Longrightarrow> adds_inline s s'"
  by (auto simp: adds_nothing_def adds_inline_def intro: exI [of _ "[]"])

lemma sound_stays:
  assumes "sound P i w pc" and "stays_closed jobs w w'" and "with_document pc \<Longrightarrow> uuid_str i \<in> jobs"
  shows "sound P i w' pc"
  using assms closed_stays [of i w jobs w']
  by (cases "(P, i, w, pc)" rule: sound.cases) (auto simp: py_uuid_str)

lemma keyed_stays:
  assumes "keyed P w c" and "rows_persist ids w w'" and "n_id c \<in> ids"
  shows "keyed P w' c"
proof -
  obtain key r where "pg_uuid P (rq_idempotency_key (n_request c)) = Some key" "r \<in> set (documents w)" "row_key r = (n_id c, key)"
    using assms(1) by (auto simp: keyed_def)
  moreover from this have "d_id r = n_id c" by (simp add: row_key_def)
  ultimately show ?thesis using assms(2,3) unfolding rows_persist_def keyed_def by metis
qed

lemma inline_stable:
  assumes "inline_ok P s c" and "interferes s s'"
  shows "inline_ok P s' c"
proof -
  have "with_document (n_pc c) \<Longrightarrow> uuid_str (n_id c) \<in> claimed s" using assms(1) by (simp add: inline_ok_def claimed_def)
  moreover have i: "stays_closed (claimed s) (shared_db s) (shared_db s')" "set (h_inline s) \<subseteq> set (h_inline s')"
      "rows_persist (set (h_inline s)) (shared_db s) (shared_db s')" using assms(2) by (simp_all add: interferes_def)
  ultimately have "sound P (n_id c) (shared_db s') (n_pc c)" using assms(1) sound_stays unfolding inline_ok_def by metis
  moreover have "keyed P (shared_db s') c \<and> n_id c \<in> set (h_inline s')" if "with_document (n_pc c)"
    using assms(1) that i(2,3) keyed_stays unfolding inline_ok_def by (metis subsetD)
  ultimately show ?thesis using assms(1) by (simp add: inline_ok_def)
qed

lemma come_kept:
  assumes "inline_move f (c, h_api s) = (c', a)" and come: "n_pc c = Come" and "e_pg (sv_env (n_servicer c)) = P"
    and inv: "shared_inv s" and fresh: "uuid_str (n_id c) \<notin> claimed s"
    and s': "s' = s\<lparr>h_api := a, h_inline := (if api_db a \<noteq> shared_db s then h_inline s @ [n_id c'] else h_inline s)\<rparr>"
  shows "shared_inv s' \<and> adds_inline s s' \<and> inline_ok P s' c' \<and> c' = c\<lparr>n_pc := n_pc c'\<rparr> \<and> n_pc c' \<noteq> Come"
proof -
  have db: "shared_db s' = api_db a" "shared_db s = api_db (h_api s)" "h_sent s' = h_sent s" "h_api s' = a"
    by (simp_all add: s' shared_db_def)
  have refl: "stays_closed jobs w w" "rows_persist ids w w" for jobs ids w by (auto simp: stays_closed_def rows_persist_def)
  from assms(1-3) show ?thesis
  proof (cases rule: come_cases)
    case (away pc)
    then have "h_inline s' = h_inline s" "shared_db s' = shared_db s" by (simp_all add: s' shared_db_def)
    moreover from this have "adds_inline s s'" using away(4) refl
      by (auto simp: adds_inline_def interferes_def db(3,4) intro: exI [of _ "[]"])
    moreover have "sound P (n_id c) w pc" for w using away(2) by (cases pc) simp_all
    ultimately show ?thesis using inv away assms(3) by (simp add: shared_inv_def db(3) inline_ok_def)
  next
    case (inserts key pc)
    let ?row = "queued_row (n_now c) key (submission_of (n_context c) (n_id c) (n_request c))"
    have docs: "documents (shared_db s') = documents (shared_db s) @ [?row]" using inserts(5) by (simp add: db(1,2))
    have row: "d_id ?row = n_id c" "row_key ?row = (n_id c, key)"
      by (simp_all add: queued_row_def submission_of_def row_key_def)
    have "api_db a \<noteq> shared_db s" using docs db(1) by auto
    then have h: "h_inline s' = h_inline s @ [n_id c]" using inserts(1) by (simp add: s')
    have "wf_db (shared_db s')" using store_step_wf [OF inserts(6)] inv by (simp add: shared_inv_def db)
    moreover have "outbox (shared_db s') = outbox (shared_db s)" using inserts(7) by (simp add: db(1,2))
    moreover have "stays_closed (claimed s) (shared_db s) (shared_db s')"
      using fresh by (auto simp: stays_closed_def docs row(1))
    moreover have "rows_persist (set (h_inline s)) (shared_db s) (shared_db s')" by (auto simp: rows_persist_def docs)
    ultimately have "shared_inv s'" "adds_inline s s'"
      using inv inserts(3) by (auto simp: shared_inv_def handed_over_def adds_inline_def interferes_def db(3,4) docs h row(2))
    moreover have "keyed P (shared_db s') c'" using inserts(1,4) row(2) by (force simp: keyed_def docs)
    moreover have "sound P (n_id c) w pc" for w
      using inserts(2) assms(3) by (auto simp: inner_try_def split: prod.split)
    ultimately show ?thesis using inserts(1,2) assms(3) h by (auto simp: inline_ok_def)
  qed
qed

lemma same_call:
  "c' = c\<lparr>n_pc := pc\<rparr> \<Longrightarrow> n_id c' = n_id c \<and> n_servicer c' = n_servicer c \<and> n_request c' = n_request c"
  by simp

lemma inline_moved:
  assumes "inline_on f (c, s) = (c', s')" and inv: "shared_inv s" and ok: "inline_ok P s c" and may: "may_come s c"
  shows "shared_inv s' \<and> adds_inline s s' \<and> inline_ok P s' c' \<and> c' = c\<lparr>n_pc := n_pc c'\<rparr> \<and> n_pc c' \<noteq> Come
    \<and> set (h_inline s') \<subseteq> insert (n_id c) (set (h_inline s))"
proof -
  obtain a where m: "inline_move f (c, h_api s) = (c', a)"
    and s': "s' = s\<lparr>h_api := a, h_inline := (if n_pc c = Come \<and> api_db a \<noteq> shared_db s then h_inline s @ [n_id c'] else h_inline s)\<rparr>"
    using assms(1) by (auto simp: inline_on_def split: prod.splits)
  have P: "e_pg (sv_env (n_servicer c)) = P" using ok by (simp add: inline_ok_def)
  have main: "shared_inv s' \<and> adds_inline s s' \<and> inline_ok P s' c' \<and> c' = c\<lparr>n_pc := n_pc c'\<rparr> \<and> n_pc c' \<noteq> Come"
  proof (cases "n_pc c = Come")
    case True
    have "s' = s\<lparr>h_api := a, h_inline := (if api_db a \<noteq> shared_db s then h_inline s @ [n_id c'] else h_inline s)\<rparr>"
      using s' True by simp
    from come_kept [OF m True P inv _ this] show ?thesis using may True by (simp add: may_come_def)
  next
    case False
    have db: "shared_db s' = api_db a" "h_sent s' = h_sent s" "h_api s' = a" "h_inline s' = h_inline s"
      using False by (simp_all add: s' shared_db_def)
    have wf: "wf_db (api_db (h_api s))" using inv by (simp add: shared_inv_def shared_db_def)
    have "sound P (n_id c) (api_db (h_api s)) (n_pc c)" using ok by (simp add: inline_ok_def shared_db_def)
    from inline_keeps [OF m False P wf this]
    have eff: "try_effect P (shared_db s) (shared_db s')" and so: "sound P (n_id c) (shared_db s') (n_pc c')"
      and jobs: "a_jobs (h_api s') = a_jobs (h_api s)" and c': "c' = c\<lparr>n_pc := n_pc c'\<rparr>" "n_pc c' \<noteq> Come"
      and wd: "with_document (n_pc c') \<Longrightarrow> with_document (n_pc c)"
      by (simp_all add: db shared_db_def)
    have n: "wf_db (shared_db s') \<and> adds_nothing s s'"
      using step_adds_nothing [of P s s'] eff inv jobs db by (auto simp: try_effect_def shared_inv_def)
    then have "inline_ok P s' c" using inline_stable [OF ok] adds_nothing_interferes by blast
    moreover have "sound P (n_id c') (shared_db s') (n_pc c')" "n_id c' = n_id c" "n_servicer c' = n_servicer c"
        "keyed P (shared_db s') c' = keyed P (shared_db s') c" using so same_call [OF c'(1)] by (simp_all add: keyed_def)
    ultimately have "inline_ok P s' c'" using wd by (simp add: inline_ok_def)
    moreover have "handed_over (shared_db s') (h_sent s')" using effect_handed [OF eff] inv db by (simp add: shared_inv_def)
    ultimately show ?thesis using n c' adds_nothing_inline by (simp add: shared_inv_def)
  qed
  then have "n_id c' = n_id c" using same_call by blast
  then have "set (h_inline s') \<subseteq> insert (n_id c) (set (h_inline s))" by (auto simp: s')
  with main show ?thesis by simp
qed

interpretation inlines: interference shared_inv interferes adds_inline "inline_ok P" may_come inline_on for P
  by unfold_locales (auto simp: adds_inline_def dest: inline_moved intro: inline_stable)

end
