(* ===== verification/Ocr_Concurrent.thy ===== *)
theory Ocr_Concurrent
  imports Ocr_Overlap Ocr_Ticks Ocr_Inline
begin

text \<open>
  The whole service statement by statement: any number of submissions, synchronous calls, tries of jobs,
  publisher ticks and retention sweeps in flight at once, each of which advances by one statement at a time,
  or loses its connection in it.
\<close>

subsection \<open>The state\<close>

text \<open>The processes in flight and over, and what they share. Every job of the queue may be tried at any time.\<close>

record plant =
  x_calls :: "submit_call list"
  x_inlines :: "inline_call list"
  x_tries :: "job_try list"
  x_ticks :: "tick list"
  x_sweeps :: "sweep list"
  x_shared :: shared

definition plant_init :: plant where
  "plant_init = \<lparr>x_calls = [], x_inlines = [], x_tries = [], x_ticks = [], x_sweeps = [],
     x_shared = \<lparr>h_api = api_init, h_sent = [], h_ok = 0, h_failed = 0, h_inline = []\<rparr>\<rparr>"

definition plant_db :: "plant \<Rightarrow> db" where
  "plant_db y = shared_db (x_shared y)"

subsection \<open>Steps\<close>

definition call_on :: "fault option \<Rightarrow> submit_call \<times> shared \<Rightarrow> submit_call \<times> shared" where
  "call_on f x = (case call_turn f (fst x, h_api (snd x)) of (c, a) \<Rightarrow> (c, (snd x)\<lparr>h_api := a\<rparr>))"

definition call_at :: "fault option \<Rightarrow> nat \<Rightarrow> plant \<Rightarrow> plant" where
  "call_at f n y = (case advance call_on f n (x_calls y, x_shared y) of (cs, s) \<Rightarrow> y\<lparr>x_calls := cs, x_shared := s\<rparr>)"

definition inline_at :: "fault option \<Rightarrow> nat \<Rightarrow> plant \<Rightarrow> plant" where
  "inline_at f n y = (case advance inline_on f n (x_inlines y, x_shared y) of (cs, s) \<Rightarrow> y\<lparr>x_inlines := cs, x_shared := s\<rparr>)"

definition try_at :: "fault option \<Rightarrow> nat \<Rightarrow> plant \<Rightarrow> plant" where
  "try_at f n y = (case advance try_on f n (x_tries y, x_shared y) of (ts, s) \<Rightarrow> y\<lparr>x_tries := ts, x_shared := s\<rparr>)"

definition tick_at :: "fault option \<Rightarrow> nat \<Rightarrow> plant \<Rightarrow> plant" where
  "tick_at f n y = (case advance tick_on f n (x_ticks y, x_shared y) of (qs, s) \<Rightarrow> y\<lparr>x_ticks := qs, x_shared := s\<rparr>)"

definition sweep_at :: "fault option \<Rightarrow> nat \<Rightarrow> plant \<Rightarrow> plant" where
  "sweep_at f n y = (case advance sweep_on f n (x_sweeps y, x_shared y) of (vs, s) \<Rightarrow> y\<lparr>x_sweeps := vs, x_shared := s\<rparr>)"

definition identifiers :: "plant \<Rightarrow> uuid set" where
  "identifiers y = cl_id ` set (x_calls y) \<union> n_id ` set (x_inlines y)"

text \<open>Processes come in, and any of them does its next statement, with or without a fault.\<close>

inductive plant_step :: "pg \<Rightarrow> plant \<Rightarrow> plant \<Rightarrow> bool" for P where
  called: "cl_pc c = Arrived \<Longrightarrow> e_pg (sv_env (cl_servicer c)) = P \<Longrightarrow> cl_id c \<notin> identifiers y \<Longrightarrow>
    plant_step P y (y\<lparr>x_calls := x_calls y @ [c]\<rparr>)"
| asked: "n_pc n = Come \<Longrightarrow> e_pg (sv_env (n_servicer n)) = P \<Longrightarrow> n_id n \<notin> identifiers y \<Longrightarrow>
    plant_step P y (y\<lparr>x_inlines := x_inlines y @ [n]\<rparr>)"
| started: "t_pc t = Starting \<Longrightarrow> e_pg (t_env t) = P \<Longrightarrow> t_job t \<in> set (a_jobs (h_api (x_shared y))) \<Longrightarrow>
    plant_step P y (y\<lparr>x_tries := x_tries y @ [t]\<rparr>)"
| woken: "q_pc q = Polling \<Longrightarrow> plant_step P y (y\<lparr>x_ticks := x_ticks y @ [q]\<rparr>)"
| due: "v_pc v = Listing \<Longrightarrow> plant_step P y (y\<lparr>x_sweeps := x_sweeps y @ [v]\<rparr>)"
| call_turned: "n < length (x_calls y) \<Longrightarrow> plant_step P y (call_at f n y)"
| inline_turned: "n < length (x_inlines y) \<Longrightarrow> plant_step P y (inline_at f n y)"
| try_turned: "n < length (x_tries y) \<Longrightarrow> plant_step P y (try_at f n y)"
| tick_turned: "n < length (x_ticks y) \<Longrightarrow> plant_step P y (tick_at f n y)"
| sweep_turned: "n < length (x_sweeps y) \<Longrightarrow> plant_step P y (sweep_at f n y)"

subsection \<open>One process alone\<close>

lemma try_at_alone:
  "x_tries y = [t] \<Longrightarrow> (try_at None 0 ^^ n) y =
     (case (try_turn ^^ n) (t, a_world (h_api (x_shared y))) of
        (t', w) \<Rightarrow> y\<lparr>x_tries := [t'], x_shared := (x_shared y)\<lparr>h_api := (h_api (x_shared y))\<lparr>a_world := w\<rparr>\<rparr>\<rparr>)"
proof (induction n)
  case 0
  then show ?case by simp
next
  case (Suc n)
  then show ?case by (auto simp: try_at_def advance_def try_on_def try_move_def split: prod.split)
qed

text \<open>
  A try that nothing interrupts is \<open>process_document\<close>: five statements of it in the whole
  service end with its result and leave its world, whatever the environment answers.
\<close>

lemma uninterrupted_try:
  "(try_at None 0 ^^ 5) (y\<lparr>x_tries := [t\<lparr>t_tmp := None, t_pc := Starting\<rparr>]\<rparr>) =
     (case process_document (t_env t) (t_now t) (t_stamp1 t) (t_stamp2 t) (t_job t) (a_world (h_api (x_shared y))) of
        (w, r) \<Rightarrow> y\<lparr>x_tries := [t\<lparr>t_tmp := None, t_pc := Ended r\<rparr>],
                     x_shared := (x_shared y)\<lparr>h_api := (h_api (x_shared y))\<lparr>a_world := w\<rparr>\<rparr>\<rparr>)"
proof -
  let ?y = "y\<lparr>x_tries := [t\<lparr>t_tmp := None, t_pc := Starting\<rparr>]\<rparr>"
  have "x_tries ?y = [t\<lparr>t_tmp := None, t_pc := Starting\<rparr>]" by simp
  from try_at_alone [OF this, of 5] show ?thesis by (simp add: try_turns split: prod.split)
qed

lemma inline_at_alone:
  "x_inlines y = [c] \<Longrightarrow> \<exists>h. (inline_at None 0 ^^ n) y =
     (case (inline_turn ^^ n) (c, h_api (x_shared y)) of
        (c', a) \<Rightarrow> y\<lparr>x_inlines := [c'], x_shared := (x_shared y)\<lparr>h_api := a, h_inline := h\<rparr>\<rparr>)"
proof (induction n)
  case 0
  then show ?case by (intro exI [of _ "h_inline (x_shared y)"]) simp
next
  case (Suc n)
  then obtain h where h: "(inline_at None 0 ^^ n) y =
     (case (inline_turn ^^ n) (c, h_api (x_shared y)) of
        (c', a) \<Rightarrow> y\<lparr>x_inlines := [c'], x_shared := (x_shared y)\<lparr>h_api := a, h_inline := h\<rparr>\<rparr>)" by blast
  obtain c1 a1 where 1: "(inline_turn ^^ n) (c, h_api (x_shared y)) = (c1, a1)" by fastforce
  obtain c2 a2 where 2: "inline_turn (c1, a1) = (c2, a2)" by fastforce
  let ?h = "if coming (n_pc c1) \<and> api_db a2 \<noteq> api_db a1 then h @ [n_id c2] else h"
  have "inline_at None 0 (y\<lparr>x_inlines := [c1], x_shared := (x_shared y)\<lparr>h_api := a1, h_inline := h\<rparr>\<rparr>) =
      y\<lparr>x_inlines := [c2], x_shared := (x_shared y)\<lparr>h_api := a2, h_inline := ?h\<rparr>\<rparr>"
    by (simp add: 2 inline_at_def advance_def inline_on_def inline_move_def shared_db_def)
  then show ?case by (simp only: funpow.simps comp_apply h 1 2 prod.case) blast
qed

text \<open>
  A synchronous call that nothing interrupts is \<open>ProcessDocument\<close>: nine statements of it in the whole
  service, the pipeline's among them, end with its result and its state; one that was turned away,
  for its request or for a key that is known, has left the database alone.
\<close>

lemma uninterrupted_inline:
  "case (inline_at None 0 ^^ 9) (y\<lparr>x_inlines := [c\<lparr>n_pc := Come\<rparr>]\<rparr>) of
     y' \<Rightarrow> \<exists>n r. x_inlines y' = [n] \<and> result (n_pc n) = Some r \<and> (with_document (n_pc n) \<or> plant_db y' = plant_db y)
       \<and> ProcessDocument (n_servicer c) (n_context c) (n_now c) (n_id c) (n_drawn c) (n_request c) (h_api (x_shared y))
         = (h_api (x_shared y'), r)
       \<and> x_calls y' = x_calls y \<and> x_tries y' = x_tries y \<and> x_ticks y' = x_ticks y"
proof -
  let ?y = "y\<lparr>x_inlines := [c\<lparr>n_pc := Come\<rparr>]\<rparr>"
  obtain n a where t: "(inline_turn ^^ 9) (c\<lparr>n_pc := Come\<rparr>, h_api (x_shared y)) = (n, a)" by fastforce
  have "x_inlines ?y = [c\<lparr>n_pc := Come\<rparr>]" by simp
  from inline_at_alone [OF this, of 9] t obtain h
    where "(inline_at None 0 ^^ 9) ?y = y\<lparr>x_inlines := [n], x_shared := (x_shared y)\<lparr>h_api := a, h_inline := h\<rparr>\<rparr>" by auto
  then show ?thesis using inline_turns [where c = c and a = "h_api (x_shared y)"] t by (auto simp: plant_db_def shared_db_def)
qed

subsection \<open>The invariant\<close>

definition as_conc :: "submit_call list \<Rightarrow> shared \<Rightarrow> conc" where
  "as_conc cs s = \<lparr>k_api = h_api s, k_calls = cs\<rparr>"

text \<open>The calls draw identifiers of their own, and the synchronous ones that have inserted are past their insertion.\<close>

definition apart :: "plant \<Rightarrow> bool" where
  "apart y \<longleftrightarrow>
     distinct (map n_id (x_inlines y)) \<and> cl_id ` set (x_calls y) \<inter> n_id ` set (x_inlines y) = {}
     \<and> (\<forall>i \<in> set (h_inline (x_shared y)). \<exists>n \<in> set (x_inlines y). n_id n = i \<and> n_pc n \<noteq> Come)"

definition plant_inv :: "pg \<Rightarrow> plant \<Rightarrow> bool" where
  "plant_inv P y \<longleftrightarrow>
     conc_inv P (set (h_inline (x_shared y))) (as_conc (x_calls y) (x_shared y)) \<and> shared_inv (x_shared y)
     \<and> list_all (inline_ok P (x_shared y)) (x_inlines y) \<and> list_all (try_ok P (x_shared y)) (x_tries y)
     \<and> list_all (\<lambda>q. holds (x_shared y) (q_pc q)) (x_ticks y) \<and> apart y"

text \<open>The submissions survive what the other processes do, which is to add no document but those of the synchronous calls.\<close>

lemma calls_stable:
  assumes "conc_inv P (set (h_inline s)) (as_conc cs s)" and "shared_inv s'" and "adds_inline s s'"
    and "cl_id ` set cs \<inter> set (h_inline s') = {}"
  shows "conc_inv P (set (h_inline s')) (as_conc cs s')"
proof -
  have k: "k_api (as_conc cs s) = h_api s" "k_calls (as_conc cs s) = cs" "(as_conc cs s)\<lparr>k_api := h_api s'\<rparr> = as_conc cs s'"
    by (simp_all add: as_conc_def)
  obtain new where new: "map row_key (documents (shared_db s')) = map row_key (documents (shared_db s)) @ new"
      "set (h_inline s') = set (h_inline s) \<union> fst ` set new" using assms(3) by (auto simp: adds_inline_def)
  have "conc_inv P (set (h_inline s')) (as_conc cs s)"
    using assms(1,4) new(2) unfolding conc_inv_def k by auto
  then have "conc_inv P (set (h_inline s')) ((as_conc cs s)\<lparr>k_api := h_api s'\<rparr>)"
    using assms(2,3) new by (intro environment_inv [where new = new]) (auto simp: k shared_inv_def shared_db_def adds_inline_def)
  then show ?thesis by (simp only: k)
qed

text \<open>A turn of a submission, for the others: a new document is one that nobody answers for yet.\<close>

lemma call_interferes:
  assumes "call_turn f (c, h_api s) = (c', a)" and inv: "conc_inv P (set (h_inline s)) (as_conc cs s)" and c: "c \<in> set cs"
    and "shared_inv s"
  shows "shared_inv (s\<lparr>h_api := a\<rparr>) \<and> interferes s (s\<lparr>h_api := a\<rparr>)"
proof -
  have P: "e_pg (sv_env (cl_servicer c)) = P" using inv c by (simp add: conc_inv_def as_conc_def)
  have kept: "wf_db (shared_db s)" "handed_over (shared_db s) (h_sent s)" using assms(4) by (simp_all add: shared_inv_def)
  have db: "api_db (h_api s) = shared_db s" "shared_db (s\<lparr>h_api := a\<rparr>) = api_db a" by (simp_all add: shared_db_def)
  have refl: "stays_closed jobs w w" "rows_persist ids w w" for jobs ids w by (auto simp: stays_closed_def rows_persist_def)
  have other: "cl_id c \<notin> set (h_inline s)" using inv c unfolding conc_inv_def as_conc_def by auto
  from assms(1) P show ?thesis
  proof (cases rule: call_turn_cases)
    case idle
    then show ?thesis using kept refl by (simp add: shared_inv_def interferes_def)
  next
    case (moved pc)
    then show ?thesis using kept refl by (simp add: shared_inv_def interferes_def db)
  next
    case (inserted key pc)
    have "uuid_str (cl_id c) \<notin> set (a_jobs (h_api s))"
    proof
      assume "uuid_str (cl_id c) \<in> set (a_jobs (h_api s))"
      then obtain d where d: "d \<in> set cs" "uuid_str (cl_id c) = uuid_str (cl_id d)" "handed (cl_pc d)"
        using inv unfolding conc_inv_def as_conc_def by (metis conc.select_convs)
      then have "cl_id c = cl_id d" by (metis option.inject py_uuid_str)
      moreover have "inj_on cl_id (set cs)" using inv by (simp add: conc_inv_def as_conc_def distinct_map)
      ultimately have "d = c" using d(1) c by (auto dest: inj_onD)
      then show False using d(3) inserted(1) by simp
    qed
    then have "uuid_str (cl_id c) \<notin> claimed s" using other by (auto simp: claimed_def dest!: arg_cong [of _ _ py_uuid] simp: py_uuid_str)
    then have "stays_closed (claimed s) (shared_db s) (api_db a)"
      using inserted(7) by (auto simp: stays_closed_def db queued_row_def)
    moreover have "rows_persist (set (h_inline s)) (shared_db s) (api_db a)" using inserted(7) by (auto simp: rows_persist_def db)
    moreover have "wf_db (api_db a)" using store_step_wf [OF inserted(8)] kept(1) by (simp add: db)
    ultimately show ?thesis using kept(2) inserted(3,9) by (simp add: shared_inv_def interferes_def db handed_over_def)
  next
    case (queued pc)
    then show ?thesis using kept refl by (auto simp: shared_inv_def interferes_def db)
  next
    case (rolled_back r)
    have "stays_closed (claimed s) (shared_db s) (api_db a)"
      by (auto simp: stays_closed_def rolled_back(3) db delete_document_def)
    moreover have "rows_persist (set (h_inline s)) (shared_db s) (api_db a)"
      using other by (auto simp: rows_persist_def rolled_back(3) db delete_document_def)
    moreover have "wf_db (api_db a)" using delete_wf [OF kept(1)] by (simp add: rolled_back(3) db)
    moreover have "outbox (api_db a) = outbox (shared_db s)" by (simp add: rolled_back(3) db delete_document_def)
    ultimately show ?thesis using kept(2) rolled_back(4) by (simp add: shared_inv_def interferes_def db handed_over_def)
  qed
qed

lemma call_turn_id: "call_turn f (c, a) = (c', a') \<Longrightarrow> cl_id c' = cl_id c"
  by (cases rule: call_turn_cases [OF _ refl, of f c a c' a']) simp_all

lemma call_advanced:
  assumes "advance call_on f n (cs, s) = (cs', s')" and "n < length cs" and "conc_inv P (set (h_inline s)) (as_conc cs s)"
    and "shared_inv s"
  shows "conc_inv P (set (h_inline s')) (as_conc cs' s') \<and> shared_inv s' \<and> interferes s s'
    \<and> map cl_id cs' = map cl_id cs \<and> h_inline s' = h_inline s"
proof -
  obtain c a where t: "call_turn f (cs ! n, h_api s) = (c, a)" by fastforce
  have r: "cs' = cs[n := c]" "s' = s\<lparr>h_api := a\<rparr>" using assms(1,2) t by (simp_all add: advance_def call_on_def)
  have "as_conc cs' s' = turn f n (as_conc cs s)" using assms(2) t by (simp add: turn_def as_conc_def r)
  then have "conc_inv P (set (h_inline s)) (as_conc cs' s')" using turned_inv [OF assms(3)] by simp
  moreover have "map cl_id cs' = map cl_id cs"
    using call_turn_id [OF t] by (simp add: r(1) map_update) (metis list_update_id map_update)
  ultimately show ?thesis using call_interferes [OF t assms(3) nth_mem [OF assms(2)] assms(4)] by (simp add: r(2))
qed

lemma apart_recorded:
  assumes "apart y"
  shows "set (h_inline (x_shared y)) \<subseteq> n_id ` set (x_inlines y)"
proof
  fix i assume "i \<in> set (h_inline (x_shared y))"
  then obtain n where "n \<in> set (x_inlines y)" "n_id n = i" using assms unfolding apart_def by blast
  then show "i \<in> n_id ` set (x_inlines y)" by auto
qed

text \<open>Whoever moves, the assertions of the others stay.\<close>

lemma plant_undisturbed:
  assumes "plant_inv P y" and "shared_inv s" and "interferes (x_shared y) s"
  shows "list_all (inline_ok P s) (x_inlines y)" and "list_all (try_ok P s) (x_tries y)"
    and "list_all (\<lambda>q. holds s (q_pc q)) (x_ticks y)"
  using assms(1) tries.undisturbed [OF _ _ assms(2,3)] ticks.undisturbed [OF _ _ assms(2,3)] inlines.undisturbed [OF _ _ assms(2,3)]
  by (simp_all add: plant_inv_def)

lemma plant_adds_nothing:
  assumes "plant_inv P y" and "shared_inv s" and "adds_nothing (x_shared y) s"
  shows "conc_inv P (set (h_inline s)) (as_conc (x_calls y) s)" and "apart (y\<lparr>x_shared := s\<rparr>)"
proof -
  have h: "h_inline s = h_inline (x_shared y)" using assms(3) by (simp add: adds_nothing_def)
  have c: "conc_inv P (set (h_inline (x_shared y))) (as_conc (x_calls y) (x_shared y))" using assms(1) by (simp add: plant_inv_def)
  then have "cl_id ` set (x_calls y) \<inter> set (h_inline s) = {}" unfolding h by (simp add: conc_inv_def as_conc_def)
  from calls_stable [OF c assms(2) adds_nothing_inline [OF assms(3)] this]
  show "conc_inv P (set (h_inline s)) (as_conc (x_calls y) s)" .
  show "apart (y\<lparr>x_shared := s\<rparr>)" using assms(1) by (simp add: plant_inv_def apart_def h)
qed

text \<open>A synchronous call before its insertion has an identifier that nobody answers for.\<close>

lemma plant_may_come:
  assumes "plant_inv P y" and n: "n \<in> set (x_inlines y)"
  shows "may_come (x_shared y) n"
  unfolding may_come_def
proof (intro impI notI)
  assume come: "n_pc n = Come" and "uuid_str (n_id n) \<in> claimed (x_shared y)"
  then consider "uuid_str (n_id n) \<in> set (a_jobs (h_api (x_shared y)))"
    | i where "i \<in> set (h_inline (x_shared y))" "uuid_str (n_id n) = uuid_str i" by (auto simp: claimed_def)
  then show False
  proof cases
    case 1
    then obtain c where c: "c \<in> set (x_calls y)" "uuid_str (n_id n) = uuid_str (cl_id c)"
      using assms(1) unfolding plant_inv_def conc_inv_def as_conc_def by (metis conc.select_convs)
    then have "n_id n = cl_id c" by (metis option.inject py_uuid_str)
    then show False using assms c(1) unfolding plant_inv_def apart_def by blast
  next
    case 2
    then have "n_id n = i" by (metis option.inject py_uuid_str)
    then obtain m where m: "m \<in> set (x_inlines y)" "n_id m = n_id n" "n_pc m \<noteq> Come"
      using 2(1) assms(1) unfolding plant_inv_def apart_def by blast
    have "inj_on n_id (set (x_inlines y))" using assms(1) by (simp add: plant_inv_def apart_def distinct_map)
    then have "m = n" using m n by (auto dest: inj_onD)
    then show False using m(3) come by simp
  qed
qed

lemma inline_turned_inv:
  assumes inv: "plant_inv P y" and n: "n < length (x_inlines y)"
  shows "plant_inv P (inline_at f n y)"
proof -
  let ?s = "x_shared y" and ?c = "x_inlines y ! n"
  obtain c s where t: "inline_on f (?c, ?s) = (c, s)" by fastforce
  define ns where "ns = (x_inlines y)[n := c]"
  have y': "inline_at f n y = y\<lparr>x_inlines := ns, x_shared := s\<rparr>" using t n by (simp add: inline_at_def advance_def ns_def)
  have sh: "shared_inv ?s" and oks: "list_all (inline_ok P ?s) (x_inlines y)" and ap: "apart y"
    and conc: "conc_inv P (set (h_inline ?s)) (as_conc (x_calls y) ?s)" using inv by (simp_all add: plant_inv_def)
  have ok: "inline_ok P ?s ?c" using oks n by (simp add: list_all_length)
  from inline_moved [OF t sh ok plant_may_come [OF inv nth_mem [OF n]]]
  have s: "shared_inv s" "adds_inline ?s s" "set (h_inline s) \<subseteq> insert (n_id ?c) (set (h_inline ?s))"
    and c: "c = ?c\<lparr>n_pc := n_pc c\<rparr>" "n_pc c \<noteq> Come" "inline_ok P s c" by simp_all
  have id: "n_id c = n_id ?c" using same_call [OF c(1)] by simp
  have ids: "map n_id ns = map n_id (x_inlines y)"
    unfolding ns_def map_update id by (metis list_update_id map_update)
  have i: "interferes ?s s" using s(2) by (simp add: adds_inline_def)
  note others = plant_undisturbed [OF inv s(1) i]
  have all: "list_all (inline_ok P s) ns"
    using others(1) c(3) by (auto simp: ns_def list_all_iff dest!: set_update_subset_insert [THEN subsetD])
  have "\<exists>m \<in> set ns. n_id m = j \<and> n_pc m \<noteq> Come" if j: "j \<in> set (h_inline s)" for j
  proof (cases "j = n_id ?c")
    case True
    moreover have "c \<in> set ns" using n by (simp add: ns_def set_update_memI)
    ultimately show ?thesis using c(2) id by metis
  next
    case False
    then have "j \<in> set (h_inline ?s)" using s(3) j by auto
    then obtain m where m: "m \<in> set (x_inlines y)" "n_id m = j" "n_pc m \<noteq> Come" using ap unfolding apart_def by blast
    then obtain k where k: "k < length (x_inlines y)" "x_inlines y ! k = m" by (auto simp: in_set_conv_nth)
    have "k \<noteq> n" using m(2) False k(2) by auto
    then have "ns ! k = m" using k(2) by (simp add: ns_def)
    then have "m \<in> set ns" using k(1) by (metis length_list_update ns_def nth_mem)
    then show ?thesis using m by blast
  qed
  moreover have "n_id ` set ns = n_id ` set (x_inlines y)" using ids by (metis list.set_map)
  ultimately have ap': "apart (y\<lparr>x_inlines := ns, x_shared := s\<rparr>)" using ap by (simp add: apart_def ids)
  then have "cl_id ` set (x_calls y) \<inter> set (h_inline s) = {}"
    using apart_recorded [OF ap'] by (auto simp: apart_def)
  from calls_stable [OF conc s(1,2) this] show ?thesis
    using s(1) all others(2,3) ap' by (simp add: y' plant_inv_def)
qed

lemma plant_step_inv:
  assumes "plant_step P y y'" and inv: "plant_inv P y"
  shows "plant_inv P y'"
proof -
  have conc: "conc_inv P (set (h_inline (x_shared y))) (as_conc (x_calls y) (x_shared y))" and sh: "shared_inv (x_shared y)"
    and oks: "list_all (inline_ok P (x_shared y)) (x_inlines y)" "list_all (try_ok P (x_shared y)) (x_tries y)"
      "list_all (\<lambda>q. holds (x_shared y) (q_pc q)) (x_ticks y)" and ap: "apart y"
    using inv by (simp_all add: plant_inv_def)
  note others = plant_undisturbed [OF inv] and quiet = plant_adds_nothing [OF inv]
  from assms(1) show ?thesis
  proof cases
    case (called c)
    have new: "cl_id c \<notin> cl_id ` set (x_calls y)" "cl_id c \<notin> n_id ` set (x_inlines y)" using called(4) by (simp_all add: identifiers_def)
    then have "cl_id c \<notin> set (h_inline (x_shared y))" using apart_recorded [OF ap] by blast
    then have "conc_inv P (set (h_inline (x_shared y))) (as_conc (x_calls y @ [c]) (x_shared y))"
      using arrived_inv [OF conc called(2,3)] new(1) by (simp add: as_conc_def)
    moreover have "apart y'" using ap new by (simp add: called(1) apart_def)
    ultimately show ?thesis using inv by (simp add: called(1) plant_inv_def)
  next
    case (asked n)
    have "apart y'" using ap asked(4) by (auto simp: asked(1) apart_def identifiers_def)
    moreover have "inline_ok P (x_shared y) n" using asked by (simp add: inline_ok_def)
    ultimately show ?thesis using inv by (simp add: asked(1) plant_inv_def)
  next
    case (started t)
    have "\<exists>i. t_job t = uuid_str i" using conc started(4) unfolding conc_inv_def as_conc_def by (metis conc.select_convs)
    then have "try_ok P (x_shared y) t" using started by (simp add: try_ok_def claimed_def)
    moreover have "apart y'" using ap by (simp add: started(1) apart_def)
    ultimately show ?thesis using inv by (simp add: started(1) plant_inv_def)
  next
    case (woken q)
    then show ?thesis using inv by (simp add: plant_inv_def apart_def)
  next
    case (due v)
    then show ?thesis using inv by (simp add: plant_inv_def apart_def)
  next
    case (call_turned n f)
    obtain cs s where t: "advance call_on f n (x_calls y, x_shared y) = (cs, s)" by fastforce
    have y': "y' = y\<lparr>x_calls := cs, x_shared := s\<rparr>" using t by (simp add: call_turned(1) call_at_def)
    from call_advanced [OF t call_turned(2) conc sh]
    have c: "conc_inv P (set (h_inline s)) (as_conc cs s)" "map cl_id cs = map cl_id (x_calls y)" "h_inline s = h_inline (x_shared y)"
      and s: "shared_inv s" "interferes (x_shared y) s" by blast+
    have "cl_id ` set cs = cl_id ` set (x_calls y)" using c(2) by (metis list.set_map)
    then have "apart y'" using ap c(3) by (simp add: y' apart_def)
    then show ?thesis using others [OF s] c(1) s(1) by (simp add: y' plant_inv_def)
  next
    case (inline_turned n f)
    then show ?thesis using inline_turned_inv [OF inv] by simp
  next
    case (try_turned n f)
    obtain ts s where t: "advance try_on f n (x_tries y, x_shared y) = (ts, s)" by fastforce
    have y': "y' = y\<lparr>x_tries := ts, x_shared := s\<rparr>" using t by (simp add: try_turned(1) try_at_def)
    from tries.advanced [OF t sh oks(2) try_turned(2)]
    have s: "shared_inv s" "adds_nothing (x_shared y) s" "list_all (try_ok P s) ts" by simp_all
    have "apart y'" using quiet(2) [OF s(1,2)] by (simp add: y' apart_def)
    then show ?thesis using quiet(1) others s adds_nothing_interferes by (simp add: y' plant_inv_def)
  next
    case (tick_turned n f)
    obtain qs s where t: "advance tick_on f n (x_ticks y, x_shared y) = (qs, s)" by fastforce
    have y': "y' = y\<lparr>x_ticks := qs, x_shared := s\<rparr>" using t by (simp add: tick_turned(1) tick_at_def)
    from ticks.advanced [OF t sh oks(3) tick_turned(2)]
    have s: "shared_inv s" "adds_nothing (x_shared y) s" "list_all (\<lambda>q. holds s (q_pc q)) qs" by simp_all
    have "apart y'" using quiet(2) [OF s(1,2)] by (simp add: y' apart_def)
    then show ?thesis using quiet(1) others s adds_nothing_interferes by (simp add: y' plant_inv_def)
  next
    case (sweep_turned n f)
    obtain vs s where t: "advance sweep_on f n (x_sweeps y, x_shared y) = (vs, s)" by fastforce
    have y': "y' = y\<lparr>x_sweeps := vs, x_shared := s\<rparr>" using t by (simp add: sweep_turned(1) sweep_at_def)
    have "list_all (\<lambda>_. True) (x_sweeps y)" by (simp add: list_all_iff)
    from sweeps.advanced [OF t sh this sweep_turned(2)]
    have s: "shared_inv s" "adds_nothing (x_shared y) s" by simp_all
    have "apart y'" using quiet(2) [OF s] by (simp add: y' apart_def)
    then show ?thesis using quiet(1) others s adds_nothing_interferes by (simp add: y' plant_inv_def)
  qed
qed

lemma plant_init_inv: "plant_inv P plant_init"
proof -
  have "as_conc [] (x_shared plant_init) = conc_init" by (simp add: as_conc_def plant_init_def conc_init_def)
  then have "conc_inv P F (as_conc (x_calls plant_init) (x_shared plant_init))" for F using init_inv by (simp add: plant_init_def)
  moreover have "shared_db (x_shared plant_init) = db_init" by (simp add: plant_init_def shared_db_def api_db_def)
  then have "shared_inv (x_shared plant_init)"
    by (simp add: shared_inv_def db_init_wf) (simp add: handed_over_def db_init_def)
  ultimately show ?thesis by (simp add: plant_inv_def) (simp add: plant_init_def apart_def)
qed

lemma plant_steps_inv: "(plant_step P)\<^sup>*\<^sup>* plant_init y \<Longrightarrow> plant_inv P y"
  by (induction rule: rtranclp_induct) (auto intro: plant_init_inv plant_step_inv)

subsection \<open>What every reachable state promises\<close>

lemma settled_row_event:
  assumes "wf_db w" and "closed (Some (d_id r)) w" and "r \<in> set (documents w)"
  shows "d_status r \<in> set terminal_statuses \<and> d_id r \<in> o_aggregate_id ` set (outbox w)"
proof -
  have "d_status r \<in> set terminal_statuses" using assms(2,3) by (simp add: closed_def open_row_def)
  then show ?thesis using settled_event [OF assms(1,3)] by simp
qed

text \<open>The synchronous calls that replied for their own document, and the documents a key was given to.\<close>

fun replied :: "inline_pc \<Rightarrow> bool" where
  "replied (Answered (Inr m)) = True"
| "replied pc = False"

fun accepted :: "submit_pc \<Rightarrow> bool" where
  "accepted (Done (Inr m)) = True"
| "accepted pc = False"

definition given :: "plant \<Rightarrow> pystr \<Rightarrow> uuid \<Rightarrow> bool" where
  "given y key i \<longleftrightarrow>
     (\<exists>c \<in> set (x_calls y). cl_id c = i \<and> rq_idempotency_key (cl_request c) = key \<and> accepted (cl_pc c))
     \<or> (\<exists>n \<in> set (x_inlines y). n_id n = i \<and> rq_idempotency_key (n_request n) = key \<and> replied (n_pc n))"

lemma replied_ok:
  assumes "inline_ok P s n" and "n_pc n = Answered (Inr m)"
  shows "rs_document_id m = uuid_str (n_id n)" and "rs_status m \<in> settled_status"
    and "closed (Some (n_id n)) (shared_db s)" and "keyed P (shared_db s) n"
  using assms by (simp_all add: inline_ok_def)

lemma keyed_row:
  assumes "keyed P w n"
  shows "\<exists>r \<in> set (documents w). d_id r = n_id n \<and> pg_uuid P (rq_idempotency_key (n_request n)) = Some (d_key r)"
  using assms by (auto simp: keyed_def row_key_def)

lemma given_row:
  assumes inv: "plant_inv P y" and "given y key i"
  shows "\<exists>r \<in> set (documents (plant_db y)). d_id r = i \<and> pg_uuid P key = Some (d_key r)"
  using assms(2) unfolding given_def
proof (elim disjE bexE conjE)
  fix c assume c: "c \<in> set (x_calls y)" "cl_id c = i" "rq_idempotency_key (cl_request c) = key" "accepted (cl_pc c)"
  then obtain m where "cl_pc c = Done (Inr m)" by (cases "cl_pc c" rule: accepted.cases) auto
  moreover have "conc_inv P (set (h_inline (x_shared y))) (as_conc (x_calls y) (x_shared y))" using inv by (simp add: plant_inv_def)
  ultimately have "with_row P (plant_db y) c" using conc_answered c(1) by (force simp: as_conc_def plant_db_def shared_db_def)
  then show ?thesis using c by (simp add: with_row_def)
next
  fix n assume n: "n \<in> set (x_inlines y)" "n_id n = i" "rq_idempotency_key (n_request n) = key" "replied (n_pc n)"
  then obtain m where "n_pc n = Answered (Inr m)" by (cases "n_pc n" rule: replied.cases) auto
  moreover have "inline_ok P (x_shared y) n" using inv n(1) by (simp add: plant_inv_def list_all_iff)
  ultimately show ?thesis using keyed_row [OF replied_ok(4)] n(2,3) by (metis plant_db_def)
qed

lemma given_once:
  assumes inv: "plant_inv P y" and "given y key i" and "given y key j"
  shows "i = j"
proof -
  obtain r where r: "r \<in> set (documents (plant_db y))" "d_id r = i" "pg_uuid P key = Some (d_key r)"
    using given_row [OF inv assms(2)] by blast
  obtain q where q: "q \<in> set (documents (plant_db y))" "d_id q = j" "pg_uuid P key = Some (d_key q)"
    using given_row [OF inv assms(3)] by blast
  have "wf_db (plant_db y)" using inv by (simp add: plant_inv_def shared_inv_def plant_db_def)
  then have "inj_on d_key (set (documents (plant_db y)))" by (simp add: wf_db_def distinct_map)
  then show ?thesis using r q by (auto dest: inj_onD)
qed

lemma reply_settled:
  assumes inv: "plant_inv P y" and n: "n \<in> set (x_inlines y)" "n_pc n = Answered (Inr m)"
  shows "rs_document_id m = uuid_str (n_id n) \<and> rs_status m \<in> settled_status
    \<and> (\<exists>r \<in> set (documents (plant_db y)). d_id r = n_id n \<and> d_status r \<in> set terminal_statuses
          \<and> d_id r \<in> o_aggregate_id ` set (outbox (plant_db y)))"
proof -
  have ok: "inline_ok P (x_shared y) n" using inv n(1) by (simp add: plant_inv_def list_all_iff)
  note m = replied_ok [OF ok n(2)]
  obtain r where r: "r \<in> set (documents (plant_db y))" "d_id r = n_id n"
    using keyed_row [OF m(4)] by (auto simp: plant_db_def)
  have "wf_db (plant_db y)" using inv by (simp add: plant_inv_def shared_inv_def plant_db_def)
  moreover have "closed (Some (d_id r)) (plant_db y)" using m(3) r(2) by (simp add: plant_db_def)
  ultimately show ?thesis using settled_row_event r m(1,2) by blast
qed

text \<open>A document without a job is the business of a submission that is not finished, or of a synchronous call.\<close>

lemma plant_without_job:
  assumes inv: "plant_inv P y" and r: "r \<in> set (documents (plant_db y))" "uuid_str (d_id r) \<notin> set (a_jobs (h_api (x_shared y)))"
  shows "(\<exists>c \<in> set (x_calls y). cl_id c = d_id r \<and> unfinished (cl_pc c))
    \<or> (\<exists>n \<in> set (x_inlines y). n_id n = d_id r \<and> n_pc n \<noteq> Come \<and> (replied (n_pc n) \<longrightarrow> \<not> open_row r))"
proof (cases "d_id r \<in> set (h_inline (x_shared y))")
  case False
  have "conc_inv P (set (h_inline (x_shared y))) (as_conc (x_calls y) (x_shared y))" using inv by (simp add: plant_inv_def)
  from conc_without_job [OF this, of r] r False show ?thesis by (simp add: as_conc_def plant_db_def shared_db_def)
next
  case True
  then obtain n where n: "n \<in> set (x_inlines y)" "n_id n = d_id r" "n_pc n \<noteq> Come"
    using inv unfolding plant_inv_def apart_def by blast
  have "\<not> open_row r" if rep: "replied (n_pc n)"
  proof -
    obtain m where "n_pc n = Answered (Inr m)" using rep by (cases "n_pc n" rule: replied.cases) auto
    moreover have "inline_ok P (x_shared y) n" using inv n(1) by (simp add: plant_inv_def list_all_iff)
    ultimately have "closed (Some (d_id r)) (plant_db y)" using replied_ok(3) n(2) by (metis plant_db_def)
    then show ?thesis using r(1) by (simp add: closed_def)
  qed
  with n show ?thesis by blast
qed

text \<open>
  Property C2: whatever the interleaving of the statements of submissions, synchronous calls, tries, ticks and
  sweeps, and whichever of them lose their connection, with or without effect: a try that ended normally has
  left its document settled and announced, and it stays so; a submission answered QUEUED has its row under its
  key and its job; a synchronous call that replied for its document did so with a settled status, and the document is
  there, settled and announced; no key was given to two documents by either kind of call; a document without a job belongs to a
  submission that is not finished or did not end with an answer, or to a synchronous call, and once that
  has replied it is not open; every event marked published was handed to the producer, and the
  database is well formed.
\<close>

theorem interleaved_statements_safe:
  assumes "(plant_step P)\<^sup>*\<^sup>* plant_init y"
  shows "(if t \<in> set (x_tries y) \<and> t_pc t = Ended (Inr ()) \<and> r \<in> set (documents (plant_db y)) \<and> uuid_str (d_id r) = t_job t
       then d_status r \<in> set terminal_statuses \<and> d_id r \<in> o_aggregate_id ` set (outbox (plant_db y)) else True)
    \<and> (if c \<in> set (x_calls y) \<and> cl_pc c = Done (Inr m)
       then m = queued_answer c \<and> with_row P (plant_db y) c \<and> uuid_str (cl_id c) \<in> set (a_jobs (h_api (x_shared y))) else True)
    \<and> (if n \<in> set (x_inlines y) \<and> n_pc n = Answered (Inr a)
       then rs_document_id a = uuid_str (n_id n) \<and> rs_status a \<in> settled_status
         \<and> (\<exists>r \<in> set (documents (plant_db y)). d_id r = n_id n \<and> d_status r \<in> set terminal_statuses
              \<and> d_id r \<in> o_aggregate_id ` set (outbox (plant_db y))) else True)
    \<and> (if given y key i \<and> given y key j then i = j else True)
    \<and> (if r \<in> set (documents (plant_db y)) \<and> uuid_str (d_id r) \<notin> set (a_jobs (h_api (x_shared y)))
       then (\<exists>c \<in> set (x_calls y). cl_id c = d_id r \<and> unfinished (cl_pc c))
         \<or> (\<exists>n \<in> set (x_inlines y). n_id n = d_id r \<and> n_pc n \<noteq> Come \<and> (replied (n_pc n) \<longrightarrow> \<not> open_row r)) else True)
    \<and> handed_over (plant_db y) (h_sent (x_shared y)) \<and> wf_db (plant_db y)"
proof -
  let ?s = "x_shared y"
  have inv: "plant_inv P y" by (rule plant_steps_inv [OF assms])
  then have conc: "conc_inv P (set (h_inline ?s)) (as_conc (x_calls y) ?s)"
    and sh: "wf_db (plant_db y)" "handed_over (plant_db y) (h_sent ?s)"
    by (simp_all add: plant_inv_def shared_inv_def plant_db_def)
  have k: "k_calls (as_conc (x_calls y) ?s) = x_calls y" "k_api (as_conc (x_calls y) ?s) = h_api ?s"
      "api_db (h_api ?s) = plant_db y" by (simp_all add: as_conc_def plant_db_def shared_db_def)
  have settled: "d_status r \<in> set terminal_statuses \<and> d_id r \<in> o_aggregate_id ` set (outbox (plant_db y))"
    if t: "t \<in> set (x_tries y)" "t_pc t = Ended (Inr ())" and r: "r \<in> set (documents (plant_db y))" "uuid_str (d_id r) = t_job t"
  proof -
    have "try_ok P ?s t" using inv t(1) by (simp add: plant_inv_def list_all_iff)
    then have "closed (py_uuid (uuid_str (d_id r))) (plant_db y)" using t(2) r(2) by (simp add: try_ok_def plant_db_def)
    then show ?thesis using settled_row_event [OF sh(1) _ r(1)] by (simp add: py_uuid_str)
  qed
  show ?thesis
    by (intro conjI) (use settled in simp, use conc_answered [OF conc, unfolded k] in simp, use reply_settled [OF inv, of n a] in simp,
      use given_once [OF inv, of key i j] in simp, use plant_without_job [OF inv, of r] in simp, simp_all add: sh)
qed

definition demo_try :: job_try where
  "demo_try = \<lparr>t_env = gone_env, t_now = 200, t_stamp1 = demo_stamp, t_stamp2 = demo_stamp, t_job = uuid_str 7,
     t_tmp = None, t_pc = Starting\<rparr>"

definition demo_called :: plant where
  "demo_called = \<lparr>x_calls = [demo_answered], x_inlines = [], x_tries = [], x_ticks = [], x_sweeps = [],
     x_shared = \<lparr>h_api = demo_api, h_sent = [], h_ok = 0, h_failed = 0, h_inline = []\<rparr>\<rparr>"

definition demo_tried :: plant where
  "demo_tried = (try_at None 0 ^^ 5) (demo_called\<lparr>x_tries := [demo_try]\<rparr>)"

lemma demo_try_run: "\<exists>w. process_document gone_env 200 demo_stamp demo_stamp (uuid_str 7) (a_world demo_api) = (w, Inr ())
    \<and> map d_id (documents (w_db w)) = [7]"
proof -
  let ?p = "process_document gone_env 200 demo_stamp demo_stamp (uuid_str 7) (a_world demo_api)"
  have "snd ?p = Inr ()" by code_simp
  then have p: "?p = (fst ?p, Inr ())" by (metis prod.collapse)
  have "map d_id (documents (w_db (a_world demo_api))) = [7]"
    by (simp add: demo_api_def demo_stored_def queued_row_def api_db_world [symmetric])
  with process_ids [OF p] show ?thesis using p by metis
qed

lemma demo_reaches_called: "(plant_step (e_pg strict_env))\<^sup>*\<^sup>* plant_init demo_called"
proof -
  let ?y = "plant_init\<lparr>x_calls := [demo_call demo_servicer 7]\<rparr>"
  have "plant_step (e_pg strict_env) plant_init (plant_init\<lparr>x_calls := x_calls plant_init @ [demo_call demo_servicer 7]\<rparr>)"
    by (rule plant_step.called) (simp_all add: demo_call_def plant_init_def identifiers_def)
  then have 1: "plant_step (e_pg strict_env) plant_init ?y" by (simp add: plant_init_def)
  have 2: "call_at None 0 (call_at None 0 ?y) = demo_called"
  proof -
    obtain c a where t: "submit_turn (demo_call demo_servicer 7, api_init) = (c, a)" by fastforce
    then have "submit_turn (c, a) = (demo_answered, demo_api)" using demo_turns by (simp add: numeral_2_eq_2)
    then show ?thesis
      by (simp add: call_at_def advance_def call_on_def call_turn_def plant_init_def t demo_called_def)
  qed
  have "plant_step (e_pg strict_env) ?y (call_at None 0 ?y)" by (rule plant_step.call_turned) simp
  moreover have "plant_step (e_pg strict_env) (call_at None 0 ?y) (call_at None 0 (call_at None 0 ?y))"
    by (rule plant_step.call_turned) (simp add: call_at_def advance_def split: prod.split)
  ultimately show ?thesis using 1 unfolding 2 by (meson rtranclp.rtrancl_into_rtrancl rtranclp.rtrancl_refl)
qed

lemma try_at_steps: "x_tries y \<noteq> [] \<Longrightarrow> (plant_step P)\<^sup>*\<^sup>* y ((try_at None 0 ^^ n) y)"
proof (induction n)
  case (Suc n)
  have "length (x_tries ((try_at None 0 ^^ n) y)) = length (x_tries y)" for n
    by (induction n) (auto simp: try_at_def advance_def split: prod.split)
  then have "plant_step P ((try_at None 0 ^^ n) y) (try_at None 0 ((try_at None 0 ^^ n) y))"
    using Suc.prems by (intro plant_step.try_turned) simp
  then show ?case using Suc by (simp add: rtranclp.rtrancl_into_rtrancl)
qed simp

definition demo_inline :: inline_call where
  "demo_inline = \<lparr>n_servicer = demo_servicer\<lparr>sv_env := gone_env\<rparr>, n_context = demo_context, n_now = 100, n_id = 7,
     n_drawn = (200, demo_stamp, demo_stamp, demo_stamp), n_request = demo_request, n_pc = Come\<rparr>"

definition demo_replied :: plant where
  "demo_replied = (inline_at None 0 ^^ 9) (plant_init\<lparr>x_inlines := [demo_inline]\<rparr>)"

lemma inline_at_steps: "x_inlines y \<noteq> [] \<Longrightarrow> (plant_step P)\<^sup>*\<^sup>* y ((inline_at None 0 ^^ n) y)"
proof (induction n)
  case (Suc n)
  have "length (x_inlines ((inline_at None 0 ^^ n) y)) = length (x_inlines y)" for n
    by (induction n) (auto simp: inline_at_def advance_def split: prod.split)
  then have "plant_step P ((inline_at None 0 ^^ n) y) (inline_at None 0 ((inline_at None 0 ^^ n) y))"
    using Suc.prems by (intro plant_step.inline_turned) simp
  then show ?case using Suc by (simp add: rtranclp.rtrancl_into_rtrancl)
qed simp

lemma demo_inline_result:
  "case ProcessDocument (n_servicer demo_inline) demo_context 100 7 (200, demo_stamp, demo_stamp, demo_stamp) demo_request api_init of
     (a, Inr m) \<Rightarrow> length (documents (api_db a)) = 1 | (a, Inl e) \<Rightarrow> False"
  by code_simp

lemma demo_reaches_replied:
  "(plant_step (e_pg strict_env))\<^sup>*\<^sup>* plant_init demo_replied
   \<and> (\<exists>n a. x_inlines demo_replied = [n] \<and> n_pc n = Answered (Inr a))"
proof -
  have "plant_step (e_pg strict_env) plant_init (plant_init\<lparr>x_inlines := x_inlines plant_init @ [demo_inline]\<rparr>)"
    by (rule plant_step.asked) (simp_all add: demo_inline_def gone_env_def plant_init_def identifiers_def)
  then have 1: "plant_step (e_pg strict_env) plant_init (plant_init\<lparr>x_inlines := [demo_inline]\<rparr>)" by (simp add: plant_init_def)
  have 2: "(plant_step (e_pg strict_env))\<^sup>*\<^sup>* (plant_init\<lparr>x_inlines := [demo_inline]\<rparr>) demo_replied"
    unfolding demo_replied_def by (rule inline_at_steps) simp
  let ?y = "plant_init\<lparr>x_inlines := [demo_inline]\<rparr>"
  have come: "demo_inline\<lparr>n_pc := Come\<rparr> = demo_inline" by (simp only: demo_inline_def inline_call.update_convs)
  obtain n a where t: "(inline_turn ^^ 9) (demo_inline, h_api (x_shared plant_init)) = (n, a)" by fastforce
  have "x_inlines ?y = [demo_inline]" by simp
  from inline_at_alone [OF this, of 9] t have n: "x_inlines demo_replied = [n]" by (auto simp: demo_replied_def)
  have api: "h_api (x_shared plant_init) = api_init" "api_db api_init = db_init" by (simp_all add: plant_init_def api_db_def)
  obtain r where r: "result (n_pc n) = Some r" "with_document (n_pc n) \<or> api_db a = db_init"
      "ProcessDocument (n_servicer demo_inline) demo_context 100 7 (200, demo_stamp, demo_stamp, demo_stamp) demo_request api_init = (a, r)"
    using inline_turns [where c = demo_inline and a = api_init] t unfolding come api by (auto simp: demo_inline_def)
  obtain m where m: "r = Inr m" "length (documents (api_db a)) = 1"
    using demo_inline_result unfolding r(3) by (cases r) auto
  then have "api_db a \<noteq> db_init" by (auto simp: db_init_def)
  then have "n_pc n = Answered (Inr m)" using r(1,2) m(1) by (cases "n_pc n") auto
  then show ?thesis using n 1 2 by (auto intro: converse_rtranclp_into_rtranclp)
qed

theorem interleaved_statements_safe_witness:
  "(\<exists>r. documents (plant_db demo_tried) = [r] \<and> d_status r \<in> set terminal_statuses)
   \<and> (\<exists>n a r. x_inlines demo_replied = [n] \<and> n_pc n = Answered (Inr a) \<and> rs_status a \<in> settled_status
        \<and> r \<in> set (documents (plant_db demo_replied)) \<and> d_id r = n_id n \<and> d_status r \<in> set terminal_statuses)"
proof -
  obtain n a where n: "x_inlines demo_replied = [n]" "n_pc n = Answered (Inr a)"
    and reached: "(plant_step (e_pg strict_env))\<^sup>*\<^sup>* plant_init demo_replied" using demo_reaches_replied by blast
  have "n \<in> set (x_inlines demo_replied)" using n(1) by simp
  then have sync: "\<exists>n a r. x_inlines demo_replied = [n] \<and> n_pc n = Answered (Inr a) \<and> rs_status a \<in> settled_status
      \<and> r \<in> set (documents (plant_db demo_replied)) \<and> d_id r = n_id n \<and> d_status r \<in> set terminal_statuses"
    using conjunct1 [OF conjunct2 [OF conjunct2 [OF interleaved_statements_safe [OF reached, of demo_try demo_row _ _ n a]]]] n
    by auto
  obtain w where p: "process_document gone_env 200 demo_stamp demo_stamp (uuid_str 7) (a_world demo_api) = (w, Inr ())"
      and ids: "map d_id (documents (w_db w)) = [7]" by (rule exE [OF demo_try_run]) (elim conjE, rule that)
  let ?t = "demo_try\<lparr>t_tmp := None, t_pc := Ended (Inr ())\<rparr>"
  have t: "demo_try\<lparr>t_tmp := None, t_pc := Starting\<rparr> = demo_try" by (simp only: demo_try_def job_try.update_convs)
  have sel: "t_env demo_try = gone_env" "t_now demo_try = 200" "t_stamp1 demo_try = demo_stamp"
      "t_stamp2 demo_try = demo_stamp" "t_job demo_try = uuid_str 7" by (simp_all add: demo_try_def)
  have run: "(try_turn ^^ 5) (demo_try, a_world demo_api) = (?t, w)"
    using try_turns [of demo_try "a_world demo_api"] by (simp only: t sel p prod.case)
  have tried: "demo_tried = demo_called\<lparr>x_tries := [?t], x_shared := (x_shared demo_called)\<lparr>h_api := demo_api\<lparr>a_world := w\<rparr>\<rparr>\<rparr>"
    using try_at_alone [of "demo_called\<lparr>x_tries := [demo_try]\<rparr>" demo_try 5] run
    by (simp add: demo_tried_def) (simp add: demo_called_def)
  have "plant_step (e_pg strict_env) demo_called (demo_called\<lparr>x_tries := x_tries demo_called @ [demo_try]\<rparr>)"
    by (rule plant_step.started) (simp_all add: demo_try_def gone_env_def demo_called_def demo_api_def)
  then have "plant_step (e_pg strict_env) demo_called (demo_called\<lparr>x_tries := [demo_try]\<rparr>)" by (simp add: demo_called_def)
  moreover have "(plant_step (e_pg strict_env))\<^sup>*\<^sup>* (demo_called\<lparr>x_tries := [demo_try]\<rparr>) demo_tried"
    unfolding demo_tried_def by (rule try_at_steps) simp
  ultimately have "(plant_step (e_pg strict_env))\<^sup>*\<^sup>* plant_init demo_tried"
    using demo_reaches_called by (meson rtranclp.rtrancl_into_rtrancl rtranclp_trans)
  note safe = interleaved_statements_safe [OF this, of ?t]
  have docs: "documents (plant_db demo_tried) = documents (w_db w)"
    by (simp add: tried plant_db_def shared_db_def api_db_def)
  obtain r where r: "documents (w_db w) = [r]" "d_id r = 7" using ids by auto
  have "?t \<in> set (x_tries demo_tried)" "t_job ?t = uuid_str (d_id r)" by (simp_all add: tried r(2)) (simp add: demo_try_def)
  moreover have d: "documents (plant_db demo_tried) = [r]" using docs r(1) by simp
  moreover have "t_pc ?t = Ended (Inr ())" by simp
  ultimately have "d_status r \<in> set terminal_statuses"
    using conjunct1 [OF safe [of r]] by (simp only: list.set_intros simp_thms if_True)
  with d sync show ?thesis by blast
qed

end
