(* ===== verification/Ocr_Progress.thy ===== *)
theory Ocr_Progress
  imports Ocr_Concurrent
begin

text \<open>
  The processes of the service end: a measure of what each has left to do, which every statement decreases,
  whoever else runs in between and whether the statement fails or not.
\<close>

subsection \<open>Families that make progress\<close>

text \<open>A member with nothing left to do does nothing; a statement of any other leaves it less.\<close>

locale progressing =
  fixes inv :: "'s \<Rightarrow> bool" and work :: "'p \<Rightarrow> nat" and move :: "'f \<Rightarrow> 'p \<times> 's \<Rightarrow> 'p \<times> 's"
  assumes falls: "inv s \<Longrightarrow> 0 < work p \<Longrightarrow> work (fst (move f (p, s))) < work p"
    and rests: "work p = 0 \<Longrightarrow> move f (p, s) = (p, s)"
begin

lemma advance_le:
  assumes "inv s" and "m < length ps"
  shows "work (fst (advance move f n (ps, s)) ! m) \<le> work (ps ! m) \<and> m < length (fst (advance move f n (ps, s)))"
proof (cases "m = n \<and> 0 < work (ps ! m)")
  case True
  then show ?thesis using falls [OF assms(1), of "ps ! m" f] assms(2) by (simp add: advance_def less_imp_le split: prod.split) fastforce
next
  case False
  then show ?thesis using assms(2) rests [of "ps ! m" f s] by (auto simp: advance_def nth_list_update split: prod.split)
qed

lemma advance_falls:
  "inv s \<Longrightarrow> n < length ps \<Longrightarrow> 0 < work (ps ! n) \<Longrightarrow> work (fst (advance move f n (ps, s)) ! n) < work (ps ! n)"
  using falls [of s "ps ! n" f] by (simp add: advance_def split: prod.split) fastforce

lemma advance_rests: "n < length ps \<Longrightarrow> work (ps ! n) = 0 \<Longrightarrow> advance move f n (ps, s) = (ps, s)"
  by (simp add: advance_def rests)

end

subsection \<open>What a process has left to do\<close>

fun call_work :: "submit_pc \<Rightarrow> nat" where
  "call_work Arrived = 3"
| "call_work Inserted = 2"
| "call_work Refused = 1"
| "call_work Enqueue_failed = 1"
| "call_work (Done r) = 0"

fun try_work :: "try_pc \<Rightarrow> nat" where
  "try_work Starting = 5"
| "try_work (Known doc) = 4"
| "try_work (Marked doc) = 3"
| "try_work (Completing doc res status) = 2"
| "try_work (Failing doc code message out) = 1"
| "try_work (Ended r) = 0"

text \<open>A synchronous call has its pipeline before it.\<close>

fun inline_work :: "inline_pc \<Rightarrow> nat" where
  "inline_work Come = 9"
| "inline_work Known_key = 1"
| "inline_work (Inside t) = 3 + try_work (t_pc t)"
| "inline_work Cancelling = 2"
| "inline_work (Marking doc) = 1"
| "inline_work Reading = 1"
| "inline_work (Turned_away r) = 0"
| "inline_work (Answered r) = 0"

text \<open>A tick has two statements for each event, of which it claims no more than its batch.\<close>

fun tick_work :: "nat \<Rightarrow> tick_pc \<Rightarrow> nat" where
  "tick_work batch Polling = 2 * batch + 2"
| "tick_work batch (Producing rows n) = 2 * length rows + 1"
| "tick_work batch (Handed m row rows n) = 2 * length rows + 2"
| "tick_work batch (Ticked r) = 0"

fun sweep_work :: "sweep_pc \<Rightarrow> nat" where
  "sweep_work Listing = 2"
| "sweep_work (Purging ids) = 1"
| "sweep_work (Swept r) = 0"

lemma call_progress:
  "0 < call_work (cl_pc c) \<Longrightarrow> call_work (cl_pc (fst (call_turn f (c, a)))) < call_work (cl_pc c)"
  by (cases "cl_pc c"; cases f)
    (auto simp: call_turn_def submit_turn_def submit_fault_def ends_def Let_def
      split: option.splits sum.splits prod.splits exn.splits)

lemma caught_work [simp]: "try_work (t_pc (fst (caught doc e x))) < 2" "try_work (t_pc (fst (caught doc e x))) < 3"
  by (auto simp: caught_def leave_def split: prod.splits option.splits)

lemma left_work [simp]: "t_pc (fst (leave r x)) = Ended r"
  by (cases x) (simp add: leave_def)

lemma try_progress:
  "0 < try_work (t_pc t) \<Longrightarrow> try_work (t_pc (fst (try_move f (t, w)))) < try_work (t_pc t)"
  by (cases "t_pc t"; cases f)
    (auto simp: try_move_def try_turn_def try_fault_def Let_def split: option.splits sum.splits prod.splits)

lemma inner_work [simp]: "try_work (t_pc (inner_try c)) = 5"
  by (simp add: inner_try_def split: prod.split)

lemma over_work [simp]: "n_pc (fst (cancelled c a)) = Answered (Inl (Raised CancelledError))"
  by (simp add: cancelled_def)

lemma inside_progress:
  assumes "n_pc c = Inside t"
  shows "inline_work (n_pc (fst (inline_move f (c, a)))) < inline_work (n_pc c)"
proof (cases "try_work (t_pc t) = 0")
  case True
  then obtain r where "t_pc t = Ended r" by (cases "t_pc t") auto
  then show ?thesis using assms
    by (cases f; cases r) (auto simp: inline_move_def inline_turn_def inline_fault_def Let_def split: exn.splits)
next
  case False
  obtain t' w where m: "try_move f (t, a_world a) = (t', w)" by fastforce
  have "inline_move f (c, a) = (c\<lparr>n_pc := Inside t'\<rparr>, a\<lparr>a_world := w\<rparr>)"
    using assms False m
    by (cases f; cases "t_pc t") (auto simp: inline_move_def inline_turn_def inline_fault_def try_move_def Let_def)
  then show ?thesis using try_progress [of t f "a_world a"] assms m False by simp
qed

lemma inline_progress:
  assumes "0 < inline_work (n_pc c)"
  shows "inline_work (n_pc (fst (inline_move f (c, a)))) < inline_work (n_pc c)"
proof (cases "n_pc c")
  case (Inside t)
  then show ?thesis by (rule inside_progress)
qed (use assms in \<open>cases f;
  auto simp: inline_move_def inline_turn_def inline_fault_def Let_def split: option.splits sum.splits prod.splits\<close>)+

lemma tick_progress:
  assumes "0 < tick_work (q_batch q) (q_pc q)" and "distinct (map o_id (outbox (p_db p)))"
  shows "tick_work (q_batch q) (q_pc (fst (tick_move f (q, p)))) < tick_work (q_batch q) (q_pc q)"
proof (cases "f = None \<and> q_pc q = Polling")
  case True
  obtain w rows where c: "claim_pending_outbox (q_worker q) (q_now q) (q_batch q) (p_db p) = (w, rows)" by fastforce
  have "length rows \<le> q_batch q" using claim_takes_oldest [OF c assms(2)] by simp
  then show ?thesis using True by (simp add: tick_move_def tick_turn_def c)
next
  case False
  then show ?thesis using assms(1)
    by (cases f; cases "(q_batch q, q_pc q)" rule: tick_work.cases)
      (auto simp: tick_move_def tick_fault_def tick_turn_def Let_def split: list.splits sum.splits option.splits)
qed

lemma tick_batch [simp]: "q_batch (fst (tick_move f (q, p))) = q_batch q"
  by (cases f; cases "q_pc q") (auto simp: tick_move_def tick_fault_def tick_turn_def Let_def split: list.splits sum.splits option.splits prod.splits)

lemma sweep_progress:
  "0 < sweep_work (v_pc v) \<Longrightarrow> sweep_work (v_pc (fst (sweep_move f (v, w)))) < sweep_work (v_pc v)"
  by (cases f; cases "v_pc v") (auto simp: sweep_move_def sweep_turn_def Let_def)

text \<open>The families of the service.\<close>

interpretation calls: progressing "\<lambda>_. True" "\<lambda>c :: submit_call. call_work (cl_pc c)" call_on
proof
  fix c :: submit_call and f s assume "0 < call_work (cl_pc c)"
  from call_progress [OF this] show "call_work (cl_pc (fst (call_on f (c, s)))) < call_work (cl_pc c)"
    by (simp add: call_on_def split: prod.split) (metis fst_conv)
next
  fix c :: submit_call and f s assume "call_work (cl_pc c) = 0"
  then obtain r where "cl_pc c = Done r" by (cases "cl_pc c") auto
  then show "call_on f (c, s) = (c, s)"
    by (cases f) (simp_all add: call_on_def call_turn_def submit_turn_def submit_fault_def Let_def)
qed

interpretation inlines_end: progressing "\<lambda>_. True" "\<lambda>n :: inline_call. inline_work (n_pc n)" inline_on
proof
  fix c :: inline_call and f s assume "0 < inline_work (n_pc c)"
  from inline_progress [OF this] show "inline_work (n_pc (fst (inline_on f (c, s)))) < inline_work (n_pc c)"
    by (simp add: inline_on_def split: prod.split) (metis fst_conv)
next
  fix c :: inline_call and f s assume "inline_work (n_pc c) = 0"
  then show "inline_on f (c, s) = (c, s)"
    by (cases "n_pc c"; cases f) (simp_all add: inline_on_def inline_move_def inline_turn_def inline_fault_def Let_def)
qed

interpretation tries_end: progressing "\<lambda>_. True" "\<lambda>t :: job_try. try_work (t_pc t)" try_on
proof
  fix t :: job_try and f s assume "0 < try_work (t_pc t)"
  from try_progress [OF this] show "try_work (t_pc (fst (try_on f (t, s)))) < try_work (t_pc t)"
    by (simp add: try_on_def split: prod.split) (metis fst_conv)
next
  fix t :: job_try and f s assume "try_work (t_pc t) = 0"
  then show "try_on f (t, s) = (t, s)"
    by (cases "t_pc t"; cases f) (simp_all add: try_on_def try_move_def try_turn_def try_fault_def Let_def)
qed

lemma set_same_db [simp]: "set_db (shared_db s) (h_api s) = h_api s"
  by (simp add: set_db_def shared_db_def api_db_def)

interpretation ticks_end: progressing "\<lambda>s. distinct (map o_id (outbox (shared_db s)))" "\<lambda>q :: tick. tick_work (q_batch q) (q_pc q)" tick_on
proof
  fix s f and q :: tick assume d: "distinct (map o_id (outbox (shared_db s)))" and w: "0 < tick_work (q_batch q) (q_pc q)"
  have q: "fst (tick_on f (q, s)) = fst (tick_move f (q, publishing s))"
    by (simp add: tick_on_def publishing_def Let_def split: prod.split)
  show "tick_work (q_batch (fst (tick_on f (q, s)))) (q_pc (fst (tick_on f (q, s)))) < tick_work (q_batch q) (q_pc q)"
    unfolding q tick_batch using tick_progress [OF w, of "publishing s" f] d by simp
next
  fix s f and q :: tick assume "tick_work (q_batch q) (q_pc q) = 0"
  then show "tick_on f (q, s) = (q, s)"
    by (cases "q_pc q"; cases f) (simp_all add: tick_on_def tick_move_def tick_turn_def tick_fault_def Let_def)
qed

interpretation sweeps_end: progressing "\<lambda>_. True" "\<lambda>v :: sweep. sweep_work (v_pc v)" sweep_on
proof
  fix v :: sweep and f s assume "0 < sweep_work (v_pc v)"
  from sweep_progress [OF this] show "sweep_work (v_pc (fst (sweep_on f (v, s)))) < sweep_work (v_pc v)"
    by (simp add: sweep_on_def split: prod.split) (metis fst_conv)
next
  fix v :: sweep and f s assume "sweep_work (v_pc v) = 0"
  then show "sweep_on f (v, s) = (v, s)"
    by (cases "v_pc v"; cases f) (auto simp: sweep_on_def sweep_move_def sweep_turn_def Let_def)
qed

subsection \<open>The whole service\<close>

text \<open>A process of the service, its turns, and what it has left to do.\<close>

datatype actor = Call nat | Inline nat | Try nat | Tick nat | Sweep nat

fun turn_at :: "fault option \<Rightarrow> actor \<Rightarrow> plant \<Rightarrow> plant" where
  "turn_at f (Call n) y = call_at f n y"
| "turn_at f (Inline n) y = inline_at f n y"
| "turn_at f (Try n) y = try_at f n y"
| "turn_at f (Tick n) y = tick_at f n y"
| "turn_at f (Sweep n) y = sweep_at f n y"

fun present :: "plant \<Rightarrow> actor \<Rightarrow> bool" where
  "present y (Call n) \<longleftrightarrow> n < length (x_calls y)"
| "present y (Inline n) \<longleftrightarrow> n < length (x_inlines y)"
| "present y (Try n) \<longleftrightarrow> n < length (x_tries y)"
| "present y (Tick n) \<longleftrightarrow> n < length (x_ticks y)"
| "present y (Sweep n) \<longleftrightarrow> n < length (x_sweeps y)"

fun work_of :: "plant \<Rightarrow> actor \<Rightarrow> nat" where
  "work_of y (Call n) = call_work (cl_pc (x_calls y ! n))"
| "work_of y (Inline n) = inline_work (n_pc (x_inlines y ! n))"
| "work_of y (Try n) = try_work (t_pc (x_tries y ! n))"
| "work_of y (Tick n) = tick_work (q_batch (x_ticks y ! n)) (q_pc (x_ticks y ! n))"
| "work_of y (Sweep n) = sweep_work (v_pc (x_sweeps y ! n))"

text \<open>Over: with an answer, a result or an exception.\<close>

fun finished :: "plant \<Rightarrow> actor \<Rightarrow> bool" where
  "finished y (Call n) \<longleftrightarrow> (\<exists>r. cl_pc (x_calls y ! n) = Done r)"
| "finished y (Inline n) \<longleftrightarrow> result (n_pc (x_inlines y ! n)) \<noteq> None"
| "finished y (Try n) \<longleftrightarrow> (\<exists>r. t_pc (x_tries y ! n) = Ended r)"
| "finished y (Tick n) \<longleftrightarrow> (\<exists>r. q_pc (x_ticks y ! n) = Ticked r)"
| "finished y (Sweep n) \<longleftrightarrow> (\<exists>r. v_pc (x_sweeps y ! n) = Swept r)"

lemma no_work:
  "call_work cp = 0 \<longleftrightarrow> (\<exists>r. cp = Done r)" "inline_work np = 0 \<longleftrightarrow> result np \<noteq> None"
  "try_work tp = 0 \<longleftrightarrow> (\<exists>r. tp = Ended r)" "tick_work b qp = 0 \<longleftrightarrow> (\<exists>r. qp = Ticked r)"
  "sweep_work vp = 0 \<longleftrightarrow> (\<exists>r. vp = Swept r)"
proof -
  show "call_work cp = 0 \<longleftrightarrow> (\<exists>r. cp = Done r)" by (cases cp) simp_all
  show "inline_work np = 0 \<longleftrightarrow> result np \<noteq> None" by (cases np) simp_all
  show "try_work tp = 0 \<longleftrightarrow> (\<exists>r. tp = Ended r)" by (cases tp) simp_all
  show "tick_work b qp = 0 \<longleftrightarrow> (\<exists>r. qp = Ticked r)" by (cases qp) simp_all
  show "sweep_work vp = 0 \<longleftrightarrow> (\<exists>r. vp = Swept r)" by (cases vp) simp_all
qed

lemma finished_iff: "finished y p \<longleftrightarrow> work_of y p = 0"
  by (cases p) (simp_all add: no_work)

text \<open>What a step of anybody does to the work of a process.\<close>

lemma step_work:
  assumes "plant_step P y y'" and "plant_inv P y" and "present y p"
  shows "work_of y' p \<le> work_of y p \<and> present y' p"
proof -
  have d: "distinct (map o_id (outbox (shared_db (x_shared y))))"
    using assms(2) by (simp add: plant_inv_def shared_inv_def wf_db_def)
  from assms(1) show ?thesis
  proof cases
    case (call_turned n f)
    then show ?thesis using assms(3) calls.advance_le [OF TrueI, of _ "x_calls y" f n "x_shared y"]
      by (cases p) (auto simp: call_at_def split: prod.split)
  next
    case (inline_turned n f)
    then show ?thesis using assms(3) inlines_end.advance_le [OF TrueI, of _ "x_inlines y" f n "x_shared y"]
      by (cases p) (auto simp: inline_at_def split: prod.split)
  next
    case (try_turned n f)
    then show ?thesis using assms(3) tries_end.advance_le [OF TrueI, of _ "x_tries y" f n "x_shared y"]
      by (cases p) (auto simp: try_at_def split: prod.split)
  next
    case (tick_turned n f)
    then show ?thesis using assms(3) ticks_end.advance_le [OF d, of _ "x_ticks y" f n]
      by (cases p) (auto simp: tick_at_def split: prod.split)
  next
    case (sweep_turned n f)
    then show ?thesis using assms(3) sweeps_end.advance_le [OF TrueI, of _ "x_sweeps y" f n "x_shared y"]
      by (cases p) (auto simp: sweep_at_def split: prod.split)
  qed (use assms(3) in \<open>cases p; simp add: nth_append\<close>)+
qed

lemma turn_step: "present y p \<Longrightarrow> plant_step P y (turn_at f p y)"
  by (cases p) (auto intro: plant_step.intros)

lemma own_turn:
  assumes "plant_inv P y" and "present y p"
  shows "work_of (turn_at f p y) p \<le> work_of y p - 1" and "finished y p \<Longrightarrow> turn_at f p y = y"
proof -
  have d: "distinct (map o_id (outbox (shared_db (x_shared y))))"
    using assms(1) by (simp add: plant_inv_def shared_inv_def wf_db_def)
  have rests: "turn_at f p y = y" if "work_of y p = 0"
  proof (cases p)
    case (Call n)
    then show ?thesis using that assms(2) calls.advance_rests [of n "x_calls y" f "x_shared y"] by (simp add: call_at_def)
  next
    case (Inline n)
    then show ?thesis using that assms(2) inlines_end.advance_rests [of n "x_inlines y" f "x_shared y"] by (simp add: inline_at_def)
  next
    case (Try n)
    then show ?thesis using that assms(2) tries_end.advance_rests [of n "x_tries y" f "x_shared y"] by (simp add: try_at_def)
  next
    case (Tick n)
    then show ?thesis using that assms(2) ticks_end.advance_rests [of n "x_ticks y" f "x_shared y"] by (simp add: tick_at_def)
  next
    case (Sweep n)
    then show ?thesis using that assms(2) sweeps_end.advance_rests [of n "x_sweeps y" f "x_shared y"] by (simp add: sweep_at_def)
  qed
  then show "finished y p \<Longrightarrow> turn_at f p y = y" by (simp add: finished_iff)
  have "work_of (turn_at f p y) p < work_of y p" if "0 < work_of y p"
  proof (cases p)
    case (Call n)
    then show ?thesis using that assms(2) calls.advance_falls [OF TrueI, of n "x_calls y" f "x_shared y"]
      by (auto simp: call_at_def split: prod.split)
  next
    case (Inline n)
    then show ?thesis using that assms(2) inlines_end.advance_falls [OF TrueI, of n "x_inlines y" f "x_shared y"]
      by (auto simp: inline_at_def split: prod.split)
  next
    case (Try n)
    then show ?thesis using that assms(2) tries_end.advance_falls [OF TrueI, of n "x_tries y" f "x_shared y"]
      by (auto simp: try_at_def split: prod.split)
  next
    case (Tick n)
    then show ?thesis using that assms(2) ticks_end.advance_falls [OF d, of n "x_ticks y" f]
      by (auto simp: tick_at_def split: prod.split)
  next
    case (Sweep n)
    then show ?thesis using that assms(2) sweeps_end.advance_falls [OF TrueI, of n "x_sweeps y" f "x_shared y"]
      by (auto simp: sweep_at_def split: prod.split)
  qed
  with rests show "work_of (turn_at f p y) p \<le> work_of y p - 1" by (cases "work_of y p") auto
qed

text \<open>From \<open>y\<close>, with \<open>k\<close> turns of the process \<open>p\<close> counted, and any steps of anybody in between.\<close>

inductive turns_of :: "pg \<Rightarrow> actor \<Rightarrow> plant \<Rightarrow> nat \<Rightarrow> plant \<Rightarrow> bool" for P p y where
  none: "turns_of P p y 0 y"
| own: "turns_of P p y k y' \<Longrightarrow> turns_of P p y (Suc k) (turn_at f p y')"
| others: "turns_of P p y k y' \<Longrightarrow> plant_step P y' y'' \<Longrightarrow> turns_of P p y k y''"

lemma turns_work:
  assumes "turns_of P p y k y'" and "plant_inv P y" and "present y p"
  shows "plant_inv P y' \<and> present y' p \<and> work_of y' p \<le> work_of y p - k"
  using assms(1)
proof induction
  case none
  then show ?case using assms(2,3) by simp
next
  case (own k y' f)
  then have inv: "plant_inv P y'" "present y' p" by simp_all
  note step = turn_step [OF inv(2), of P f]
  have "plant_inv P (turn_at f p y')" "present (turn_at f p y') p"
    using plant_step_inv [OF step inv(1)] step_work [OF step inv] by simp_all
  moreover have "work_of (turn_at f p y') p \<le> work_of y p - Suc k"
    using own_turn(1) [OF inv, of f] own.IH by arith
  ultimately show ?case by simp
next
  case (others k y' y'')
  then show ?case using plant_step_inv step_work le_trans by blast
qed

text \<open>
  Every process ends after a bounded number of its own statements, whatever the others do
  meanwhile. From any reachable state, through any interleaving with arrivals and with the statements of
  all other processes, and whichever statements lose their connection: a process that has taken as many turns as its
  measure (three for a submission, five for a try, nine for a synchronous call, two for each event of
  its batch and two more for a tick, two for a sweep) is over, with an answer, a result or an exception, and does
  nothing more.
\<close>

lemma every_process_ends:
  assumes "(plant_step P)\<^sup>*\<^sup>* plant_init y" and "present y p" and "turns_of P p y k y'" and "work_of y p \<le> k"
  shows "finished y' p \<and> turn_at f p y' = y'"
proof -
  have "plant_inv P y'" "present y' p" "work_of y' p \<le> work_of y p - k"
    using turns_work [OF assms(3) plant_steps_inv [OF assms(1)] assms(2)] by simp_all
  with own_turn(2) [of P y' p f] assms(4) show ?thesis by (simp add: finished_iff)
qed

text \<open>A submission whose two statements had another process's sweep in between.\<close>

definition demo_swept :: plant where
  "demo_swept = turn_at None (Call 0) (turn_at None (Call 0) (sweep_at None 0
     (turn_at None (Call 0) (plant_init\<lparr>x_calls := [demo_call demo_servicer 7], x_sweeps := [\<lparr>v_now = 5, v_pc = Listing\<rparr>]\<rparr>))))"

lemma every_process_ends_example: "\<exists>r. cl_pc (x_calls demo_swept ! 0) = Done r"
proof -
  let ?P = "e_pg strict_env" and ?y = "plant_init\<lparr>x_calls := [demo_call demo_servicer 7], x_sweeps := [\<lparr>v_now = 5, v_pc = Listing\<rparr>]\<rparr>"
  have init: "x_calls plant_init = []" "x_sweeps plant_init = []" by (simp_all add: plant_init_def)
  have "plant_step ?P plant_init (plant_init\<lparr>x_calls := x_calls plant_init @ [demo_call demo_servicer 7]\<rparr>)"
    by (rule plant_step.called) (simp_all add: demo_call_def plant_init_def identifiers_def)
  moreover have "plant_step ?P (plant_init\<lparr>x_calls := [demo_call demo_servicer 7]\<rparr>) ?y"
    using plant_step.due [of "\<lparr>v_now = 5, v_pc = Listing\<rparr>" ?P "plant_init\<lparr>x_calls := [demo_call demo_servicer 7]\<rparr>"]
    by (simp add: init)
  ultimately have reached: "(plant_step ?P)\<^sup>*\<^sup>* plant_init ?y" by (simp add: init)
  have "turns_of ?P (Call 0) ?y (Suc 0) (turn_at None (Call 0) ?y)" by (intro turns_of.own turns_of.none)
  then have "turns_of ?P (Call 0) ?y (Suc 0) (sweep_at None 0 (turn_at None (Call 0) ?y))"
    by (rule turns_of.others) (rule plant_step.sweep_turned, simp add: call_at_def split: prod.split)
  then have "turns_of ?P (Call 0) ?y 3 demo_swept"
    unfolding demo_swept_def numeral_3_eq_3 by (intro turns_of.own)
  moreover have "present ?y (Call 0)" "work_of ?y (Call 0) \<le> 3" by (simp_all add: demo_call_def)
  ultimately have "finished demo_swept (Call 0)" using every_process_ends [OF reached] by blast
  then show ?thesis by simp
qed

end
