(* ===== verification/Ocr_Sync.thy ===== *)
theory Ocr_Sync
  imports Ocr_Servicer
begin

text \<open>
  The synchronous call \<open>ProcessDocument\<close> (\<open>api/servicer.py\<close>): its guards, the replay of a known key,
  and what is left of the document when the pipeline fails transiently or is cancelled.
\<close>

subsection \<open>Processing within the call\<close>

text \<open>
  A call processes nothing it should have refused: if it changed the database or the
  files at all, the request is valid, its declared size is within the cap for synchronous calls
  and the pipeline is configured.
\<close>

lemma sync_call_guarded:
  assumes "ProcessDocument S cx now i drawn rq a = (a', r)" and "a_world a' \<noteq> a_world a"
  shows "validate_submit (e_settings (sv_env S)) (e_schemas (sv_env S)) rq = None
    \<and> src_size_bytes (rq_source rq) \<le> sync_max_bytes (e_settings (sv_env S)) \<and> sv_pipeline S"
  using assms
  by (cases "validate_submit (e_settings (sv_env S)) (e_schemas (sv_env S)) rq")
    (auto simp: ProcessDocument_def abort_def Let_def split: if_splits)

lemma set_db_world: "a_world (set_db w a) = (a_world a)\<lparr>w_db := w\<rparr>"
  by (simp add: set_db_def)

lemma answer_world [simp]: "a_world (fst (answer S cx d a)) = a_world a" "a_jobs (fst (answer S cx d a)) = a_jobs a"
  by (simp_all add: answer_def)

text \<open>
  A repeated key is answered, not processed: once a document exists under the key of a
  request, the call answers with the state of that document and changes neither the files nor
  the database.
\<close>

lemma sync_replay_reads_only:
  assumes "get_idempotent_document (e_pg (sv_env S)) (rq_idempotency_key rq) (api_db a) = Inr (Some d)"
    and "validate_submit (e_settings (sv_env S)) (e_schemas (sv_env S)) rq = None"
    and "src_size_bytes (rq_source rq) \<le> sync_max_bytes (e_settings (sv_env S))" and "sv_pipeline S"
    and "\<forall>key. insertable (e_pg (sv_env S)) (queued_row now key (submission_of cx i rq))"
  shows "ProcessDocument S cx now i drawn rq a = answer S cx d a
    \<and> a_world (fst (ProcessDocument S cx now i drawn rq a)) = a_world a"
proof -
  let ?P = "e_pg (sv_env S)"
  obtain key r where key: "pg_uuid ?P (rq_idempotency_key rq) = Some key"
      and r: "find_row d_key key (documents (api_db a)) = Some r"
    using assms(1) by (auto simp: get_idempotent_document_def split: option.splits)
  have k: "s_idempotency_key (submission_of cx i rq) = rq_idempotency_key rq" by (simp add: submission_of_def)
  have "list_ex (\<lambda>r. d_id r = d_id (queued_row now key (submission_of cx i rq)) \<or> d_key r = key) (documents (api_db a))"
    using find_row_Some [OF r] by (auto simp: list_ex_iff)
  then have "submit_document ?P now (submission_of cx i rq) (api_db a) = (api_db a, Inr False)"
    using assms(5) by (simp add: submit_document_def key k Let_def)
  then have "ProcessDocument S cx now i drawn rq a = answer S cx d a"
    using assms(1-4) by (simp add: ProcessDocument_def Let_def)
  then show ?thesis by simp
qed

text \<open>A call under a new key runs the pipeline on the row it inserts.\<close>

definition fresh_call :: "servicer \<Rightarrow> rpc_context \<Rightarrow> int \<Rightarrow> uuid \<Rightarrow> uuid \<Rightarrow> submit_request \<Rightarrow> api \<Rightarrow> bool" where
  "fresh_call S cx now i key rq a \<longleftrightarrow>
     validate_submit (e_settings (sv_env S)) (e_schemas (sv_env S)) rq = None
     \<and> src_size_bytes (rq_source rq) \<le> sync_max_bytes (e_settings (sv_env S)) \<and> sv_pipeline S
     \<and> pg_uuid (e_pg (sv_env S)) (rq_idempotency_key rq) = Some key
     \<and> insertable (e_pg (sv_env S)) (queued_row now key (submission_of cx i rq))
     \<and> i \<notin> d_id ` set (documents (api_db a)) \<and> key \<notin> d_key ` set (documents (api_db a))"

definition call_row :: "rpc_context \<Rightarrow> int \<Rightarrow> uuid \<Rightarrow> uuid \<Rightarrow> submit_request \<Rightarrow> drow" where
  "call_row cx now i key rq = queued_row now key (submission_of cx i rq)"

lemma call_row_facts [simp]:
  "d_id (call_row cx now i key rq) = i" "d_key (call_row cx now i key rq) = key"
  "d_status (call_row cx now i key rq) = U ''queued''" "d_trace_id (call_row cx now i key rq) = trace_id cx"
  by (simp_all add: call_row_def queued_row_def submission_of_def)

lemma ProcessDocument_fresh:
  fixes S cx now i key rq a mark
  defines "w \<equiv> (api_db a)\<lparr>documents := documents (api_db a) @ [call_row cx now i key rq]\<rparr>"
  assumes "fresh_call S cx now i key rq a"
  shows "ProcessDocument S cx now i (mark, s1, s2, s3) rq a =
      sync_answer S cx s3 i (run_stages (sv_env S) s1 s2 (row_to_document (e_pg (sv_env S)) (call_row cx now i key rq))
        ((a_world a)\<lparr>w_db := mark_processing mark i w\<rparr>)) (set_db w a)"
    and "find_row d_id i (documents (mark_processing mark i w)) =
      Some ((call_row cx now i key rq)\<lparr>d_status := U ''processing'', d_updated_at := mark\<rparr>)"
proof -
  let ?P = "e_pg (sv_env S)"
  have q: "s_idempotency_key (submission_of cx i rq) = rq_idempotency_key rq" "s_document_id (submission_of cx i rq) = i"
    by (simp_all add: submission_of_def)
  have none: "find_row d_id i (documents (api_db a)) = None" using assms(2) by (simp add: fresh_call_def find_row_None)
  then have row: "find_row d_id i (documents w) = Some (call_row cx now i key rq)"
    by (simp add: w_def store_simps) (simp add: find_row_def)
  have "\<not> list_ex (\<lambda>r. d_id r = i \<or> d_key r = key) (documents (api_db a))"
    using assms(2) by (auto simp: fresh_call_def list_ex_iff)
  then have ins: "submit_document ?P now (submission_of cx i rq) (api_db a) = (w, Inr True)"
    using assms(2) by (simp add: fresh_call_def submit_document_def q Let_def call_row_facts(1) [unfolded call_row_def])
      (simp add: w_def call_row_def)
  have run: "process_document (sv_env S) mark s1 s2 (uuid_str i) (a_world (set_db w a)) =
      run_stages (sv_env S) s1 s2 (row_to_document ?P (call_row cx now i key rq))
        ((a_world a)\<lparr>w_db := mark_processing mark i w\<rparr>)"
    by (simp add: process_document_def py_uuid_str get_document_def set_db_world row)
      (simp add: row_to_document_def processable_def)
  show "ProcessDocument S cx now i (mark, s1, s2, s3) rq a =
      sync_answer S cx s3 i (run_stages (sv_env S) s1 s2 (row_to_document ?P (call_row cx now i key rq))
        ((a_world a)\<lparr>w_db := mark_processing mark i w\<rparr>)) (set_db w a)"
    using assms(2) ins run by (simp add: fresh_call_def ProcessDocument_def Let_def)
  show "find_row d_id i (documents (mark_processing mark i w)) =
      Some ((call_row cx now i key rq)\<lparr>d_status := U ''processing'', d_updated_at := mark\<rparr>)"
    by (simp add: mark_processing_def find_row_update row)
qed

lemma run_stages_raises:
  assumes "rbind (snd (snd (fetch E doc (w_io w)))) (analyse E doc) = Inl e" and "handler e = (None, Some e')"
  shows "\<exists>io. run_stages E s1 s2 doc w = (\<lparr>w_io = io, w_db = w_db w\<rparr>, Inl e')"
proof -
  obtain io' tmp got where f: "fetch E doc (w_io w) = (io', tmp, got)" by (metis prod.collapse)
  then show ?thesis using assms by (simp add: run_stages_def handle_def)
qed

text \<open>
  Property C39: a transient failure of the provider strands the document of a synchronous call. The
  pipeline leaves it \<open>processing\<close> for the queue to retry, but no job exists for it: the call
  answers INTERNAL, the queue is as before, and the row stays \<open>processing\<close>; a later call under the
  same key is answered from that row.
\<close>

theorem sync_transient_strands:
  assumes "fresh_call S cx now i key rq a"
    and "rbind (snd (snd (fetch (sv_env S) (row_to_document (e_pg (sv_env S)) (call_row cx now i key rq)) (w_io (a_world a)))))
           (analyse (sv_env S) (row_to_document (e_pg (sv_env S)) (call_row cx now i key rq))) = Inl (ProviderTransientError m)"
  shows "case ProcessDocument S cx now i drawn rq a of
      (a', r) \<Rightarrow> r = Inl (Abort INTERNAL (U ''processing failed'')) \<and> a_jobs a' = a_jobs a
        \<and> outbox (api_db a') = outbox (api_db a)
        \<and> (\<exists>d. find_row d_id i (documents (api_db a')) = Some d \<and> d_status d = U ''processing'')"
proof -
  obtain mark s1 s2 s3 where drawn: "drawn = (mark, s1, s2, s3)" by (cases drawn)
  let ?w = "(api_db a)\<lparr>documents := documents (api_db a) @ [call_row cx now i key rq]\<rparr>"
  have h: "handler (ProviderTransientError m) = (None, Some (TransientJobError m))" by (simp add: handler_def)
  have io: "w_io ((a_world a)\<lparr>w_db := mark_processing mark i ?w\<rparr>) = w_io (a_world a)" by simp
  obtain io' where run: "run_stages (sv_env S) s1 s2 (row_to_document (e_pg (sv_env S)) (call_row cx now i key rq))
        ((a_world a)\<lparr>w_db := mark_processing mark i ?w\<rparr>)
      = (\<lparr>w_io = io', w_db = mark_processing mark i ?w\<rparr>, Inl (TransientJobError m))"
    using run_stages_raises [OF _ h, of "sv_env S" _ "(a_world a)\<lparr>w_db := mark_processing mark i ?w\<rparr>"] assms(2)
    unfolding io by fastforce
  show ?thesis
    unfolding drawn ProcessDocument_fresh(1) [OF assms(1)] run
    by (simp add: sync_answer_def abort_def ProcessDocument_fresh(2) [OF assms(1)])
qed

text \<open>
  Property C12: a synchronous call that is cancelled while the pipeline runs raises the cancellation, is
  counted as cancelled and enqueues nothing; what becomes of its document depends on the write that should
  fail it. Either the row is \<open>failed\<close> with the code INTERNAL and the message of the cancellation, and
  exactly one event was added, which tells it; or the write raised, was logged and dropped, and the row
  stays \<open>processing\<close> with no job and no event. With a driver that returns a key which
  \<open>json.dumps\<close> refuses, as asyncpg's \<open>uuid.UUID\<close>, it is always the latter, the row that never
  resolves which the call means to rule out.
\<close>

theorem sync_cancelled_fails:
  assumes "fresh_call S cx now i key rq a"
    and "rbind (snd (snd (fetch (sv_env S) (row_to_document (e_pg (sv_env S)) (call_row cx now i key rq)) (w_io (a_world a)))))
           (analyse (sv_env S) (row_to_document (e_pg (sv_env S)) (call_row cx now i key rq))) = Inl CancelledError"
  shows "case ProcessDocument S cx now i (mark, s1, s2, s3) rq a of
      (a', r) \<Rightarrow> r = Inl (Raised CancelledError) \<and> a_rpcs a' = a_rpcs a @ [(method_name cx, U ''CANCELLED'')]
        \<and> a_jobs a' = a_jobs a
        \<and> ((\<exists>d ev. find_row d_id i (documents (api_db a')) = Some d \<and> d_status d = U ''failed'' \<and> d_processed_at d \<noteq> None
               \<and> d_error_code d = Some (U ''INTERNAL'') \<and> d_error_message d = Some cancelled_message
               \<and> outbox (api_db a') = outbox (api_db a) @ [ev] \<and> tells d ev)
           \<or> (outbox (api_db a') = outbox (api_db a)
              \<and> find_row d_id i (documents (api_db a')) =
                  Some ((call_row cx now i key rq)\<lparr>d_status := U ''processing'', d_updated_at := mark\<rparr>)))
        \<and> (serialisable (pg_uuid_out (e_pg (sv_env S)) key)
           \<or> outbox (api_db a') = outbox (api_db a)
              \<and> find_row d_id i (documents (api_db a')) =
                  Some ((call_row cx now i key rq)\<lparr>d_status := U ''processing'', d_updated_at := mark\<rparr>))"
proof -
  let ?P = "e_pg (sv_env S)" and ?d = "call_row cx now i key rq"
  let ?w = "(api_db a)\<lparr>documents := documents (api_db a) @ [?d]\<rparr>"
  let ?m = "mark_processing mark i ?w"
  note found = ProcessDocument_fresh(2) [OF assms(1), of mark]
  have h: "handler CancelledError = (None, Some CancelledError)" by (simp add: handler_def)
  have io: "w_io ((a_world a)\<lparr>w_db := ?m\<rparr>) = w_io (a_world a)" by simp
  obtain io' where run: "run_stages (sv_env S) s1 s2 (row_to_document ?P ?d) ((a_world a)\<lparr>w_db := ?m\<rparr>)
      = (\<lparr>w_io = io', w_db = ?m\<rparr>, Inl CancelledError)"
    using run_stages_raises [OF _ h, of "sv_env S" _ "(a_world a)\<lparr>w_db := ?m\<rparr>"] assms(2)
    unfolding io by fastforce
  let ?doc = "row_to_document ?P (marked_row ?d mark)"
  obtain db' x where fin: "fail_document (sv_env S) s3 ?doc (U ''INTERNAL'') cancelled_message ?m = (db', x)" by fastforce
  have "mark_cancelled (sv_env S) cx s3 i ?m = fst (fail_document (sv_env S) s3 ?doc (U ''INTERNAL'') cancelled_message ?m)"
    by (simp add: mark_cancelled_def get_document_def found fail_document_def) (simp add: row_to_document_def)
  then have same: "mark_cancelled (sv_env S) cx s3 i ?m = db'" by (simp add: fin)
  have i: "dw_id ?doc = i" by (simp add: row_to_document_def)
  have found': "find_row d_id i (documents ?m) = Some (marked_row (marked_row ?d mark) mark)" by (simp add: found)
  have ends: "(\<exists>d ev. find_row d_id i (documents db') = Some d \<and> d_status d = U ''failed'' \<and> d_processed_at d \<noteq> None
        \<and> d_error_code d = Some (U ''INTERNAL'') \<and> d_error_message d = Some cancelled_message
        \<and> outbox db' = outbox ?m @ [ev] \<and> tells d ev) \<or> db' = ?m"
    using fail_settles [OF fin, unfolded i]
  proof (elim disjE conjE)
    assume "settled_as i (failed_outcome (U ''INTERNAL'') cancelled_message)
      (build_envelope s3 ?doc (U ''failed'') None (Some (error_dict (U ''INTERNAL'') cancelled_message))) ?m db'"
    from failed_told [OF this refl found'] show ?thesis by metis
  qed simp
  have kept: "db' = ?m" if "\<not> serialisable (pg_uuid_out ?P key)"
    using unserialisable_key_blocks(1) [of ?doc "sv_env S" s3 "U ''INTERNAL''" cancelled_message ?m] that fin
    by (auto simp: row_to_document_def)
  show ?thesis
    unfolding ProcessDocument_fresh(1) [OF assms(1)] run
    using ends kept found by (auto simp: sync_answer_def same)
qed

subsection \<open>Applications\<close>

lemma demo_guards:
  "src_size_bytes (rq_source demo_request) \<le> sync_max_bytes (e_settings strict_env)" "sv_pipeline demo_servicer"
  "insertable (e_pg strict_env) (queued_row now k (submission_of demo_context j demo_request))"
  by (simp_all add: demo_request_def strict_env_def demo_env_def demo_settings_def demo_servicer_def demo_pg_def
      insertable_def queued_row_def submission_of_def trace_id_def demo_context_def)

definition demo_after :: "api \<times> (failure + document_response)" where
  "demo_after = ProcessDocument demo_servicer demo_context 100 7 (200, demo_stamp, demo_stamp, demo_stamp) demo_request api_init"

lemma demo_after_changed: "a_world (fst demo_after) \<noteq> a_world api_init"
proof -
  have "length (documents (w_db (a_world (fst demo_after)))) = 1" by code_simp
  then show ?thesis by (auto simp: db_init_def)
qed

lemma sync_call_guarded_example:
  "src_size_bytes (rq_source demo_request) \<le> sync_max_bytes (e_settings (sv_env demo_servicer))"
  using sync_call_guarded [OF prod.collapse [symmetric] demo_after_changed [unfolded demo_after_def]] by blast

lemma sync_replay_reads_only_example:
  "a_world (fst (ProcessDocument demo_servicer demo_context 900 8 (950, demo_stamp, demo_stamp, demo_stamp) demo_request
     (set_db demo_stored api_init))) = a_world (set_db demo_stored api_init)"
proof -
  have key: "get_idempotent_document (e_pg (sv_env demo_servicer)) (rq_idempotency_key demo_request) (api_db (set_db demo_stored api_init))
      = Inr (Some (row_to_document (e_pg strict_env) (queued_row 100 49 (submission_of demo_context 7 demo_request))))"
    by (simp add: get_idempotent_document_def strict_env_def demo_request_def py_uuid_str demo_stored_def)
      (simp add: find_row_def queued_row_def)
  from sync_replay_reads_only [OF key] show ?thesis
    by (simp add: demo_valid demo_guards)
qed

definition busy_servicer :: servicer where
  "busy_servicer = demo_servicer\<lparr>sv_env := strict_env\<lparr>e_media :=
     demo_media\<lparr>fitz_open := \<lambda>_. Inr [pdf_page.pg_text_update (\<lambda>_. []) demo_page]\<rparr>\<rparr>\<rparr>"

definition slow_request :: submit_request where
  "slow_request = demo_request\<lparr>rq_source := (rq_source demo_request)\<lparr>src_storage_path := U ''slow''\<rparr>\<rparr>"

lemma demo_fresh:
  "fresh_call demo_servicer demo_context 100 7 49 demo_request api_init"
  "fresh_call busy_servicer demo_context 100 7 49 demo_request api_init"
  "fresh_call demo_servicer demo_context 100 7 49 slow_request api_init"
proof -
  show f: "fresh_call demo_servicer demo_context 100 7 49 demo_request api_init"
    using demo_valid demo_guards
    by (simp add: fresh_call_def api_db_def db_init_def) (simp add: strict_env_def demo_request_def py_uuid_str)
  then show "fresh_call busy_servicer demo_context 100 7 49 demo_request api_init"
    by (simp add: fresh_call_def busy_servicer_def)
  have "validate_submit (e_settings strict_env) (e_schemas strict_env) slow_request = None"
    by code_simp
  then show "fresh_call demo_servicer demo_context 100 7 49 slow_request api_init"
    using f by (simp add: fresh_call_def) (simp add: slow_request_def insertable_def queued_row_def submission_of_def
      strict_env_def demo_pg_def)
qed

theorem sync_transient_strands_witness:
  "snd (ProcessDocument busy_servicer demo_context 100 7 (200, demo_stamp, demo_stamp, demo_stamp) demo_request api_init)
     = Inl (Abort INTERNAL (U ''processing failed''))"
proof -
  have "rbind (snd (snd (fetch (sv_env busy_servicer)
            (row_to_document (e_pg (sv_env busy_servicer)) (call_row demo_context 100 7 49 demo_request)) (w_io (a_world api_init)))))
        (analyse (sv_env busy_servicer) (row_to_document (e_pg (sv_env busy_servicer)) (call_row demo_context 100 7 49 demo_request)))
      = Inl (ProviderTransientError (U ''busy''))"
    by code_simp
  from sync_transient_strands [OF demo_fresh(2) this, of "(200, demo_stamp, demo_stamp, demo_stamp)"] show ?thesis by (auto split: prod.splits)
qed

theorem sync_cancelled_fails_witness:
  "snd (ProcessDocument demo_servicer demo_context 100 7 (200, demo_stamp, demo_stamp, demo_stamp) slow_request api_init)
     = Inl (Raised CancelledError)"
proof -
  have c: "rbind (snd (snd (fetch (sv_env demo_servicer)
            (row_to_document (e_pg (sv_env demo_servicer)) (call_row demo_context 100 7 49 slow_request)) (w_io (a_world api_init)))))
        (analyse (sv_env demo_servicer) (row_to_document (e_pg (sv_env demo_servicer)) (call_row demo_context 100 7 49 slow_request)))
      = Inl CancelledError"
    by code_simp
  show ?thesis
    using sync_cancelled_fails [OF demo_fresh(3) c, of 200 demo_stamp demo_stamp demo_stamp]
    by (auto split: prod.splits)
qed

end
