(* ===== verification/Ocr_Metrics.thy ===== *)
theory Ocr_Metrics
  imports Ocr_Worker
begin

text \<open>
  The instruments (\<open>obs/metrics.py\<close>) and what is recorded with them by a run of the pipeline
  (\<open>pipeline/pipeline.py\<close>), a tick of the publisher (\<open>events/publisher.py\<close>) and an answered call
  (\<open>api/servicer.py\<close>): beside each operation of the model the measurements it records, in their order.
\<close>

subsection \<open>The instruments\<close>

datatype instrument_kind = Counter | Histogram | Gauge | Observable_Gauge

datatype metric =
    RPC_REQUESTS | RPC_DURATION | DOCUMENTS_PROCESSED | DOCUMENTS_FAILED | PIPELINE_DURATION | OCR_LINES | OCR_PAGES
  | OCR_PROVIDER_DURATION | DOCUMENT_CONFIDENCE | DOCUMENT_FIELDS | DOCUMENT_SIZE | QUEUE_WAIT | TRANSIENT_ERRORS
  | PROVIDER_ERRORS | OUTBOX_CLAIMED | OUTBOX_PUBLISHED | OUTBOX_FAILED | PROCESS_RUNNING

text \<open>Name, kind and unit of each instrument.\<close>

fun instrument :: "metric \<Rightarrow> string \<times> instrument_kind \<times> string" where
  "instrument RPC_REQUESTS = (''ocr.rpc.requests'', Counter, ''{request}'')"
| "instrument RPC_DURATION = (''ocr.rpc.duration'', Histogram, ''s'')"
| "instrument DOCUMENTS_PROCESSED = (''ocr.documents.processed'', Counter, ''{document}'')"
| "instrument DOCUMENTS_FAILED = (''ocr.documents.failed'', Counter, ''{document}'')"
| "instrument PIPELINE_DURATION = (''ocr.pipeline.duration'', Histogram, ''s'')"
| "instrument OCR_LINES = (''ocr.document.lines'', Histogram, ''{line}'')"
| "instrument OCR_PAGES = (''ocr.provider.pages'', Counter, ''{page}'')"
| "instrument OCR_PROVIDER_DURATION = (''ocr.provider.duration'', Histogram, ''s'')"
| "instrument DOCUMENT_CONFIDENCE = (''ocr.document.confidence'', Histogram, '''')"
| "instrument DOCUMENT_FIELDS = (''ocr.document.fields'', Counter, ''{field}'')"
| "instrument DOCUMENT_SIZE = (''ocr.document.size'', Histogram, ''By'')"
| "instrument QUEUE_WAIT = (''ocr.pipeline.queue_wait'', Histogram, ''s'')"
| "instrument TRANSIENT_ERRORS = (''ocr.pipeline.transient_errors'', Counter, ''{error}'')"
| "instrument PROVIDER_ERRORS = (''ocr.provider.errors'', Counter, ''{error}'')"
| "instrument OUTBOX_CLAIMED = (''ocr.outbox.claimed'', Gauge, ''{event}'')"
| "instrument OUTBOX_PUBLISHED = (''ocr.outbox.published'', Counter, ''{event}'')"
| "instrument OUTBOX_FAILED = (''ocr.outbox.publish_failed'', Counter, ''{event}'')"
| "instrument PROCESS_RUNNING = (''ocr.process.running'', Observable_Gauge, '''')"

record measurement =
  ms_metric :: metric
  ms_value :: rat
  ms_labels :: "(string \<times> pystr) list"

definition measure :: "metric \<Rightarrow> rat \<Rightarrow> (string \<times> pystr) list \<Rightarrow> measurement" where
  "measure m x labels = \<lparr>ms_metric = m, ms_value = x, ms_labels = labels\<rparr>"

lemma measure_metric [simp]: "ms_metric (measure m x ls) = m"
  by (simp add: measure_def)

subsection \<open>What a run of the pipeline records\<close>

fun provider_value :: "provider \<Rightarrow> pystr" where
  "provider_value BAIDU_AISTUDIO = U ''baidu_aistudio''"
| "provider_value PADDLEOCR_LOCAL = U ''paddleocr_local''"

definition provider_name :: "env \<Rightarrow> pystr" where
  "provider_name E = provider_value (provider (e_settings E))"

text \<open>The readings of the clock: the time at the start, and the two intervals that are measured.\<close>

record timing =
  tm_start :: int
  tm_ocr :: rat
  tm_total :: rat

text \<open>The loop over the fields records nothing: it raises before it counts its first one.\<close>

definition extraction_measured :: "env \<Rightarrow> document_row \<Rightarrow> line list \<Rightarrow> measurement list" where
  "extraction_measured E doc lines =
     (case extract_and_validate E doc lines of
        Inl e \<Rightarrow> []
      | Inr (result, status) \<Rightarrow>
          [measure DOCUMENT_CONFIDENCE (dr_avg_confidence result) [(''ocr_provider'', provider_name E)]])"

definition analysis_measured :: "env \<Rightarrow> timing \<Rightarrow> document_row \<Rightarrow> bytes \<Rightarrow> measurement list" where
  "analysis_measured E T doc content =
     (case inspect_or_fail E content of
        Inl e \<Rightarrow> []
      | Inr meta \<Rightarrow>
          (case digitalborn_lines (e_media E) content of
             Inl e \<Rightarrow> []
           | Inr (Some lines) \<Rightarrow>
               measure OCR_LINES (of_nat (length lines)) [(''ocr_provider'', U ''digitalborn'')] # extraction_measured E doc lines
           | Inr None \<Rightarrow>
               (case ocr_lines E content (i_mime meta) of
                  Inl e \<Rightarrow> []
                | Inr (lines, pages) \<Rightarrow>
                    [measure OCR_PROVIDER_DURATION (tm_ocr T) [(''ocr_provider'', provider_name E)],
                     measure OCR_LINES (of_nat (length lines)) [(''ocr_provider'', provider_name E)],
                     measure OCR_PAGES (of_int pages) [(''ocr_provider'', provider_name E)]]
                    @ extraction_measured E doc lines)))"

definition failure_measured :: "env \<Rightarrow> timing \<Rightarrow> pystr \<Rightarrow> measurement list" where
  "failure_measured E T code =
     [measure DOCUMENTS_PROCESSED 1 [(''status'', U ''failed'')],
      measure DOCUMENTS_FAILED 1 [(''error_code'', code)],
      measure PIPELINE_DURATION (tm_total T) [(''ocr_provider'', provider_name E), (''outcome'', U ''failed'')]]"

definition success_measured :: "env \<Rightarrow> timing \<Rightarrow> pystr \<Rightarrow> measurement list" where
  "success_measured E T status =
     [measure DOCUMENTS_PROCESSED 1 [(''status'', status)],
      measure PIPELINE_DURATION (tm_total T) [(''ocr_provider'', provider_name E), (''outcome'', U ''ok'')]]"

definition handler_measured :: "env \<Rightarrow> timing \<Rightarrow> stamp \<Rightarrow> document_row \<Rightarrow> exn \<Rightarrow> db \<Rightarrow> measurement list" where
  "handler_measured E T s doc e w =
     (case e of
        ProviderTransientError m \<Rightarrow>
          [measure TRANSIENT_ERRORS 1 [], measure PROVIDER_ERRORS 1 [(''outcome'', U ''transient'')]]
      | ProviderPermanentError m \<Rightarrow> [measure PROVIDER_ERRORS 1 [(''outcome'', U ''permanent'')]]
      | _ \<Rightarrow> [])
     @ (case fst (handler e) of
          None \<Rightarrow> []
        | Some (code, message) \<Rightarrow>
            (case fail_document E s doc code message w of
               (w', Inl e') \<Rightarrow> []
             | (w', Inr _) \<Rightarrow> failure_measured E T code))"

definition run_measured :: "env \<Rightarrow> timing \<Rightarrow> stamp \<Rightarrow> stamp \<Rightarrow> document_row \<Rightarrow> world \<Rightarrow> measurement list" where
  "run_measured E T s1 s2 doc w =
     (case fetch E doc (w_io w) of
        (io', tmp, fetched) \<Rightarrow>
          (case fetched of
             Inl e \<Rightarrow> []
           | Inr content \<Rightarrow> measure DOCUMENT_SIZE (of_nat (length content)) [] # analysis_measured E T doc content)
          @ (case rbind fetched (analyse E doc) of
               Inl e \<Rightarrow> handler_measured E T s2 doc e (w_db w)
             | Inr (result, status) \<Rightarrow>
                 (case complete_document E s1 doc result status (w_db w) of
                    (db', Inl e) \<Rightarrow> handler_measured E T s2 doc e db'
                  | (db', Inr _) \<Rightarrow> success_measured E T status)))"

definition process_measured ::
  "env \<Rightarrow> int \<Rightarrow> timing \<Rightarrow> stamp \<Rightarrow> stamp \<Rightarrow> pystr \<Rightarrow> world \<Rightarrow> measurement list" where
  "process_measured E mark_now T s1 s2 document_id w =
     (case py_uuid document_id of
        None \<Rightarrow> []
      | Some i \<Rightarrow>
          (case get_document (e_pg E) i (w_db w) of
             None \<Rightarrow> []
           | Some doc \<Rightarrow>
               if \<not> processable (dw_status doc) then []
               else measure QUEUE_WAIT (max 0 (of_int (tm_start T - dw_created_at doc) / 1000000)) []
                    # run_measured E T s1 s2 doc (w\<lparr>w_db := mark_processing mark_now (dw_id doc) (w_db w)\<rparr>)))"

subsection \<open>The counters say what the database says\<close>

definition outcomes :: "measurement list \<Rightarrow> measurement list" where
  "outcomes ms = filter (\<lambda>m. ms_metric m \<in> {DOCUMENTS_PROCESSED, DOCUMENTS_FAILED}) ms"

lemma outcomes_append [simp]: "outcomes (ms @ ns) = outcomes ms @ outcomes ns"
  by (simp add: outcomes_def)

lemma outcomes_Cons [simp]:
  "outcomes (m # ms) = (if ms_metric m \<in> {DOCUMENTS_PROCESSED, DOCUMENTS_FAILED} then m # outcomes ms else outcomes ms)"
  by (simp add: outcomes_def)

lemma outcomes_Nil [simp]: "outcomes [] = []"
  by (simp add: outcomes_def)

lemma extraction_outcomes [simp]: "outcomes (extraction_measured E doc lines) = []"
  by (simp add: extraction_measured_def split: sum.split)

lemma analysis_outcomes [simp]: "outcomes (analysis_measured E T doc content) = []"
  by (simp add: analysis_measured_def split: sum.split option.split)

text \<open>The counts of a document that ended so.\<close>

definition counted :: "pystr \<Rightarrow> pystr option \<Rightarrow> measurement list" where
  "counted status code =
     measure DOCUMENTS_PROCESSED 1 [(''status'', status)]
     # (if status = U ''failed'' then [measure DOCUMENTS_FAILED 1 [(''error_code'', the code)]] else [])"

lemma failure_outcomes: "outcomes (failure_measured E T code) = counted (U ''failed'') (Some code)"
  by (simp add: failure_measured_def counted_def)

definition settled_counted :: "uuid \<Rightarrow> measurement list \<Rightarrow> db \<Rightarrow> db \<Rightarrow> bool" where
  "settled_counted i ms w w' \<longleftrightarrow>
     (w' = w \<and> outcomes ms = [])
     \<or> (\<exists>f payload. settled_as i f payload w w' \<and> outcomes ms = counted (f_status f) (f_error_code f))"

lemma handler_counted:
  assumes "handle E s doc e w = (w', r)"
  shows "settled_counted (dw_id doc) (handler_measured E T s doc e w) w w'"
proof (cases "handler e")
  case (Pair what out)
  have errors: "outcomes (case e of
        ProviderTransientError m \<Rightarrow>
          [measure TRANSIENT_ERRORS 1 [], measure PROVIDER_ERRORS 1 [(''outcome'', U ''transient'')]]
      | ProviderPermanentError m \<Rightarrow> [measure PROVIDER_ERRORS 1 [(''outcome'', U ''permanent'')]]
      | _ \<Rightarrow> []) = []" by (simp split: exn.split)
  show ?thesis
  proof (cases what)
    case None
    then show ?thesis using assms errors by (simp add: handle_def Pair settled_counted_def handler_measured_def)
  next
    case (Some p)
    obtain code message where p: "p = (code, message)" by fastforce
    obtain w1 x where f: "fail_document E s doc code message w = (w1, x)" by fastforce
    have w1: "w' = w1" using assms by (auto simp: handle_def Pair Some p f split: sum.splits)
    have st: "f_status (failed_outcome code message) = U ''failed''" "f_error_code (failed_outcome code message) = Some code"
      by (simp_all add: failed_outcome_def)
    show ?thesis
    proof (cases x)
      case (Inl e')
      then show ?thesis using fail_settles [OF f] errors
        by (auto simp: settled_counted_def handler_measured_def Pair Some p f w1)
    next
      case (Inr u)
      then have "settled_as (dw_id doc) (failed_outcome code message)
          (build_envelope s doc (U ''failed'') None (Some (error_dict code message))) w w1"
        using fail_settles [OF f] by auto
      moreover have "outcomes (handler_measured E T s doc e w) = counted (U ''failed'') (Some code)"
        using errors by (simp add: handler_measured_def Pair Some p f Inr failure_outcomes)
      ultimately show ?thesis using st unfolding settled_counted_def w1 by metis
    qed
  qed
qed

lemma run_counted:
  assumes "run_stages E s1 s2 doc w = (w', r)"
  shows "settled_counted (dw_id doc) (run_measured E T s1 s2 doc w) (w_db w) (w_db w')"
proof -
  obtain io' tmp got where f: "fetch E doc (w_io w) = (io', tmp, got)" by (metis prod.collapse)
  have before: "outcomes (case got of Inl e \<Rightarrow> []
      | Inr content \<Rightarrow> measure DOCUMENT_SIZE (of_nat (length content)) [] # analysis_measured E T doc content) = []"
    by (simp split: sum.split)
  have all: "settled_counted i (ms @ ns) v v' = settled_counted i ns v v'" if "outcomes ms = []" for i ms ns v v'
    using that by (simp add: settled_counted_def)
  show ?thesis
  proof (cases "rbind got (analyse E doc)")
    case (Inl e)
    obtain db' x where h: "handle E s2 doc e (w_db w) = (db', x)" by fastforce
    then have "w_db w' = db'" using assms by (auto simp: run_stages_def f Inl)
    then show ?thesis using handler_counted [OF h] by (simp add: run_measured_def f all [OF before] Inl)
  next
    case (Inr p)
    obtain result status where p: "p = (result, status)" by fastforce
    obtain content where a: "analyse E doc content = Inr (result, status)" using Inr p by (cases got) auto
    from a have not_failed: "status \<noteq> U ''failed''"
    proof (rule analyse_Inr)
      fix sch es assume "build_result sch es = Inr (result, status)"
      from build_result_Inr(4) [OF this] show ?thesis by simp
    qed
    obtain db' x where c: "complete_document E s1 doc result status (w_db w) = (db', x)" by fastforce
    show ?thesis
    proof (cases x)
      case (Inl e)
      have same: "db' = w_db w" using complete_settles [OF c] Inl by auto
      obtain db'' y where h: "handle E s2 doc e db' = (db'', y)" by fastforce
      then have "w_db w' = db''" using assms by (auto simp: run_stages_def f Inr p c Inl)
      then show ?thesis using handler_counted [OF h]
        by (simp add: run_measured_def f all [OF before] Inr p c Inl same)
    next
      case x: (Inr u)
      have "w_db w' = db'" using assms by (auto simp: run_stages_def f Inr p c x)
      moreover have "settled_as (dw_id doc) (done_outcome result status)
          (build_envelope s1 doc status (Some (to_dict result)) None) (w_db w) db'"
        using complete_settles [OF c] x by auto
      moreover have "outcomes (run_measured E T s1 s2 doc w) = counted status None"
        using before not_failed by (simp add: run_measured_def f Inr p c x success_measured_def counted_def)
      ultimately show ?thesis unfolding settled_counted_def
        by (intro disjI2 exI [of _ "done_outcome result status"] exI conjI) (auto simp: done_outcome_def counted_def not_failed)
    qed
  qed
qed

text \<open>
  Property C9: the counters agree with the database. Every run of the pipeline either writes no event
  and counts no document, or writes one event and counts one document, under the status its row
  now has, and under the error code of the row exactly when that status is \<open>failed\<close>.
\<close>

theorem counters_match_database:
  "case process_document E now s1 s2 document_id w of
     (w', r) \<Rightarrow>
       (outbox (w_db w') = outbox (w_db w) \<and> outcomes (process_measured E now T s1 s2 document_id w) = [])
       \<or> (\<exists>i ev d'. py_uuid document_id = Some i \<and> outbox (w_db w') = outbox (w_db w) @ [ev] \<and> o_aggregate_id ev = i
             \<and> find_row d_id i (documents (w_db w')) = Some d'
             \<and> outcomes (process_measured E now T s1 s2 document_id w) = counted (d_status d') (d_error_code d'))"
proof -
  obtain w' r where p: "process_document E now s1 s2 document_id w = (w', r)" by fastforce
  then show ?thesis
  proof (cases rule: process_cases)
    case bad_id
    then show ?thesis by (simp add: p process_measured_def)
  next
    case (skipped i)
    then have "process_measured E now T s1 s2 document_id w = []"
      by (auto simp: process_measured_def get_document_def row_to_document_def split: option.split)
    then show ?thesis using skipped by (simp add: p)
  next
    case (ran i d)
    let ?doc = "row_to_document (e_pg E) d" and ?w = "w\<lparr>w_db := mark_processing now i (w_db w)\<rparr>"
    have "d_id d = i" using ran(2) find_row_Some by metis
    then have id: "dw_id ?doc = i" and st: "dw_status ?doc = d_status d" by (simp_all add: row_to_document_def)
    have ms: "outcomes (process_measured E now T s1 s2 document_id w) = outcomes (run_measured E T s1 s2 ?doc ?w)"
      using ran id st by (simp add: process_measured_def get_document_def)
    have found: "find_row d_id i (documents (mark_processing now i (w_db w))) \<noteq> None"
      using find_row_marked [OF ran(2,3)] by auto
    from run_counted [OF ran(4), of T] show ?thesis unfolding settled_counted_def id
    proof (elim disjE conjE exE)
      fix f payload assume s: "settled_as i f payload (w_db ?w) (w_db w')"
        and c: "outcomes (run_measured E T s1 s2 ?doc ?w) = counted (f_status f) (f_error_code f)"
      from s obtain ev where ev: "outbox (w_db w') = outbox (w_db w) @ [ev]" "o_aggregate_id ev = i"
        by (auto simp: settled_as_def)
      obtain d' where "find_row d_id i (documents (w_db w')) = Some d'" "d_status d' = f_status f" "d_error_code d' = f_error_code f"
        using settled_row [OF s] found by auto
      then show ?thesis using ev ran(1) c by (auto simp: p ms)
    qed (simp add: p ms)
  qed
qed

subsection \<open>Ticks and calls\<close>

definition delivery_measured :: "kafka \<Rightarrow> message \<Rightarrow> measurement" where
  "delivery_measured K m =
     measure (if delivers K m then OUTBOX_PUBLISHED else OUTBOX_FAILED) 1 [(''topic'', mg_topic m)]"

fun rows_measured :: "interp \<Rightarrow> kafka \<Rightarrow> pystr \<Rightarrow> orow list \<Rightarrow> measurement list" where
  "rows_measured I K topic [] = []"
| "rows_measured I K topic (row # rows) =
     (case message_of I topic row of
        Inl e \<Rightarrow> []
      | Inr m \<Rightarrow>
          (case produce K m of
             Some e \<Rightarrow> []
           | None \<Rightarrow> delivery_measured K m # rows_measured I K topic rows))"

definition poll_measured :: "interp \<Rightarrow> kafka \<Rightarrow> pystr \<Rightarrow> pystr \<Rightarrow> int \<Rightarrow> nat \<Rightarrow> pubstate \<Rightarrow> measurement list" where
  "poll_measured I K topic worker now batch p =
     (case claim_pending_outbox worker now batch (p_db p) of
        (w', rows) \<Rightarrow> measure OUTBOX_CLAIMED (of_nat (length rows)) [] # rows_measured I K topic rows)"

definition rpc_measured :: "rat \<Rightarrow> pystr \<times> pystr \<Rightarrow> measurement list" where
  "rpc_measured elapsed call =
     [measure RPC_REQUESTS 1 [(''rpc_method'', fst call), (''rpc_grpc_status'', snd call)],
      measure RPC_DURATION elapsed [(''rpc_method'', fst call)]]"

definition how_many :: "metric \<Rightarrow> measurement list \<Rightarrow> nat" where
  "how_many m ms = length (filter (\<lambda>x. ms_metric x = m) ms)"

lemma rows_counted:
  "publish_rows I K topic now rows n p = (p', r) \<Longrightarrow>
     p_ok p' = p_ok p + how_many OUTBOX_PUBLISHED (rows_measured I K topic rows)
     \<and> p_failed p' = p_failed p + how_many OUTBOX_FAILED (rows_measured I K topic rows)
     \<and> length (p_sent p') = length (p_sent p) + length (rows_measured I K topic rows)"
proof (induction rows arbitrary: n p)
  case Nil
  then show ?case by (simp add: how_many_def)
next
  case (Cons row rows)
  show ?case
  proof (cases "message_of I topic row")
    case (Inl e)
    then show ?thesis using Cons.prems by (simp add: how_many_def)
  next
    case (Inr m)
    show ?thesis
    proof (cases "produce K m")
      case None
      let ?p = "on_delivery K m (p\<lparr>p_sent := p_sent p @ [m], p_db := mark_published now (o_id row) (p_db p)\<rparr>)"
      have "publish_rows I K topic now rows (n + 1) ?p = (p', r)" using Cons.prems Inr None by simp
      from Cons.IH [OF this] show ?thesis
        by (simp add: Inr None delivery_measured_def how_many_def) (simp add: on_delivery_def)
    next
      case (Some e)
      then show ?thesis using Cons.prems Inr by (simp add: how_many_def)
    qed
  qed
qed

text \<open>
  A tick counts what it handed over: one count per message, published or failed as its delivery went.
\<close>

lemma tick_counted:
  assumes "poll_once I K topic worker now batch p = (p', r)"
  shows "p_ok p' = p_ok p + how_many OUTBOX_PUBLISHED (poll_measured I K topic worker now batch p)
    \<and> p_failed p' = p_failed p + how_many OUTBOX_FAILED (poll_measured I K topic worker now batch p)
    \<and> Suc (length (p_sent p')) = length (p_sent p) + length (poll_measured I K topic worker now batch p)"
proof -
  obtain w rows where c: "claim_pending_outbox worker now batch (p_db p) = (w, rows)" by fastforce
  have "publish_rows I K topic now rows 0 (p\<lparr>p_db := w\<rparr>) = (p', r)" using assms by (simp add: poll_once_def c)
  from rows_counted [OF this] show ?thesis by (simp add: poll_measured_def c how_many_def)
qed

subsection \<open>Counters only grow\<close>

text \<open>A counter refuses a negative amount; the engine never gives one.\<close>

definition acceptable :: "measurement \<Rightarrow> bool" where
  "acceptable m \<longleftrightarrow> fst (snd (instrument (ms_metric m))) \<noteq> Counter \<or> 0 \<le> ms_value m"

lemma acceptable_measure [simp]: "0 \<le> x \<Longrightarrow> acceptable (measure m x ls)"
  "fst (snd (instrument m)) \<noteq> Counter \<Longrightarrow> acceptable (measure m x ls)"
  by (simp_all add: acceptable_def measure_def)

lemma pages_nonneg: "ocr_lines E content mime = Inr (ls, pages) \<Longrightarrow> 0 \<le> pages"
  by (auto simp: ocr_lines_def elim!: rbind_InrE split: if_splits)

lemma extraction_acceptable: "list_all acceptable (extraction_measured E doc lines)"
  by (simp add: extraction_measured_def split: sum.split)

lemma analysis_acceptable: "list_all acceptable (analysis_measured E T doc content)"
  using pages_nonneg by (auto simp: analysis_measured_def extraction_acceptable split: sum.split option.split)

lemma failure_acceptable: "list_all acceptable (failure_measured E T code)"
  by (simp add: failure_measured_def)

lemma handler_acceptable: "list_all acceptable (handler_measured E T s doc e w)"
proof -
  have "list_all acceptable (case fst (handler e) of None \<Rightarrow> []
      | Some (code, message) \<Rightarrow>
          (case fail_document E s doc code message w of (w', Inl e') \<Rightarrow> [] | (w', Inr _) \<Rightarrow> failure_measured E T code))"
    by (simp add: failure_acceptable split: option.split prod.split sum.split)
  then show ?thesis unfolding handler_measured_def list_all_append by (cases e) simp_all
qed

lemma run_acceptable: "list_all acceptable (run_measured E T s1 s2 doc w)"
proof -
  obtain io' tmp got where f: "fetch E doc (w_io w) = (io', tmp, got)" by (metis prod.collapse)
  have "list_all acceptable (case got of Inl e \<Rightarrow> []
      | Inr content \<Rightarrow> measure DOCUMENT_SIZE (of_nat (length content)) [] # analysis_measured E T doc content)"
    by (simp add: analysis_acceptable split: sum.split)
  moreover have "list_all acceptable (case rbind got (analyse E doc) of
      Inl e \<Rightarrow> handler_measured E T s2 doc e (w_db w)
    | Inr (result, status) \<Rightarrow>
        (case complete_document E s1 doc result status (w_db w) of
           (db', Inl e) \<Rightarrow> handler_measured E T s2 doc e db'
         | (db', Inr _) \<Rightarrow> success_measured E T status))"
    by (simp add: handler_acceptable success_measured_def split: sum.split prod.split)
  ultimately show ?thesis by (simp add: run_measured_def f)
qed

lemma process_acceptable: "list_all acceptable (process_measured E now T s1 s2 document_id w)"
  by (auto simp: process_measured_def run_acceptable split: option.split)

lemma instrument_names_distinct: "fst (instrument m) = fst (instrument n) \<Longrightarrow> m = n"
  by (cases m; cases n; simp)

end
