(* ===== verification/Ocr_Migrations.thy ===== *)
theory Ocr_Migrations
  imports Ocr_Store
begin

text \<open>
  The migrations (\<open>migrations/versions/*.py\<close>) as the statements they execute, on a catalog of the server with
  its extensions, functions, tables and indexes, and their environment (\<open>migrations/env.py\<close>). Which revisions are run
  and in which transaction is Alembic's choice: there it is a parameter, and the theorems are about the statements of
  the revisions in their order. The columns, the constraints and the unique indexes are what \<open>repo/store.py\<close> relies
  on: that they are the right ones is the theorem \<open>schema_fits_store\<close>.
\<close>

subsection \<open>The schema of the database\<close>

datatype sqltype = Uuid | Text | Varchar nat | Bigint | Integer | Double_precision | Jsonb | Timestamptz

datatype sqlv = Sql_null | Sql_uuid uuid | Sql_text pystr | Sql_int int | Sql_float rat | Sql_json pyv | Sql_time int

datatype default_value = No_default | Call string | Literal sqlv

datatype condition =
    Is_null string
  | Is_not_null string
  | One_of string "pystr list"
  | Both condition condition

record column =
  cn_name :: string
  cn_type :: sqltype
  cn_primary :: bool
  cn_not_null :: bool
  cn_default :: default_value

datatype statement =
    Create_extension string
  | Create_table string "column list" "(string \<times> condition) list"
  | Create_index bool string string "string list" "condition option"
  | Drop_table string

definition col :: "string \<Rightarrow> sqltype \<Rightarrow> column" where
  "col name type = \<lparr>cn_name = name, cn_type = type, cn_primary = False, cn_not_null = True, cn_default = No_default\<rparr>"

definition null_col :: "string \<Rightarrow> sqltype \<Rightarrow> column" where
  "null_col name type = (col name type)\<lparr>cn_not_null := False\<rparr>"

definition default_col :: "string \<Rightarrow> sqltype \<Rightarrow> default_value \<Rightarrow> column" where
  "default_col name type v = (col name type)\<lparr>cn_default := v\<rparr>"

definition key_col :: "string \<Rightarrow> sqltype \<Rightarrow> default_value \<Rightarrow> column" where
  "key_col name type v = (default_col name type v)\<lparr>cn_primary := True\<rparr>"

definition documents_columns :: "column list" where
  "documents_columns =
     [key_col ''id'' Uuid (Call ''uuidv7''), col ''idempotency_key'' Uuid, col ''external_ref'' Text,
      col ''doc_type'' (Varchar 50), default_col ''status'' (Varchar 20) (Literal (Sql_text (U ''queued''))),
      col ''caller_id'' Text, col ''source_bucket'' Text, col ''source_path'' Text, col ''declared_mime'' (Varchar 100),
      col ''size_bytes'' Bigint,
      null_col ''result'' Jsonb, null_col ''avg_confidence'' Double_precision, null_col ''error_code'' (Varchar 50),
      null_col ''error_message'' Text, null_col ''trace_id'' Text,
      null_col ''processed_at'' Timestamptz, default_col ''created_at'' Timestamptz (Call ''now''),
      default_col ''updated_at'' Timestamptz (Call ''now'')]"

definition documents_checks :: "(string \<times> condition) list" where
  "documents_checks =
     [(''ck_documents_status'',
       One_of ''status'' [U ''queued'', U ''processing'', U ''completed'', U ''needs_review'', U ''failed''])]"

definition outbox_columns :: "column list" where
  "outbox_columns =
     [key_col ''id'' Uuid (Call ''uuidv7''), col ''aggregate_type'' (Varchar 50), col ''aggregate_id'' Uuid,
      col ''event_type'' (Varchar 100), default_col ''event_version'' Integer (Literal (Sql_int 1)), col ''topic'' (Varchar 200),
      col ''payload'' Jsonb, default_col ''created_at'' Timestamptz (Call ''now''), null_col ''published_at'' Timestamptz,
      null_col ''trace_id'' (Varchar 255), default_col ''attempt_count'' Integer (Literal (Sql_int 0)),
      null_col ''next_attempt_at'' Timestamptz, null_col ''locked_at'' Timestamptz, null_col ''locked_by'' (Varchar 255),
      null_col ''last_error'' Text]"

record revision =
  rv_revision :: string
  rv_down_revision :: "string option"
  rv_upgrade :: "statement list"
  rv_downgrade :: "statement list"

definition revision_0001 :: revision where
  "revision_0001 =
     \<lparr>rv_revision = ''0001'', rv_down_revision = None, rv_upgrade = [Create_extension ''pgcrypto''], rv_downgrade = []\<rparr>"

definition revision_0002 :: revision where
  "revision_0002 =
     \<lparr>rv_revision = ''0002'', rv_down_revision = Some ''0001'',
      rv_upgrade =
        [Create_table ''documents'' documents_columns documents_checks,
         Create_index True ''ux_documents_idempotency_key'' ''documents'' [''idempotency_key''] None,
         Create_index False ''ix_documents_status'' ''documents'' [''status'', ''created_at''] None,
         Create_index False ''ix_documents_external_ref'' ''documents'' [''external_ref''] None],
      rv_downgrade = [Drop_table ''documents'']\<rparr>"

definition revision_0003 :: revision where
  "revision_0003 =
     \<lparr>rv_revision = ''0003'', rv_down_revision = Some ''0002'',
      rv_upgrade =
        [Create_table ''outbox_events'' outbox_columns [],
         Create_index False ''idx_outbox_events_pending'' ''outbox_events'' [''created_at'', ''id'']
           (Some (Is_null ''published_at'')),
         Create_index False ''idx_outbox_events_retry'' ''outbox_events'' [''next_attempt_at'', ''id'']
           (Some (Both (Is_null ''published_at'') (Is_not_null ''next_attempt_at''))),
         Create_index False ''idx_outbox_events_aggregate'' ''outbox_events'' [''aggregate_type'', ''aggregate_id''] None],
      rv_downgrade = [Drop_table ''outbox_events'']\<rparr>"

definition revisions :: "revision list" where
  "revisions = [revision_0001, revision_0002, revision_0003]"

definition upgrade_all :: "statement list" where
  "upgrade_all = concat (map rv_upgrade revisions)"

definition downgrade_all :: "statement list" where
  "downgrade_all = concat (map rv_downgrade (rev revisions))"

subsection \<open>Executing the statements\<close>

text \<open>
  What the server knows: the installed extensions, the functions, the tables with their columns and checks, and the
  indexes. \<open>X\<close> gives the extensions that can be installed, with their functions.
\<close>

record table =
  tb_columns :: "column list"
  tb_checks :: "(string \<times> condition) list"

record index =
  ix_table :: string
  ix_unique :: bool
  ix_columns :: "string list"
  ix_where :: "condition option"

record catalog =
  ct_extensions :: "string list"
  ct_functions :: "string list"
  ct_tables :: "(string \<times> table) list"
  ct_indexes :: "(string \<times> index) list"

definition taken :: "string \<Rightarrow> catalog \<Rightarrow> bool" where
  "taken name c \<longleftrightarrow> name \<in> fst ` set (ct_tables c) \<union> fst ` set (ct_indexes c)"

definition called :: "column list \<Rightarrow> string list" where
  "called cs = concat (map (\<lambda>c. case cn_default c of Call f \<Rightarrow> [f] | _ \<Rightarrow> []) cs)"

fun mentioned :: "condition \<Rightarrow> string list" where
  "mentioned (Is_null n) = [n]"
| "mentioned (Is_not_null n) = [n]"
| "mentioned (One_of n vs) = [n]"
| "mentioned (Both p q) = mentioned p @ mentioned q"

definition primary_key :: "column list \<Rightarrow> string list" where
  "primary_key cs = map cn_name (filter cn_primary cs)"

definition undefined_column :: exn where
  "undefined_column = LibraryError (U ''UndefinedColumnError'')"

text \<open>
  A table with a primary key gets a unique index for it; the server would take another name for that index if its
  own is taken, here it has to be free.
\<close>

fun execute :: "(string \<Rightarrow> string list option) \<Rightarrow> statement \<Rightarrow> catalog \<Rightarrow> catalog res" where
  "execute X (Create_extension e) c =
     (if e \<in> set (ct_extensions c) then Inr c
      else (case X e of
              None \<Rightarrow> Inl (LibraryError (U ''FeatureNotSupportedError''))
            | Some fs \<Rightarrow> Inr (c\<lparr>ct_extensions := e # ct_extensions c, ct_functions := fs @ ct_functions c\<rparr>)))"
| "execute X (Create_table t cs checks) c =
     (if taken t c \<or> taken (t @ ''_pkey'') c then Inl (LibraryError (U ''DuplicateTableError''))
      else if \<not> distinct (map cn_name cs) then Inl (LibraryError (U ''DuplicateColumnError''))
      else if \<not> set (concat (map (\<lambda>p. mentioned (snd p)) checks)) \<subseteq> set (map cn_name cs) then Inl undefined_column
      else if \<not> set (called cs) \<subseteq> set (ct_functions c) then Inl (LibraryError (U ''UndefinedFunctionError''))
      else Inr (c\<lparr>ct_tables := (t, \<lparr>tb_columns = cs, tb_checks = checks\<rparr>) # ct_tables c,
                  ct_indexes := (if primary_key cs = [] then []
                    else [(t @ ''_pkey'', \<lparr>ix_table = t, ix_unique = True, ix_columns = primary_key cs, ix_where = None\<rparr>)])
                    @ ct_indexes c\<rparr>))"
| "execute X (Create_index u i t cs p) c =
     (if taken i c then Inl (LibraryError (U ''DuplicateTableError''))
      else (case map_of (ct_tables c) t of
              None \<Rightarrow> Inl (LibraryError (U ''UndefinedTableError''))
            | Some tb \<Rightarrow>
                if \<not> set (cs @ (case p of Some q \<Rightarrow> mentioned q | None \<Rightarrow> [])) \<subseteq> set (map cn_name (tb_columns tb))
                then Inl undefined_column
                else Inr (c\<lparr>ct_indexes := (i, \<lparr>ix_table = t, ix_unique = u, ix_columns = cs, ix_where = p\<rparr>) # ct_indexes c\<rparr>)))"
| "execute X (Drop_table t) c =
     Inr (c\<lparr>ct_tables := filter (\<lambda>r. fst r \<noteq> t) (ct_tables c),
            ct_indexes := filter (\<lambda>r. ix_table (snd r) \<noteq> t) (ct_indexes c)\<rparr>)"

fun execute_all :: "(string \<Rightarrow> string list option) \<Rightarrow> statement list \<Rightarrow> catalog \<Rightarrow> catalog res" where
  "execute_all X [] c = Inr c"
| "execute_all X (s # ss) c = rbind (execute X s c) (execute_all X ss)"

subsection \<open>What the tables accept\<close>

definition fits :: "pg \<Rightarrow> sqltype \<Rightarrow> sqlv \<Rightarrow> bool" where
  "fits P t v =
     (case (t, v) of
        (Uuid, Sql_uuid u) \<Rightarrow> True
      | (Text, Sql_text s) \<Rightarrow> pg_text P s
      | (Varchar n, Sql_text s) \<Rightarrow> pg_text P s \<and> length s \<le> n
      | (Bigint, Sql_int k) \<Rightarrow> - (2 ^ 63) \<le> k \<and> k < 2 ^ 63
      | (Integer, Sql_int k) \<Rightarrow> - (2 ^ 31) \<le> k \<and> k < 2 ^ 31
      | (Double_precision, Sql_float x) \<Rightarrow> True
      | (Jsonb, Sql_json j) \<Rightarrow> pg_json P j
      | (Timestamptz, Sql_time x) \<Rightarrow> True
      | _ \<Rightarrow> False)"

text \<open>The truth of a condition on a row; a comparison with NULL is unknown (\<open>None\<close>).\<close>

fun truth :: "condition \<Rightarrow> (string \<times> sqlv) list \<Rightarrow> bool option" where
  "truth (Is_null n) row = Some (map_of row n = Some Sql_null)"
| "truth (Is_not_null n) row = Some (map_of row n \<noteq> Some Sql_null)"
| "truth (One_of n vs) row = (if map_of row n = Some Sql_null then None else Some (map_of row n \<in> Some ` Sql_text ` set vs))"
| "truth (Both p q) row =
     (case (truth p row, truth q row) of
        (Some a, Some b) \<Rightarrow> Some (a \<and> b)
      | (Some False, None) \<Rightarrow> Some False
      | (None, Some False) \<Rightarrow> Some False
      | _ \<Rightarrow> None)"

text \<open>A check refuses a row only when it is false; a partial index holds a row only when its condition is true.\<close>

definition accepts :: "pg \<Rightarrow> table \<Rightarrow> (string \<times> sqlv) list \<Rightarrow> bool" where
  "accepts P tb row \<longleftrightarrow>
     map fst row = map cn_name (tb_columns tb)
     \<and> list_all2 (\<lambda>cn (n, v). if v = Sql_null then \<not> cn_not_null cn else fits P (cn_type cn) v) (tb_columns tb) row
     \<and> list_all (\<lambda>(n, p). truth p row \<noteq> Some False) (tb_checks tb)"

definition indexed :: "index \<Rightarrow> (string \<times> sqlv) list \<Rightarrow> bool" where
  "indexed ix row \<longleftrightarrow> (case ix_where ix of None \<Rightarrow> True | Some p \<Rightarrow> truth p row = Some True)"

definition conflicts :: "catalog \<Rightarrow> string \<Rightarrow> (string \<times> sqlv) list \<Rightarrow> (string \<times> sqlv) list list \<Rightarrow> bool" where
  "conflicts c t row rows \<longleftrightarrow>
     list_ex (\<lambda>(n, ix). ix_table ix = t \<and> ix_unique ix \<and> indexed ix row
        \<and> list_ex (\<lambda>other. indexed ix other
             \<and> list_all (\<lambda>k. map_of row k = map_of other k \<and> map_of row k \<noteq> Some Sql_null) (ix_columns ix)) rows)
       (ct_indexes c)"

text \<open>An INSERT: the columns it leaves out get their default, which calls \<open>now()\<close> or \<open>uuidv7()\<close>, or NULL.\<close>

definition fill :: "(string \<Rightarrow> sqlv) \<Rightarrow> table \<Rightarrow> (string \<times> sqlv) list \<Rightarrow> (string \<times> sqlv) list" where
  "fill call tb named =
     map (\<lambda>cn. (cn_name cn, case map_of named (cn_name cn) of
            Some v \<Rightarrow> v
          | None \<Rightarrow> (case cn_default cn of No_default \<Rightarrow> Sql_null | Call f \<Rightarrow> call f | Literal v \<Rightarrow> v))) (tb_columns tb)"

definition insert_row ::
  "pg \<Rightarrow> (string \<Rightarrow> sqlv) \<Rightarrow> table \<Rightarrow> (string \<times> sqlv) list \<Rightarrow> (string \<times> sqlv) list option" where
  "insert_row P call tb named =
     (if fst ` set named \<subseteq> cn_name ` set (tb_columns tb) \<and> accepts P tb (fill call tb named)
      then Some (fill call tb named) else None)"

definition server_call :: "int \<Rightarrow> uuid \<Rightarrow> string \<Rightarrow> sqlv" where
  "server_call now eid f = (if f = ''now'' then Sql_time now else if f = ''uuidv7'' then Sql_uuid eid else Sql_null)"

text \<open>The columns the two INSERT statements of the store name, with their values.\<close>

fun nullable :: "('a \<Rightarrow> sqlv) \<Rightarrow> 'a option \<Rightarrow> sqlv" where
  "nullable f None = Sql_null"
| "nullable f (Some x) = f x"

definition document_insert :: "uuid \<Rightarrow> submission \<Rightarrow> (string \<times> sqlv) list" where
  "document_insert key q =
     [(''id'', Sql_uuid (s_document_id q)), (''idempotency_key'', Sql_uuid key),
      (''external_ref'', Sql_text (s_external_ref q)), (''doc_type'', Sql_text (s_schema_id q)),
      (''status'', Sql_text (U ''queued'')), (''caller_id'', Sql_text (s_caller_id q)),
      (''source_bucket'', Sql_text (s_source_bucket q)), (''source_path'', Sql_text (s_source_path q)),
      (''declared_mime'', Sql_text (s_declared_mime q)), (''size_bytes'', Sql_int (s_size_bytes q)),
      (''trace_id'', nullable Sql_text (s_trace_id q))]"

definition event_insert :: "uuid \<Rightarrow> pystr \<Rightarrow> pyv \<Rightarrow> pystr option \<Rightarrow> (string \<times> sqlv) list" where
  "event_insert i topic payload trace =
     [(''aggregate_type'', Sql_text (U ''document'')), (''aggregate_id'', Sql_uuid i),
      (''event_type'', Sql_text (U ''document.processed'')), (''event_version'', Sql_int 1),
      (''topic'', Sql_text topic), (''payload'', Sql_json payload), (''trace_id'', nullable Sql_text trace)]"

text \<open>A row of the store's model as a row of its table.\<close>

definition document_values :: "drow \<Rightarrow> (string \<times> sqlv) list" where
  "document_values r =
     [(''id'', Sql_uuid (d_id r)), (''idempotency_key'', Sql_uuid (d_key r)), (''external_ref'', Sql_text (d_external_ref r)),
      (''doc_type'', Sql_text (d_doc_type r)), (''status'', Sql_text (d_status r)), (''caller_id'', Sql_text (d_caller_id r)),
      (''source_bucket'', Sql_text (d_source_bucket r)), (''source_path'', Sql_text (d_source_path r)),
      (''declared_mime'', Sql_text (d_declared_mime r)), (''size_bytes'', Sql_int (d_size_bytes r)),
      (''result'', nullable Sql_json (d_result r)), (''avg_confidence'', nullable Sql_float (d_avg_confidence r)),
      (''error_code'', nullable Sql_text (d_error_code r)), (''error_message'', nullable Sql_text (d_error_message r)),
      (''trace_id'', nullable Sql_text (d_trace_id r)), (''processed_at'', nullable Sql_time (d_processed_at r)),
      (''created_at'', Sql_time (d_created_at r)), (''updated_at'', Sql_time (d_updated_at r))]"

definition event_values :: "orow \<Rightarrow> (string \<times> sqlv) list" where
  "event_values r =
     [(''id'', Sql_uuid (o_id r)), (''aggregate_type'', Sql_text (U ''document'')), (''aggregate_id'', Sql_uuid (o_aggregate_id r)),
      (''event_type'', Sql_text (o_event_type r)), (''event_version'', Sql_int (o_event_version r)), (''topic'', Sql_text (o_topic r)),
      (''payload'', Sql_json (o_payload r)), (''created_at'', Sql_time (o_created_at r)),
      (''published_at'', nullable Sql_time (o_published_at r)), (''trace_id'', nullable Sql_text (o_trace_id r)),
      (''attempt_count'', Sql_int (o_attempt_count r)), (''next_attempt_at'', nullable Sql_time (o_next_attempt_at r)),
      (''locked_at'', nullable Sql_time (o_locked_at r)), (''locked_by'', nullable Sql_text (o_locked_by r)),
      (''last_error'', nullable Sql_text (o_last_error r))]"

subsection \<open>The migration environment\<close>

text \<open>\<open>_dsn\<close>: \<open>environ\<close> is the value of \<open>OCR_DATABASE_DSN\<close>, if it is set.\<close>

definition dsn :: "pystr option \<Rightarrow> pystr res" where
  "dsn environ =
     (let d = (case environ of Some v \<Rightarrow> v | None \<Rightarrow> [])
      in if d = [] then Inl (RuntimeError (U ''OCR_DATABASE_DSN must be set for migrations''))
         else Inr (py_replace 1 (U ''postgres://'') (U ''postgresql+asyncpg://'') d))"

text \<open>
  Alembic and the engine are parameters: \<open>upgrade\<close> is what \<open>context.run_migrations\<close> does to the database at an
  address, over a connection of its engine, \<open>script\<close> what it prints for it offline.
\<close>

definition run_migrations_online :: "(pystr \<Rightarrow> 'm \<Rightarrow> 'm \<times> unit res) \<Rightarrow> pystr option \<Rightarrow> 'm \<Rightarrow> 'm \<times> unit res" where
  "run_migrations_online upgrade environ m =
     (case dsn environ of Inl e \<Rightarrow> (m, Inl e) | Inr url \<Rightarrow> upgrade url m)"

definition run_migrations_offline :: "(pystr \<Rightarrow> statement list res) \<Rightarrow> pystr option \<Rightarrow> statement list res" where
  "run_migrations_offline script environ = rbind (dsn environ) script"

text \<open>What the module does when Alembic loads it; offline it gives the statements printed.\<close>

definition migrate ::
  "bool \<Rightarrow> (pystr \<Rightarrow> 'm \<Rightarrow> 'm \<times> unit res) \<Rightarrow> (pystr \<Rightarrow> statement list res) \<Rightarrow> pystr option \<Rightarrow> 'm \<Rightarrow> 'm \<times> statement list res" where
  "migrate offline upgrade script environ m =
     (if offline then (m, run_migrations_offline script environ)
      else (case run_migrations_online upgrade environ m of (m', r) \<Rightarrow> (m', rbind r (\<lambda>_. Inr []))))"

text \<open>The DSN of the examples is named the driver; a missing one stops the migrations before they begin.\<close>

lemma dsn_driver: "dsn (Some (U ''postgres://'' @ s)) = Inr (U ''postgresql+asyncpg://'' @ s)"
  using py_replace_prefix [of "U ''postgres://''" 0 "U ''postgresql+asyncpg://''" s] by (simp add: dsn_def)

lemma offline_changes_nothing: "fst (migrate True upgrade script environ m) = m"
  by (simp add: migrate_def)

lemma no_dsn: "run_migrations_online upgrade None m = (m, Inl (RuntimeError (U ''OCR_DATABASE_DSN must be set for migrations'')))"
  by (simp add: run_migrations_online_def dsn_def)

subsection \<open>Up and down\<close>

definition documents_table :: table where
  "documents_table = \<lparr>tb_columns = documents_columns, tb_checks = documents_checks\<rparr>"

definition outbox_table :: table where
  "outbox_table = \<lparr>tb_columns = outbox_columns, tb_checks = []\<rparr>"

definition index_on :: "string \<Rightarrow> bool \<Rightarrow> string list \<Rightarrow> condition option \<Rightarrow> index" where
  "index_on t u cs p = \<lparr>ix_table = t, ix_unique = u, ix_columns = cs, ix_where = p\<rparr>"

definition created_indexes :: "(string \<times> index) list" where
  "created_indexes =
     [(''idx_outbox_events_aggregate'', index_on ''outbox_events'' False [''aggregate_type'', ''aggregate_id''] None),
      (''idx_outbox_events_retry'', index_on ''outbox_events'' False [''next_attempt_at'', ''id'']
         (Some (Both (Is_null ''published_at'') (Is_not_null ''next_attempt_at'')))),
      (''idx_outbox_events_pending'', index_on ''outbox_events'' False [''created_at'', ''id''] (Some (Is_null ''published_at''))),
      (''outbox_events_pkey'', index_on ''outbox_events'' True [''id''] None),
      (''ix_documents_external_ref'', index_on ''documents'' False [''external_ref''] None),
      (''ix_documents_status'', index_on ''documents'' False [''status'', ''created_at''] None),
      (''ux_documents_idempotency_key'', index_on ''documents'' True [''idempotency_key''] None),
      (''documents_pkey'', index_on ''documents'' True [''id''] None)]"

text \<open>A catalog in which the names of the service are free and no index is left of a table of those names.\<close>

definition free_catalog :: "catalog \<Rightarrow> bool" where
  "free_catalog c \<longleftrightarrow>
     list_all (\<lambda>n. \<not> taken n c) ([''documents'', ''outbox_events''] @ map fst created_indexes)
     \<and> list_all (\<lambda>(n, ix). ix_table ix \<noteq> ''documents'' \<and> ix_table ix \<noteq> ''outbox_events'') (ct_indexes c)"

lemma column_facts:
  "map cn_name documents_columns = [''id'', ''idempotency_key'', ''external_ref'', ''doc_type'', ''status'', ''caller_id'',
     ''source_bucket'', ''source_path'', ''declared_mime'', ''size_bytes'', ''result'', ''avg_confidence'', ''error_code'',
     ''error_message'', ''trace_id'', ''processed_at'', ''created_at'', ''updated_at'']"
  "map cn_name outbox_columns = [''id'', ''aggregate_type'', ''aggregate_id'', ''event_type'', ''event_version'', ''topic'',
     ''payload'', ''created_at'', ''published_at'', ''trace_id'', ''attempt_count'', ''next_attempt_at'', ''locked_at'',
     ''locked_by'', ''last_error'']"
  "set (called documents_columns) = {''uuidv7'', ''now''}" "set (called outbox_columns) = {''uuidv7'', ''now''}"
  "primary_key documents_columns = [''id'']" "primary_key outbox_columns = [''id'']"
  by (simp_all add: documents_columns_def outbox_columns_def called_def primary_key_def key_col_def default_col_def
      col_def null_col_def)

lemma execute_all_append: "execute_all X (ss @ ts) c = rbind (execute_all X ss c) (execute_all X ts)"
  by (induction ss arbitrary: c) (auto simp: rbind_def split: sum.split)

lemma upgrade_split: "upgrade_all = Create_extension ''pgcrypto'' # rv_upgrade revision_0002 @ rv_upgrade revision_0003"
  by (simp add: upgrade_all_def revisions_def revision_0001_def)

lemma documents_created:
  "execute X (Create_table ''documents'' documents_columns documents_checks) c =
     (if taken ''documents'' c \<or> taken ''documents_pkey'' c then Inl (LibraryError (U ''DuplicateTableError''))
      else if \<not> {''uuidv7'', ''now''} \<subseteq> set (ct_functions c) then Inl (LibraryError (U ''UndefinedFunctionError''))
      else Inr (c\<lparr>ct_tables := (''documents'', documents_table) # ct_tables c,
                  ct_indexes := (''documents_pkey'', index_on ''documents'' True [''id''] None) # ct_indexes c\<rparr>))"
  by (simp add: column_facts documents_checks_def documents_table_def index_on_def
      list.set_map [symmetric] del: list.set_map)

lemma outbox_created:
  "execute X (Create_table ''outbox_events'' outbox_columns []) c =
     (if taken ''outbox_events'' c \<or> taken ''outbox_events_pkey'' c then Inl (LibraryError (U ''DuplicateTableError''))
      else if \<not> {''uuidv7'', ''now''} \<subseteq> set (ct_functions c) then Inl (LibraryError (U ''UndefinedFunctionError''))
      else Inr (c\<lparr>ct_tables := (''outbox_events'', outbox_table) # ct_tables c,
                  ct_indexes := (''outbox_events_pkey'', index_on ''outbox_events'' True [''id''] None) # ct_indexes c\<rparr>))"
  by (simp add: column_facts outbox_table_def index_on_def)

lemma index_created:
  "execute X (Create_index u i t cs p) c =
     (if taken i c then Inl (LibraryError (U ''DuplicateTableError''))
      else (case map_of (ct_tables c) t of
              None \<Rightarrow> Inl (LibraryError (U ''UndefinedTableError''))
            | Some tb \<Rightarrow>
                if \<not> set (cs @ (case p of Some q \<Rightarrow> mentioned q | None \<Rightarrow> [])) \<subseteq> set (map cn_name (tb_columns tb))
                then Inl undefined_column
                else Inr (c\<lparr>ct_indexes := (i, index_on t u cs p) # ct_indexes c\<rparr>)))"
  by (simp only: execute.simps index_on_def)

lemma table_columns:
  "map cn_name (tb_columns documents_table) = map cn_name documents_columns"
  "map cn_name (tb_columns outbox_table) = map cn_name outbox_columns"
  by (simp_all add: documents_table_def outbox_table_def)

lemma step_ok: "execute X s c = Inr c1 \<Longrightarrow> execute_all X (s # ss) c = execute_all X ss c1"
  by simp

lemma index_ok:
  assumes "\<not> taken i c" and "map_of (ct_tables c) t = Some tb"
    and "set (cs @ (case p of Some q \<Rightarrow> mentioned q | None \<Rightarrow> [])) \<subseteq> set (map cn_name (tb_columns tb))"
  shows "execute_all X (Create_index u i t cs p # ss) c = execute_all X ss (c\<lparr>ct_indexes := (i, index_on t u cs p) # ct_indexes c\<rparr>)"
  using assms by (intro step_ok) (simp add: index_created del: execute.simps)

lemma not_taken_more:
  "\<not> taken n c \<Longrightarrow> n \<noteq> i \<Longrightarrow> \<not> taken n (c\<lparr>ct_indexes := (i, ix) # ct_indexes c\<rparr>)"
  "\<not> taken n c \<Longrightarrow> n \<noteq> i \<Longrightarrow> n \<noteq> t \<Longrightarrow>
     \<not> taken n (c\<lparr>ct_tables := (t, tb) # ct_tables c, ct_indexes := (i, ix) # ct_indexes c\<rparr>)"
  by (auto simp: taken_def)

lemma documents_upgraded:
  assumes "free_catalog c" and "{''uuidv7'', ''now''} \<subseteq> set (ct_functions c)"
  shows "execute_all X (rv_upgrade revision_0002) c =
     Inr (c\<lparr>ct_tables := (''documents'', documents_table) # ct_tables c, ct_indexes := drop 4 created_indexes @ ct_indexes c\<rparr>)"
proof -
  let ?c1 = "c\<lparr>ct_tables := (''documents'', documents_table) # ct_tables c,
      ct_indexes := (''documents_pkey'', index_on ''documents'' True [''id''] None) # ct_indexes c\<rparr>"
  let ?c2 = "?c1\<lparr>ct_indexes := (''ux_documents_idempotency_key'', index_on ''documents'' True [''idempotency_key''] None) # ct_indexes ?c1\<rparr>"
  let ?c3 = "?c2\<lparr>ct_indexes := (''ix_documents_status'', index_on ''documents'' False [''status'', ''created_at''] None) # ct_indexes ?c2\<rparr>"
  let ?c4 = "?c3\<lparr>ct_indexes := (''ix_documents_external_ref'', index_on ''documents'' False [''external_ref''] None) # ct_indexes ?c3\<rparr>"
  have t: "map_of (ct_tables d) ''documents'' = Some documents_table" if "d \<in> {?c1, ?c2, ?c3}" for d using that by auto
  have free: "\<not> taken n c"
    if "n \<in> {''documents'', ''documents_pkey'', ''ux_documents_idempotency_key'', ''ix_documents_status'', ''ix_documents_external_ref''}" for n
    using that assms(1) by (auto simp: free_catalog_def created_indexes_def)
  have 1: "execute X (Create_table ''documents'' documents_columns documents_checks) c = Inr ?c1"
    using free assms(2) by (simp add: documents_created del: execute.simps)
  have n2: "\<not> taken ''ux_documents_idempotency_key'' ?c1" by (intro not_taken_more(2) free) simp_all
  have n3: "\<not> taken ''ix_documents_status'' ?c2" by (intro not_taken_more free) simp_all
  have n4: "\<not> taken ''ix_documents_external_ref'' ?c3" by (intro not_taken_more free) simp_all
  note columns = table_columns column_facts
  have "execute_all X (rv_upgrade revision_0002) c = Inr ?c4"
    unfolding revision_0002_def revision.select_convs step_ok [OF 1]
    by (subst index_ok [OF n2 t], simp, simp add: columns del: list.set_map,
        subst index_ok [OF n3 t], simp, simp add: columns del: list.set_map,
        subst index_ok [OF n4 t], simp, simp add: columns del: list.set_map, simp)
  then show ?thesis by (simp add: created_indexes_def)
qed

lemma outbox_upgraded:
  assumes "free_catalog c" and "{''uuidv7'', ''now''} \<subseteq> set (ct_functions c)"
  shows "execute_all X (rv_upgrade revision_0003)
      (c\<lparr>ct_tables := (''documents'', documents_table) # ct_tables c, ct_indexes := drop 4 created_indexes @ ct_indexes c\<rparr>) =
     Inr (c\<lparr>ct_tables := (''outbox_events'', outbox_table) # (''documents'', documents_table) # ct_tables c,
            ct_indexes := created_indexes @ ct_indexes c\<rparr>)"
proof -
  let ?c = "c\<lparr>ct_tables := (''documents'', documents_table) # ct_tables c, ct_indexes := drop 4 created_indexes @ ct_indexes c\<rparr>"
  let ?c1 = "?c\<lparr>ct_tables := (''outbox_events'', outbox_table) # ct_tables ?c,
      ct_indexes := (''outbox_events_pkey'', index_on ''outbox_events'' True [''id''] None) # ct_indexes ?c\<rparr>"
  let ?c2 = "?c1\<lparr>ct_indexes := (''idx_outbox_events_pending'', index_on ''outbox_events'' False [''created_at'', ''id'']
      (Some (Is_null ''published_at''))) # ct_indexes ?c1\<rparr>"
  let ?c3 = "?c2\<lparr>ct_indexes := (''idx_outbox_events_retry'', index_on ''outbox_events'' False [''next_attempt_at'', ''id'']
      (Some (Both (Is_null ''published_at'') (Is_not_null ''next_attempt_at'')))) # ct_indexes ?c2\<rparr>"
  let ?c4 = "?c3\<lparr>ct_indexes := (''idx_outbox_events_aggregate'', index_on ''outbox_events'' False
      [''aggregate_type'', ''aggregate_id''] None) # ct_indexes ?c3\<rparr>"
  have t: "map_of (ct_tables d) ''outbox_events'' = Some outbox_table" if "d \<in> {?c1, ?c2, ?c3}" for d using that by auto
  have free: "\<not> taken n ?c"
    if "n \<in> {''outbox_events'', ''outbox_events_pkey'', ''idx_outbox_events_pending'', ''idx_outbox_events_retry'', ''idx_outbox_events_aggregate''}" for n
    using that assms(1) by (auto simp: free_catalog_def created_indexes_def taken_def)
  have 1: "execute X (Create_table ''outbox_events'' outbox_columns []) ?c = Inr ?c1"
    using free assms(2) by (simp add: outbox_created del: execute.simps)
  have n2: "\<not> taken ''idx_outbox_events_pending'' ?c1" by (intro not_taken_more(2) free) simp_all
  have n3: "\<not> taken ''idx_outbox_events_retry'' ?c2" by (intro not_taken_more free) simp_all
  have n4: "\<not> taken ''idx_outbox_events_aggregate'' ?c3" by (intro not_taken_more free) simp_all
  note columns = table_columns column_facts
  have "execute_all X (rv_upgrade revision_0003) ?c = Inr ?c4"
    unfolding revision_0003_def revision.select_convs step_ok [OF 1]
    by (subst index_ok [OF n2 t], simp, simp add: columns del: list.set_map,
        subst index_ok [OF n3 t], simp, simp add: columns del: list.set_map,
        subst index_ok [OF n4 t], simp, simp add: columns del: list.set_map, simp)
  then show ?thesis by (simp add: created_indexes_def)
qed

lemma extension_installed:
  assumes "execute X (Create_extension e) c = Inr c1"
  shows "ct_tables c1 = ct_tables c" and "ct_indexes c1 = ct_indexes c" and "set (ct_functions c) \<subseteq> set (ct_functions c1)"
  using assms by (auto split: if_splits option.splits)

lemma free_same: "ct_tables c1 = ct_tables c \<Longrightarrow> ct_indexes c1 = ct_indexes c \<Longrightarrow> free_catalog c1 = free_catalog c"
  by (simp add: free_catalog_def taken_def)

text \<open>On a catalog where the names are free the upgrades either arrive at the schema or fail for want of a function.\<close>

lemma upgraded:
  assumes "execute X (Create_extension ''pgcrypto'') c = Inr c1" and "free_catalog c"
  shows "execute_all X upgrade_all c =
     (if {''uuidv7'', ''now''} \<subseteq> set (ct_functions c1)
      then Inr (c1\<lparr>ct_tables := (''outbox_events'', outbox_table) # (''documents'', documents_table) # ct_tables c,
                   ct_indexes := created_indexes @ ct_indexes c\<rparr>)
      else Inl (LibraryError (U ''UndefinedFunctionError'')))"
proof -
  note same = extension_installed(1,2) [OF assms(1)]
  have free: "free_catalog c1" using assms(2) free_same [OF same] by simp
  have up: "execute_all X upgrade_all c = rbind (execute_all X (rv_upgrade revision_0002) c1) (execute_all X (rv_upgrade revision_0003))"
    unfolding upgrade_split step_ok [OF assms(1)] by (rule execute_all_append)
  show ?thesis
  proof (cases "{''uuidv7'', ''now''} \<subseteq> set (ct_functions c1)")
    case True
    then show ?thesis unfolding up documents_upgraded [OF free True] using outbox_upgraded [OF free True] by (simp add: same)
  next
    case False
    have "\<not> taken ''documents'' c1" "\<not> taken ''documents_pkey'' c1"
      using free by (simp_all add: free_catalog_def created_indexes_def)
    then have "execute X (Create_table ''documents'' documents_columns documents_checks) c1
        = Inl (LibraryError (U ''UndefinedFunctionError''))"
      unfolding documents_created using False by (simp only: if_False if_True simp_thms)
    then show ?thesis unfolding up revision_0002_def revision.select_convs using False by (simp del: execute.simps)
  qed
qed

text \<open>
  Property C37: on a server where \<open>uuidv7()\<close> and \<open>now()\<close> exist, \<open>pgcrypto\<close> can be installed and the names of the service
  are free, the upgrades of the three revisions, each of which follows the one before, go through and add the
  two tables, with their columns and checks, and the eight indexes, with their columns and conditions, and nothing
  else; and the downgrades in the reverse order restore the tables and the indexes there were, all but the
  extension, which the first revision leaves installed.
\<close>

theorem migrations_roundtrip:
  assumes "{''uuidv7'', ''now''} \<subseteq> set (ct_functions c)" and "X ''pgcrypto'' = Some fs" and "free_catalog c"
  shows "map rv_down_revision revisions = None # map Some (butlast (map rv_revision revisions))
    \<and> (\<exists>c'. execute_all X (concat (map rv_upgrade revisions)) c = Inr c'
         \<and> ct_tables c' = (''outbox_events'', outbox_table) # (''documents'', documents_table) # ct_tables c
         \<and> ct_indexes c' = created_indexes @ ct_indexes c
         \<and> (\<exists>c''. execute_all X (concat (map rv_downgrade (rev revisions))) c' = Inr c''
              \<and> ct_tables c'' = ct_tables c \<and> ct_indexes c'' = ct_indexes c
              \<and> ct_extensions c'' = ct_extensions c' \<and> ''pgcrypto'' \<in> set (ct_extensions c'')))"
proof -
  obtain c1 where c1: "execute X (Create_extension ''pgcrypto'') c = Inr c1" and ext: "''pgcrypto'' \<in> set (ct_extensions c1)"
    using assms(2) by (cases "''pgcrypto'' \<in> set (ct_extensions c)") auto
  let ?c = "c1\<lparr>ct_tables := (''outbox_events'', outbox_table) # (''documents'', documents_table) # ct_tables c,
      ct_indexes := created_indexes @ ct_indexes c\<rparr>"
  have up: "execute_all X (concat (map rv_upgrade revisions)) c = Inr ?c"
    using upgraded [OF c1 assms(3)] extension_installed(3) [OF c1] assms(1) unfolding upgrade_all_def by auto
  have "t \<notin> fst ` set (ct_tables c)" if "t \<in> {''documents'', ''outbox_events''}" for t
    using assms(3) that unfolding free_catalog_def taken_def by (elim insertE emptyE) simp_all
  then have tables: "filter (\<lambda>r. fst r \<noteq> t) (ct_tables c) = ct_tables c" if "t \<in> {''documents'', ''outbox_events''}" for t
    using that by (intro filter_id_unchanged) (metis imageI)
  have indexes: "filter (\<lambda>r. ix_table (snd r) \<noteq> t) (ct_indexes c) = ct_indexes c" if "t \<in> {''documents'', ''outbox_events''}" for t
    using assms(3) that by (intro filter_id_unchanged) (auto simp: free_catalog_def list_all_iff)
  obtain c'' where down: "execute_all X (concat (map rv_downgrade (rev revisions))) ?c = Inr c''" "ct_tables c'' = ct_tables c"
      "ct_indexes c'' = ct_indexes c" "ct_extensions c'' = ct_extensions c1"
    by (simp add: revisions_def revision_0001_def revision_0002_def revision_0003_def tables indexes
        created_indexes_def index_on_def)
  have chain: "map rv_down_revision revisions = None # map Some (butlast (map rv_revision revisions))"
    by (simp add: revisions_def revision_0001_def revision_0002_def revision_0003_def)
  show ?thesis
    by (rule conjI [OF chain], intro exI [of _ ?c] conjI up exI [of _ c''] down) (simp_all add: down ext)
qed

definition demo_catalog :: catalog where
  "demo_catalog = \<lparr>ct_extensions = [], ct_functions = [''now'', ''uuidv7''],
     ct_tables = [(''alembic_version'', \<lparr>tb_columns = [col ''version_num'' (Varchar 32)], tb_checks = []\<rparr>)], ct_indexes = []\<rparr>"

definition demo_extensions :: "string \<Rightarrow> string list option" where
  "demo_extensions e = (if e = ''pgcrypto'' then Some [''gen_random_uuid'', ''digest''] else None)"

lemma demo_catalog_fits:
  "{''uuidv7'', ''now''} \<subseteq> set (ct_functions demo_catalog)" "demo_extensions ''pgcrypto'' = Some [''gen_random_uuid'', ''digest'']"
  "free_catalog demo_catalog"
  by (simp_all add: demo_catalog_def demo_extensions_def free_catalog_def taken_def created_indexes_def)

theorem migrations_roundtrip_witness:
  "case execute_all demo_extensions (concat (map rv_upgrade revisions)) demo_catalog of
     Inr c \<Rightarrow> map fst (ct_tables c) = [''outbox_events'', ''documents'', ''alembic_version''] | Inl e \<Rightarrow> False"
  using migrations_roundtrip [where X = demo_extensions, OF demo_catalog_fits] by (auto simp: demo_catalog_def)

text \<open>
  A server whose \<open>uuidv7()\<close> comes neither by itself nor with \<open>pgcrypto\<close> refuses the second revision, although the first
  says that the extension covers such servers.
\<close>

lemma old_server_refused:
  assumes "''uuidv7'' \<notin> set (ct_functions c)" and "X ''pgcrypto'' = Some fs" and "''uuidv7'' \<notin> set fs" and "free_catalog c"
  shows "execute_all X upgrade_all c = Inl (LibraryError (U ''UndefinedFunctionError''))"
proof -
  obtain c1 where c1: "execute X (Create_extension ''pgcrypto'') c = Inr c1" and no: "''uuidv7'' \<notin> set (ct_functions c1)"
    using assms by (cases "''pgcrypto'' \<in> set (ct_extensions c)") auto
  then show ?thesis using upgraded [OF c1 assms(4)] by simp
qed

subsection \<open>The schema and the store\<close>

lemma fits_simps [simp]:
  "fits P Uuid (Sql_uuid u)" "fits P Text (Sql_text s) = pg_text P s" "fits P (Varchar n) (Sql_text s) = (pg_text P s \<and> length s \<le> n)"
  "fits P Bigint (Sql_int k) = (- (2 ^ 63) \<le> k \<and> k < 2 ^ 63)" "fits P Integer (Sql_int k) = (- (2 ^ 31) \<le> k \<and> k < 2 ^ 31)"
  "fits P Double_precision (Sql_float x)" "fits P Jsonb (Sql_json j) = pg_json P j" "fits P Timestamptz (Sql_time t)"
  by (simp_all add: fits_def)

lemma nullable_fits:
  "(nullable Sql_text x \<noteq> Sql_null \<longrightarrow> fits P t (nullable Sql_text x)) = (case x of None \<Rightarrow> True | Some y \<Rightarrow> fits P t (Sql_text y))"
  "(nullable Sql_json z \<noteq> Sql_null \<longrightarrow> fits P t (nullable Sql_json z)) = (case z of None \<Rightarrow> True | Some y \<Rightarrow> fits P t (Sql_json y))"
  "(nullable Sql_float a \<noteq> Sql_null \<longrightarrow> fits P t (nullable Sql_float a)) = (case a of None \<Rightarrow> True | Some y \<Rightarrow> fits P t (Sql_float y))"
  "(nullable Sql_time n \<noteq> Sql_null \<longrightarrow> fits P t (nullable Sql_time n)) = (case n of None \<Rightarrow> True | Some y \<Rightarrow> fits P t (Sql_time y))"
  by (cases x, simp, simp, cases z, simp, simp, cases a, simp, simp, cases n, simp, simp)

lemma column_shape:
  "cn_name (col n t) = n" "cn_type (col n t) = t" "cn_not_null (col n t)" "cn_default (col n t) = No_default"
  "cn_name (null_col n t) = n" "cn_type (null_col n t) = t" "\<not> cn_not_null (null_col n t)" "cn_default (null_col n t) = No_default"
  "cn_name (default_col n t v) = n" "cn_type (default_col n t v) = t" "cn_not_null (default_col n t v)" "cn_default (default_col n t v) = v"
  "cn_name (key_col n t v) = n" "cn_type (key_col n t v) = t" "cn_not_null (key_col n t v)" "cn_default (key_col n t v) = v"
  by (simp_all add: col_def null_col_def default_col_def key_col_def)

lemma value_ok:
  "(if v = Sql_null then \<not> cn_not_null cn else fits P (cn_type cn) v) \<longleftrightarrow>
     (v = Sql_null \<longrightarrow> \<not> cn_not_null cn) \<and> (v \<noteq> Sql_null \<longrightarrow> fits P (cn_type cn) v)"
  by simp

lemma document_names: "map fst (document_values r) = map cn_name documents_columns"
  by (simp add: document_values_def column_facts)

lemma event_names: "map fst (event_values r) = map cn_name outbox_columns"
  by (simp add: event_values_def column_facts)

lemma status_check:
  "list_all (\<lambda>(n, p). truth p (document_values r) \<noteq> Some False) documents_checks \<longleftrightarrow> d_status r \<in> set statuses"
  by (simp add: documents_checks_def document_values_def statuses_def)

lemma accepts_document:
  "accepts P documents_table (document_values r) \<longleftrightarrow>
     list_all (pg_text P) [d_external_ref r, d_doc_type r, d_status r, d_caller_id r, d_source_bucket r, d_source_path r, d_declared_mime r]
     \<and> length (d_doc_type r) \<le> 50 \<and> length (d_status r) \<le> 20 \<and> length (d_declared_mime r) \<le> 100
     \<and> - (2 ^ 63) \<le> d_size_bytes r \<and> d_size_bytes r < 2 ^ 63
     \<and> (case d_result r of None \<Rightarrow> True | Some v \<Rightarrow> pg_json P v)
     \<and> (case d_error_code r of None \<Rightarrow> True | Some e \<Rightarrow> pg_text P e \<and> length e \<le> 50)
     \<and> (case d_error_message r of None \<Rightarrow> True | Some e \<Rightarrow> pg_text P e)
     \<and> (case d_trace_id r of None \<Rightarrow> True | Some e \<Rightarrow> pg_text P e)
     \<and> d_status r \<in> set statuses"
  unfolding accepts_def documents_table_def table.select_convs document_names status_check
  unfolding value_ok documents_columns_def document_values_def
  by (simp add: column_shape nullable_fits cong: option.case_cong) (auto split: option.splits)

lemma accepts_event:
  "accepts P outbox_table (event_values r) \<longleftrightarrow>
     list_all (pg_text P) [U ''document'', o_event_type r, o_topic r]
     \<and> length (o_event_type r) \<le> 100 \<and> length (o_topic r) \<le> 200
     \<and> - (2 ^ 31) \<le> o_event_version r \<and> o_event_version r < 2 ^ 31 \<and> pg_json P (o_payload r)
     \<and> (case o_trace_id r of None \<Rightarrow> True | Some e \<Rightarrow> pg_text P e \<and> length e \<le> 255)
     \<and> - (2 ^ 31) \<le> o_attempt_count r \<and> o_attempt_count r < 2 ^ 31
     \<and> (case o_locked_by r of None \<Rightarrow> True | Some e \<Rightarrow> pg_text P e \<and> length e \<le> 255)
     \<and> (case o_last_error r of None \<Rightarrow> True | Some e \<Rightarrow> pg_text P e)"
  unfolding accepts_def outbox_table_def table.select_convs event_names
  unfolding value_ok outbox_columns_def event_values_def
  by (simp add: column_shape nullable_fits cong: option.case_cong) (auto split: option.splits)

lemma document_filled:
  "fill (server_call now eid) documents_table (document_insert key q) = document_values (queued_row now key q)"
  by (simp add: fill_def documents_table_def documents_columns_def column_shape document_insert_def document_values_def
      queued_row_def server_call_def)

lemma event_filled:
  "fill (server_call now eid) outbox_table (event_insert i topic payload trace) = event_values (event_row now eid i topic payload trace)"
  by (simp add: fill_def outbox_table_def outbox_columns_def column_shape event_insert_def event_values_def
      event_row_def server_call_def)

lemma inserted_names:
  "fst ` set (document_insert key q) \<subseteq> cn_name ` set (tb_columns documents_table)"
  "fst ` set (event_insert i topic payload trace) \<subseteq> cn_name ` set (tb_columns outbox_table)"
proof -
  have "set (map fst (document_insert key q)) \<subseteq> set (map cn_name documents_columns)"
    unfolding column_facts by (simp add: document_insert_def)
  then show "fst ` set (document_insert key q) \<subseteq> cn_name ` set (tb_columns documents_table)" by (simp add: documents_table_def)
  have "set (map fst (event_insert i topic payload trace)) \<subseteq> set (map cn_name outbox_columns)"
    unfolding column_facts by (simp add: event_insert_def)
  then show "fst ` set (event_insert i topic payload trace) \<subseteq> cn_name ` set (tb_columns outbox_table)" by (simp add: outbox_table_def)
qed

text \<open>A server that stores ASCII text, whatever it does with other text.\<close>

definition stores_ascii :: "pg \<Rightarrow> bool" where
  "stores_ascii P \<longleftrightarrow> (\<forall>t. list_all (\<lambda>k. 0 < k \<and> k < 128) t \<longrightarrow> pg_text P t)"

lemma stores_names:
  "stores_ascii P \<Longrightarrow> st \<in> set statuses \<Longrightarrow> pg_text P st \<and> length st \<le> 20"
  "stores_ascii P \<Longrightarrow> pg_text P (U ''document'') \<and> pg_text P (U ''document.processed'')"
  by (auto simp: stores_ascii_def statuses_def U_def)

lemma document_inserted:
  assumes "stores_ascii P"
  shows "insert_row P (server_call now eid) documents_table (document_insert key q) =
    (if insertable P (queued_row now key q) then Some (document_values (queued_row now key q)) else None)"
proof -
  have "U ''queued'' \<in> set statuses" by (simp add: statuses_def)
  from stores_names(1) [OF assms this]
  have "accepts P documents_table (document_values (queued_row now key q)) = insertable P (queued_row now key q)"
    by (simp add: accepts_document insertable_def) (auto simp: queued_row_def statuses_def split: option.split)
  then show ?thesis by (simp add: insert_row_def inserted_names document_filled)
qed

lemma event_inserted:
  assumes "stores_ascii P"
  shows "insert_row P (server_call now eid) outbox_table (event_insert i topic payload trace) =
    (if publishable P payload topic trace then Some (event_values (event_row now eid i topic payload trace)) else None)"
proof -
  have "accepts P outbox_table (event_values (event_row now eid i topic payload trace)) = publishable P payload topic trace"
    using stores_names(2) [OF assms]
    by (auto simp: accepts_event publishable_def event_row_def length_U split: option.split)
  then show ?thesis by (simp add: insert_row_def inserted_names event_filled)
qed

lemma document_updates:
  assumes "stores_ascii P" and "accepts P documents_table (document_values r)"
  shows "accepts P documents_table (document_values (finished_row now f r)) \<longleftrightarrow> finishable P f"
    and "accepts P documents_table (document_values (r\<lparr>d_status := U ''processing'', d_updated_at := t\<rparr>))"
proof -
  show "accepts P documents_table (document_values (finished_row now f r)) \<longleftrightarrow> finishable P f"
    using assms(2) stores_names(1) [OF assms(1), of "f_status f"]
    by (auto simp: accepts_document finishable_def finished_row_def split: option.split)
  have "U ''processing'' \<in> set statuses" by (simp add: statuses_def)
  then show "accepts P documents_table (document_values (r\<lparr>d_status := U ''processing'', d_updated_at := t\<rparr>))"
    using assms(2) stores_names(1) [OF assms(1), of "U ''processing''"] by (simp add: accepts_document)
qed

lemma conflicts_created:
  assumes "free_catalog c" and "ct_indexes c' = created_indexes @ ct_indexes c"
  shows "conflicts c' ''documents'' (document_values r) (map document_values rs) \<longleftrightarrow> d_id r \<in> d_id ` set rs \<or> d_key r \<in> d_key ` set rs"
    and "conflicts c' ''outbox_events'' (event_values e) (map event_values es) \<longleftrightarrow> o_id e \<in> o_id ` set es"
proof -
  have old: "\<not> list_ex (\<lambda>(n, ix). ix_table ix = t \<and> Q ix) (ct_indexes c)" if "t = ''documents'' \<or> t = ''outbox_events''" for t Q
    using assms(1) that by (auto simp: free_catalog_def list_ex_iff list_all_iff)
  show "conflicts c' ''documents'' (document_values r) (map document_values rs) \<longleftrightarrow> d_id r \<in> d_id ` set rs \<or> d_key r \<in> d_key ` set rs"
    unfolding conflicts_def assms(2) list_ex_append using old [of "''documents''"]
    by (auto simp: created_indexes_def index_on_def indexed_def document_values_def list_ex_iff)
  show "conflicts c' ''outbox_events'' (event_values e) (map event_values es) \<longleftrightarrow> o_id e \<in> o_id ` set es"
    unfolding conflicts_def assms(2) list_ex_append using old [of "''outbox_events''"]
    by (auto simp: created_indexes_def index_on_def indexed_def event_values_def list_ex_iff)
qed

text \<open>
  Property C38: the migrated schema is the one the store is written for. After the upgrades, whatever the values: an INSERT of
  \<open>submit_document\<close>, which names eleven columns, is accepted exactly when the store's model says so, and the defaults
  complete it to the row of the model; a row of \<open>documents\<close> violates a unique index exactly when its identifier or its
  key is in use; from a row that the table holds, \<open>mark_processing\<close> always gives one that it accepts, and
  \<open>finish_document\<close> exactly when the model says so, the CHECK on the status included; the INSERT into \<open>outbox_events\<close> is
  accepted, completed by its defaults and refused for its identifier as in the model; and the partial index of the pending
  events holds every event that a publisher may claim, that of the retries exactly the unpublished ones with a retry time.
\<close>

theorem schema_fits_store:
  assumes "execute_all X (concat (map rv_upgrade revisions)) c = Inr c'" and "free_catalog c"
    and "\<forall>t. list_all (\<lambda>k. 0 < k \<and> k < 128) t \<longrightarrow> pg_text P t"
  shows "case (map_of (ct_tables c') ''documents'', map_of (ct_tables c') ''outbox_events'') of
     (Some docs, Some events) \<Rightarrow>
       insert_row P (server_call now eid) docs (document_insert key q) =
         (if insertable P (queued_row now key q) then Some (document_values (queued_row now key q)) else None)
       \<and> (conflicts c' ''documents'' (document_values r) (map document_values rs)
            \<longleftrightarrow> d_id r \<in> d_id ` set rs \<or> d_key r \<in> d_key ` set rs)
       \<and> (accepts P docs (document_values r) \<longrightarrow>
            accepts P docs (document_values (r\<lparr>d_status := U ''processing'', d_updated_at := now\<rparr>))
            \<and> (accepts P docs (document_values (finished_row now f r)) \<longleftrightarrow> finishable P f))
       \<and> insert_row P (server_call now eid) events (event_insert i topic payload trace) =
           (if publishable P payload topic trace then Some (event_values (event_row now eid i topic payload trace)) else None)
       \<and> (conflicts c' ''outbox_events'' (event_values e) (map event_values es) \<longleftrightarrow> o_id e \<in> o_id ` set es)
       \<and> (case (map_of (ct_indexes c') ''idx_outbox_events_pending'', map_of (ct_indexes c') ''idx_outbox_events_retry'') of
            (Some pending, Some retry) \<Rightarrow>
              (claimable now e \<longrightarrow> indexed pending (event_values e))
              \<and> (indexed retry (event_values e) \<longleftrightarrow> o_published_at e = None \<and> o_next_attempt_at e \<noteq> None)
          | _ \<Rightarrow> False)
   | _ \<Rightarrow> False"
proof -
  have up: "execute_all X upgrade_all c = Inr c'" using assms(1) by (simp add: upgrade_all_def)
  then obtain c1 where c1: "execute X (Create_extension ''pgcrypto'') c = Inr c1"
    unfolding upgrade_split by (auto simp del: execute.simps elim!: rbind_InrE)
  have c': "ct_tables c' = (''outbox_events'', outbox_table) # (''documents'', documents_table) # ct_tables c"
      "ct_indexes c' = created_indexes @ ct_indexes c"
    using up unfolding upgraded [OF c1 assms(2)] by (auto split: if_splits)
  have P: "stores_ascii P" using assms(3) by (simp add: stores_ascii_def)
  have nullable: "nullable Sql_time x = Sql_null \<longleftrightarrow> x = None" for x by (cases x) simp_all
  have ixs: "map_of (ct_indexes c') ''idx_outbox_events_pending'' =
        Some (index_on ''outbox_events'' False [''created_at'', ''id''] (Some (Is_null ''published_at'')))"
      "map_of (ct_indexes c') ''idx_outbox_events_retry'' = Some (index_on ''outbox_events'' False [''next_attempt_at'', ''id'']
         (Some (Both (Is_null ''published_at'') (Is_not_null ''next_attempt_at''))))"
    by (simp_all add: c'(2) created_indexes_def)
  have partial: "indexed (index_on t u cs (Some (Is_null ''published_at''))) (event_values e) \<longleftrightarrow> o_published_at e = None"
      "indexed (index_on t u cs (Some (Both (Is_null ''published_at'') (Is_not_null ''next_attempt_at'')))) (event_values e)
        \<longleftrightarrow> o_published_at e = None \<and> o_next_attempt_at e \<noteq> None" for t u cs
    by (simp_all add: indexed_def index_on_def event_values_def nullable split: bool.split)
  show ?thesis
    using conflicts_created [OF assms(2) c'(2)] document_updates [OF P]
    by (simp add: c'(1) ixs partial document_inserted [OF P] event_inserted [OF P]) (simp add: claimable_def)
qed

theorem schema_fits_store_witness:
  "case execute_all demo_extensions (concat (map rv_upgrade revisions)) demo_catalog of
     Inr c' \<Rightarrow> (case map_of (ct_tables c') ''documents'' of
         Some docs \<Rightarrow> insert_row demo_pg (server_call 100 1) docs (document_insert 49 demo_submission) \<noteq> None
       | None \<Rightarrow> False)
       \<and> conflicts c' ''documents'' (document_values demo_row) [document_values (demo_row\<lparr>d_id := 8\<rparr>)]
   | Inl e \<Rightarrow> False"
proof -
  have "isl (execute_all demo_extensions (concat (map rv_upgrade revisions)) demo_catalog) = False" by code_simp
  then obtain c' where c': "execute_all demo_extensions (concat (map rv_upgrade revisions)) demo_catalog = Inr c'"
    by (cases "execute_all demo_extensions (concat (map rv_upgrade revisions)) demo_catalog") auto
  have "\<forall>t. list_all (\<lambda>k. 0 < k \<and> k < 128) t \<longrightarrow> pg_text demo_pg t" by (simp add: demo_pg_def)
  note fits = schema_fits_store [OF c' demo_catalog_fits(3) this, of 100 1 49 demo_submission demo_row "[demo_row\<lparr>d_id := 8\<rparr>]"]
  have "insertable demo_pg (queued_row 100 49 demo_submission)"
    by (simp add: insertable_def demo_pg_def queued_row_def demo_submission_def U_def)
  then have "case map_of (ct_tables c') ''documents'' of
      Some docs \<Rightarrow> insert_row demo_pg (server_call 100 1) docs (document_insert 49 demo_submission) \<noteq> None | None \<Rightarrow> False"
    using fits by (cases "map_of (ct_tables c') ''documents''"; cases "map_of (ct_tables c') ''outbox_events''") simp_all
  moreover have "conflicts c' ''documents'' (document_values demo_row) [document_values (demo_row\<lparr>d_id := 8\<rparr>)]"
    using fits by (cases "map_of (ct_tables c') ''documents''"; cases "map_of (ct_tables c') ''outbox_events''") simp_all
  ultimately show ?thesis by (simp add: c')
qed

end
