(* ===== verification/Ocr_Scripts.thy ===== *)
theory Ocr_Scripts
  imports Ocr_Python
begin

text \<open>
  The scripts (\<open>scripts/*.py\<close>): the generation of the stubs and the health check of the container.
\<close>

subsection \<open>The generated stubs\<close>

text \<open>
  \<open>protoc\<close> is the compiler: from the arguments and the files it gives its code and the files
  afterwards. \<open>project\<close> is its directory; reading a missing file raises.
\<close>

type_synonym files = "pystr \<Rightarrow> pystr option"

definition touch :: "pystr \<Rightarrow> files \<Rightarrow> files" where
  "touch p fs = (case fs p of None \<Rightarrow> fs(p \<mapsto> []) | Some c \<Rightarrow> fs)"

definition old_import :: pystr where
  "old_import = U ''from document.v1 import document_pb2 as document_dot_v1_dot_document__pb2''"

definition new_import :: pystr where
  "new_import = U ''from ocr_engine.proto_gen.document.v1 import document_pb2 as document_dot_v1_dot_document__pb2''"

definition proto_args :: "pystr \<Rightarrow> pystr list" where
  "proto_args project =
     (let out = project @ U ''/src/ocr_engine/proto_gen''
      in [U ''protoc'', U ''-I'' @ project @ U ''/proto'', U ''--python_out='' @ out, U ''--grpc_python_out='' @ out,
          project @ U ''/proto/document/v1/document.proto''])"

definition generate_proto :: "pystr \<Rightarrow> (pystr list \<Rightarrow> files \<Rightarrow> int \<times> files) \<Rightarrow> files \<Rightarrow> files \<times> int res" where
  "generate_proto project protoc fs =
     (let out = project @ U ''/src/ocr_engine/proto_gen'';
          module = out @ U ''/document/v1/document_pb2_grpc.py''
      in case protoc (proto_args project) fs of
           (rc, fs') \<Rightarrow>
             if rc \<noteq> 0 then (fs', Inr rc)
             else (case fs' module of
                     None \<Rightarrow> (fs', Inl (LibraryError (U ''FileNotFoundError'')))
                   | Some s \<Rightarrow>
                       (touch (out @ U ''/document/v1/__init__.py'')
                          (touch (out @ U ''/document/__init__.py'')
                             (fs'(module \<mapsto> py_replace_all old_import new_import s))), Inr 0)))"

text \<open>A failing compiler's code is the script's, and nothing is rewritten.\<close>

lemma generate_failed:
  "protoc (proto_args project) fs = (rc, fs') \<Longrightarrow> rc \<noteq> 0 \<Longrightarrow> generate_proto project protoc fs = (fs', Inr rc)"
  by (simp add: generate_proto_def Let_def)

text \<open>The import of the messages is made absolute.\<close>

lemma import_rewritten:
  "py_replace_all old_import new_import (U ''import grpc'' @ [10] @ old_import @ [10]) = U ''import grpc'' @ [10] @ new_import @ [10]"
  by code_simp

subsection \<open>The health check\<close>

text \<open>The exit code: every exception, also \<open>SystemExit\<close> with a message, gives 1.\<close>

definition healthcheck :: "exn option \<Rightarrow> int res \<Rightarrow> int \<Rightarrow> int" where
  "healthcheck ready check serving =
     (case ready of
        Some e \<Rightarrow> 1
      | None \<Rightarrow> (case check of Inl e \<Rightarrow> 1 | Inr status \<Rightarrow> if status \<noteq> serving then 1 else 0))"

lemma healthcheck_ok: "healthcheck ready check serving = 0 \<longleftrightarrow> ready = None \<and> check = Inr serving"
  by (auto simp: healthcheck_def split: option.split sum.split)

end
