(* ===== verification/Ocr_Process.thy ===== *)
theory Ocr_Process
  imports Ocr_Worker
begin

text \<open>
  How the processes start (\<open>cli/*.py\<close>, \<open>obs/*.py\<close>, \<open>worker/settings.py\<close>, \<open>api/server.py\<close>): what is
  configured from the validated settings. Installing a provider of the telemetry libraries or a
  handler of the logging library is their code; the model has what they are given.
\<close>

subsection \<open>Logging\<close>

text \<open>\<open>_LEVELS\<close>, with the numbers of the logging library.\<close>

definition levels :: "(pystr \<times> int) list" where
  "levels = [(U ''DEBUG'', 10), (U ''INFO'', 20), (U ''WARNING'', 30), (U ''ERROR'', 40)]"

text \<open>
  \<open>_inject_trace\<close>: \<open>current\<close> is what reading the span's context gives, the identifiers of a valid
  context, \<open>None\<close> for an invalid one, or an exception.
\<close>

definition inject_trace :: "(int \<times> int) option res \<Rightarrow> (pystr \<times> pyv) list \<Rightarrow> (pystr \<times> pyv) list" where
  "inject_trace current event =
     (case current of
        Inl e \<Rightarrow>
          if map_of event (U ''trace_inject_error'') = None
          then event @ [(U ''trace_inject_error'', PStr (exn_str e))] else event
      | Inr None \<Rightarrow> event
      | Inr (Some (trace_id, span_id)) \<Rightarrow>
          dict_set (U ''span_id'') (PStr (hex_digits 16 span_id))
            (dict_set (U ''trace_id'') (PStr (hex_digits 32 trace_id)) event))"

datatype renderer = ConsoleRenderer | JSONRenderer

record logging =
  lg_level :: int
  lg_renderer :: renderer

definition configure_logging :: "interp \<Rightarrow> pystr \<Rightarrow> pystr \<Rightarrow> logging" where
  "configure_logging I level fmt =
     \<lparr>lg_level = (case map_of levels (i_upper I level) of Some n \<Rightarrow> n | None \<Rightarrow> 20),
      lg_renderer = (if fmt = U ''text'' then ConsoleRenderer else JSONRenderer)\<rparr>"

subsection \<open>Telemetry\<close>

record exporter =
  ex_endpoint :: pystr
  ex_insecure :: bool
  ex_resource :: "(pystr \<times> pystr) list"
  ex_interval :: "int option"

definition setup_tracing :: "pystr option \<Rightarrow> bool \<Rightarrow> pystr \<Rightarrow> pystr \<Rightarrow> exporter option" where
  "setup_tracing endpoint sdk_disabled name environment =
     (if sdk_disabled \<or> \<not> given endpoint then None
      else Some \<lparr>ex_endpoint = the endpoint, ex_insecure = py_startswith (the endpoint) (U ''http://''),
                 ex_resource = [(U ''service.name'', name), (U ''deployment.environment'', environment)],
                 ex_interval = None\<rparr>)"

definition setup_metrics :: "pystr \<Rightarrow> pystr option \<Rightarrow> bool \<Rightarrow> int \<Rightarrow> pystr \<Rightarrow> pystr \<Rightarrow> exporter option" where
  "setup_metrics host endpoint sdk_disabled interval_ms name environment =
     (if sdk_disabled \<or> \<not> given endpoint then None
      else Some \<lparr>ex_endpoint = the endpoint, ex_insecure = py_startswith (the endpoint) (U ''http://''),
                 ex_resource = [(U ''service.name'', name), (U ''deployment.environment'', environment),
                                (U ''service.instance.id'', host)],
                 ex_interval = Some interval_ms\<rparr>)"

text \<open>The process: its logging, its exporters and the role that the liveness gauge reports.\<close>

record process =
  pr_logging :: logging
  pr_tracing :: "exporter option"
  pr_role :: pystr
  pr_metrics :: "exporter option"

definition start_process :: "interp \<Rightarrow> pystr \<Rightarrow> pystr \<Rightarrow> settings \<Rightarrow> process" where
  "start_process I host role s =
     \<lparr>pr_logging = configure_logging I (log_level s) (log_format s), 
      pr_tracing = setup_tracing (otel_endpoint s) (otel_sdk_disabled s) (service_name s) (service_env s),
      pr_role = role, 
      pr_metrics = setup_metrics host (otel_endpoint s) (otel_sdk_disabled s) (metric_interval_ms s) (service_name s) (service_env s)\<rparr>"

definition process_running :: "process \<Rightarrow> int \<times> (pystr \<times> pystr) list" where
  "process_running p = (1, [(U ''ocr_process'', pr_role p)])"

subsection \<open>The three processes\<close>

text \<open>The api process: what \<open>serve\<close> builds and binds; \<open>bound\<close> is the port the server got.\<close>

record served =
  se_pool :: "int \<times> int"
  se_semaphore :: int
  se_provider :: "bytes \<Rightarrow> pystr \<Rightarrow> line list res option"
  se_schemas :: schema_map
  se_max_receive :: int
  se_max_send :: int
  se_address :: pystr

definition serve ::
  "interp \<Rightarrow> int option \<Rightarrow> client \<Rightarrow> schema_map res \<Rightarrow> int \<Rightarrow> settings \<Rightarrow> int \<Rightarrow> served res" where
  "serve I cpus C loaded bound s port =
     rbind loaded (\<lambda>schemas.
     rbind (build_provider I s C) (\<lambda>prov.
       if bound = 0 then Inl (RuntimeError (U ''failed to bind gRPC port '' @ int_str port))
       else Inr \<lparr>se_pool = (1, 5), se_semaphore = ocr_semaphore cpus s, se_provider = prov, se_schemas = schemas,
                 se_max_receive = 8 * 1024 * 1024, se_max_send = 16 * 1024 * 1024,
                 se_address = U ''[::]:'' @ int_str port\<rparr>))"

text \<open>The outbox process: the configuration of its Kafka producer.\<close>

definition producer_config :: "settings \<Rightarrow> (pystr \<times> pyv) list" where
  "producer_config s =
     [(U ''bootstrap.servers'', PStr (kafka_brokers s)), (U ''client.id'', PStr (U ''ocr-outbox'')),
      (U ''enable.idempotence'', PBool True), (U ''acks'', PStr (U ''all''))]"

text \<open>\<open>new_worker_id\<close>, from the host name and a fresh identifier.\<close>

definition new_worker_id :: "pystr \<Rightarrow> uuid \<Rightarrow> pystr" where
  "new_worker_id host u = host @ U ''-'' @ take 8 (hex_digits 32 (uint u))"

text \<open>The worker process: the settings of its job queue, and what a job finds in its context.\<close>

record saq =
  sq_redis :: pystr
  sq_concurrency :: int
  sq_max_tries :: nat
  sq_job_timeout :: int
  sq_heartbeat :: int
  sq_cron :: "(pystr \<times> pystr) list"

definition saq_settings :: "settings \<Rightarrow> saq" where
  "saq_settings s =
     \<lparr>sq_redis = redis_url s, sq_concurrency = worker_concurrency s, sq_max_tries = 3, sq_job_timeout = 300,
      sq_heartbeat = 15, sq_cron = [(U ''cleanup_expired_results'', U ''*/30 * * * *'')]\<rparr>"

record worker_context =
  wc_pool_size :: int
  wc_schemas :: schema_map
  wc_provider :: "bytes \<Rightarrow> pystr \<Rightarrow> line list res option"
  wc_semaphore :: int
  wc_timeout :: rat

definition worker_startup ::
  "interp \<Rightarrow> int option \<Rightarrow> client \<Rightarrow> schema_map res \<Rightarrow> settings \<Rightarrow> worker_context res" where
  "worker_startup I cpus C loaded s =
     rbind loaded (\<lambda>schemas.
     rbind (build_provider I s C) (\<lambda>prov.
       Inr \<lparr>wc_pool_size = worker_concurrency s, wc_schemas = schemas, wc_provider = prov,
            wc_semaphore = ocr_semaphore cpus s, wc_timeout = baidu_timeout s\<rparr>))"

definition api_main :: "interp \<Rightarrow> pystr \<Rightarrow> settings \<Rightarrow> process" where
  "api_main I host s = start_process I host (U ''api'') s"

definition outbox_main :: "interp \<Rightarrow> pystr \<Rightarrow> settings \<Rightarrow> process" where
  "outbox_main I host s = start_process I host (U ''outbox'') s"

definition worker_main :: "interp \<Rightarrow> pystr \<Rightarrow> settings \<Rightarrow> process" where
  "worker_main I host s = start_process I host (U ''worker'') s"

subsection \<open>What a validated configuration starts\<close>

lemma level_exact:
  assumes "i_upper I level \<in> {U ''DEBUG'', U ''INFO'', U ''WARNING'', U ''ERROR''}"
  shows "map_of levels (i_upper I level) = Some (lg_level (configure_logging I level fmt))"
  using assms by (auto simp: configure_logging_def levels_def)

lemma telemetry_off: "otel_sdk_disabled s \<Longrightarrow> pr_tracing (start_process I host role s) = None \<and> pr_metrics (start_process I host role s) = None"
  by (simp add: start_process_def setup_tracing_def setup_metrics_def)

lemma exporter_scheme:
  assumes "settings_problems I is_dir s = []" and "pr_metrics (start_process I host role s) = Some x \<or> pr_tracing (start_process I host role s) = Some x"
  shows "ex_insecure x \<longleftrightarrow> \<not> is_https (ex_endpoint x)"
proof -
  have x: "given (otel_endpoint s)" "ex_endpoint x = the (otel_endpoint s)"
      "ex_insecure x = py_startswith (ex_endpoint x) (U ''http://'')"
    using assms(2) by (auto simp: start_process_def setup_tracing_def setup_metrics_def split: if_splits)
  have either: "py_startswith (ex_endpoint x) (U ''http://'') \<or> is_https (ex_endpoint x)"
    using assms(1) x(1,2) by (auto simp: settings_problems_def split: if_splits)
  have "\<not> (py_startswith u (U ''http://'') \<and> is_https u)" for u
  proof
    assume "py_startswith u (U ''http://'') \<and> is_https u"
    then have "take 7 u = U ''http://''" "take 8 u = U ''https://''"
      by (simp_all add: py_startswith_def is_https_def U_def numeral_eq_Suc)
    then have "take 5 (take 7 u) = take 5 (U ''http://'')" "take 5 (take 8 u) = take 5 (U ''https://'')"
      by (simp_all only:)
    then have "take 5 u = U ''http:''" "take 5 u = U ''https''" by (simp_all add: U_def)
    then show False by (simp add: U_def)
  qed
  then show ?thesis using either x(3) by auto
qed

text \<open>
  A configuration that passes the validation starts the processes as it says: the log level is the
  named one, exporters are installed for both signals or for none and are insecure exactly when
  their endpoint is not https, and the api and the worker get the recognition provider with at least
  one place in its semaphore.
\<close>

lemma validated_logging:
  assumes "settings_problems I is_dir s = []"
  shows "map_of levels (i_upper I (log_level s)) = Some (lg_level (pr_logging (start_process I host role s)))"
proof -
  have "i_upper I (log_level s) \<in> {U ''DEBUG'', U ''INFO'', U ''WARNING'', U ''ERROR''}"
    using assms by (simp add: settings_problems_def split: if_splits)
  from level_exact [OF this] show ?thesis by (simp add: start_process_def)
qed

lemma exporters_together:
  "pr_metrics (start_process I host role s) = None \<longleftrightarrow> pr_tracing (start_process I host role s) = None"
  by (simp add: start_process_def setup_tracing_def setup_metrics_def)

lemma validated_workers:
  assumes "provider s = BAIDU_AISTUDIO" and "bound \<noteq> 0"
  shows "\<exists>c v. worker_startup I cpus C (Inr schemas) s = Inr c \<and> serve I cpus C (Inr schemas) bound s port = Inr v
    \<and> wc_provider c = extract_lines I s C \<and> se_provider v = wc_provider c
    \<and> se_semaphore v = wc_semaphore c \<and> 1 \<le> wc_semaphore c"
  using assms ocr_semaphore_pos [of cpus s]
  by (simp add: worker_startup_def serve_def build_provider_def)

text \<open>A service without an endpoint logs but exports nothing.\<close>

lemma demo_process:
  "pr_metrics (api_main id_interp (U ''host'') demo_settings) = None \<and> lg_level (pr_logging (api_main id_interp (U ''host'') demo_settings)) = 20"
  by (simp add: api_main_def start_process_def setup_metrics_def configure_logging_def levels_def demo_settings_def given_def
      id_interp_def U_def)

end
