(* ===== verification/Ocr_Shutdown.thy ===== *)
theory Ocr_Shutdown
  imports Ocr_Process
begin

text \<open>
  What the processes open and close (\<open>api/server.py\<close>, \<open>cli/*.py\<close>, \<open>worker/settings.py\<close>): the
  sequences of library calls from the start to the end of a process, any of which may raise, with the
  \<open>try\<close>/\<open>finally\<close> blocks around them.
\<close>

subsection \<open>Calls that open and close\<close>

datatype resource = Pool | Http | Grpc | Queue_connection

record running =
  ru_open :: "resource list"
  ru_healthy :: bool

definition idle :: running where
  "idle = \<lparr>ru_open = [], ru_healthy = False\<rparr>"

text \<open>
  The calls of the libraries. \<open>Await_stop\<close> returns when the stop event is set; \<open>Bind_port\<close> includes
  the engine's own exception on a port that could not be bound; \<open>Worker_start\<close> and \<open>Publisher_run\<close> run
  until they are stopped.
\<close>

datatype lib_call =
    Create_pool | Load_schemas | Build_provider | Queue_from_url | Bind_port | Server_start | Add_signal_handler | Await_stop
  | Server_grace | Http_close | Pool_close | Make_producer | Publisher_run | Make_worker | Queue_connect | Worker_start
  | Queue_disconnect

type_synonym calls = "lib_call \<Rightarrow> exn option"
type_synonym step = "exn option \<times> (running \<Rightarrow> running)"

definition opened :: "resource \<Rightarrow> running \<Rightarrow> running" where
  "opened x r = r\<lparr>ru_open := x # ru_open r\<rparr>"

definition closes :: "resource \<Rightarrow> running \<Rightarrow> running" where
  "closes x r = r\<lparr>ru_open := removeAll x (ru_open r)\<rparr>"

definition healthy :: "bool \<Rightarrow> running \<Rightarrow> running" where
  "healthy b r = r\<lparr>ru_healthy := b\<rparr>"

text \<open>Statements one after the other, up to the first that raises.\<close>

fun run_steps :: "step list \<Rightarrow> running \<Rightarrow> running \<times> unit res" where
  "run_steps [] r = (r, Inr ())"
| "run_steps ((raised, f) # steps) r = (case raised of Some e \<Rightarrow> (r, Inl e) | None \<Rightarrow> run_steps steps (f r))"

text \<open>\<open>try: body finally: clean\<close>; an exception of the clean-up replaces the body's.\<close>

definition try_finally :: "step list \<Rightarrow> step list \<Rightarrow> running \<Rightarrow> running \<times> unit res" where
  "try_finally body clean r =
     (case run_steps body r of
        (r', out) \<Rightarrow> (case run_steps clean r' of (r'', Inl e) \<Rightarrow> (r'', Inl e) | (r'', Inr _) \<Rightarrow> (r'', out)))"

text \<open>Signal handlers: a platform without them raises \<open>NotImplementedError\<close>, which is suppressed.\<close>

definition add_signal_handlers :: "calls \<Rightarrow> step" where
  "add_signal_handlers F = (case F Add_signal_handler of Some (NotImplementedError m) \<Rightarrow> None | x \<Rightarrow> x, id)"

subsection \<open>The processes\<close>

definition serve_steps :: "calls \<Rightarrow> step list" where
  "serve_steps F =
     [(F Create_pool, opened Pool), (F Load_schemas, id), (None, opened Http), (F Build_provider, id), (F Queue_from_url, id),
      (F Bind_port, id), (F Server_start, opened Grpc), (None, healthy True)]"

definition stop_steps :: "calls \<Rightarrow> step list" where
  "stop_steps F =
     [(None, healthy False), (F Server_grace, closes Grpc), (F Http_close, closes Http), (F Pool_close, closes Pool)]"

definition api_run :: "calls \<Rightarrow> running \<times> unit res" where
  "api_run F = run_steps (serve_steps F @ [add_signal_handlers F, (F Await_stop, id)] @ stop_steps F) idle"

definition outbox_run :: "calls \<Rightarrow> running \<times> unit res" where
  "outbox_run F =
     (case run_steps [(F Create_pool, opened Pool), (F Make_producer, id), add_signal_handlers F] idle of
        (r, Inl e) \<Rightarrow> (r, Inl e)
      | (r, Inr _) \<Rightarrow> try_finally [(F Publisher_run, id)] [(F Pool_close, closes Pool)] r)"

definition worker_run :: "calls \<Rightarrow> running \<times> unit res" where
  "worker_run F =
     (case run_steps [(F Make_worker, id), (F Queue_connect, opened Queue_connection)] idle of
        (r, Inl e) \<Rightarrow> (r, Inl e)
      | (r, Inr _) \<Rightarrow> try_finally [(F Worker_start, id)] [(F Queue_disconnect, closes Queue_connection)] r)"

text \<open>The hooks the job queue runs in the worker at its start and at its end.\<close>

definition startup_steps :: "calls \<Rightarrow> step list" where
  "startup_steps F = [(F Create_pool, opened Pool), (None, opened Http), (F Load_schemas, id), (F Build_provider, id)]"

definition shutdown_steps :: "calls \<Rightarrow> step list" where
  "shutdown_steps F = [(F Pool_close, closes Pool), (F Http_close, closes Http)]"

subsection \<open>How they end\<close>

lemma run_steps_append:
  "run_steps (xs @ ys) r = (case run_steps xs r of (r', Inl e) \<Rightarrow> (r', Inl e) | (r', Inr _) \<Rightarrow> run_steps ys r')"
  by (induction xs r rule: run_steps.induct) (simp_all split: option.split)

lemmas steps_simps = opened_def closes_def healthy_def idle_def add_signal_handlers_def try_finally_def

text \<open>
  The api process does not shut down in order. \<open>server.grace(5)\<close> raises, since the server of the library
  has no such method; so after a stop signal the process reports NOT_SERVING and ends with that exception
  while its server, its HTTP client and its pool are still open, whereas a call that returned would have closed
  all three.
\<close>

lemma api_shutdown_raises:
  assumes "list_all (\<lambda>c. F c = None)
      [Create_pool, Load_schemas, Build_provider, Queue_from_url, Bind_port, Server_start, Add_signal_handler, Await_stop]"
  shows "(if F Server_grace = Some e then api_run F = (\<lparr>ru_open = [Grpc, Http, Pool], ru_healthy = False\<rparr>, Inl e) else True)
    \<and> api_run (F(Server_grace := None, Http_close := None, Pool_close := None)) =
        (\<lparr>ru_open = [], ru_healthy = False\<rparr>, Inr ())"
  using assms by (simp add: api_run_def serve_steps_def stop_steps_def steps_simps)

definition no_grace :: calls where
  "no_grace c = (if c = Server_grace then Some (AttributeError (U ''grace'')) else None)"

lemma api_shutdown_raises_example:
  "api_run no_grace = (\<lparr>ru_open = [Grpc, Http, Pool], ru_healthy = False\<rparr>, Inl (AttributeError (U ''grace'')))"
  using api_shutdown_raises [of no_grace "AttributeError (U ''grace'')"] by (simp add: no_grace_def)

text \<open>
  The other two close what they opened, however they end: the outbox process its pool, once its
  producer was made, whatever the publisher's loop did, the worker its queue, whatever stopped it, and the worker's hooks the pool
  and the client that they opened.
\<close>

lemma outbox_closes:
  "ru_open (fst (outbox_run (F(Make_producer := None, Add_signal_handler := None, Pool_close := None)))) = []"
  by (simp add: outbox_run_def steps_simps split: option.split prod.split sum.split)

lemma worker_closes: "ru_open (fst (worker_run (F(Queue_disconnect := None)))) = []"
  by (simp add: worker_run_def steps_simps split: option.split prod.split sum.split)

lemma hooks_close:
  assumes "run_steps (startup_steps F) idle = (r, Inr ())"
  shows "run_steps (shutdown_steps (F(Pool_close := None, Http_close := None))) r = (idle, Inr ())"
  using assms by (auto simp: startup_steps_def shutdown_steps_def steps_simps split: option.splits)

end
