(* ===== verification/Ocr_Semaphore.thy ===== *)
theory Ocr_Semaphore
  imports Ocr_Rely
begin

text \<open>
  The recognition stage under contention: \<open>_ocr_lines\<close> (\<open>pipeline/pipeline.py\<close>) taken apart at its awaits, with the
  \<open>asyncio.Semaphore\<close> of the process around it. Any number of runs share the semaphore and any of them
  may be cancelled where it waits, for a place or for the provider.
\<close>

subsection \<open>The semaphore\<close>

text \<open>
  \<open>asyncio.Semaphore\<close>: a counter and the tasks that wait, in the order of their arrival, each with the
  state of its future: pending; granted a place; cancelled; or granted a place and cancelled before it ran.
\<close>

datatype waiter = Pending | Granted | Cancelled | Revoked

record semaphore =
  sm_value :: nat
  sm_waiters :: "(nat \<times> waiter) list"

definition sem_locked :: "semaphore \<Rightarrow> bool" where
  "sem_locked s \<longleftrightarrow> sm_value s = 0 \<or> list_ex (\<lambda>w. snd w \<noteq> Cancelled) (sm_waiters s)"

text \<open>The first pending waiter gets a place.\<close>

fun grant :: "(nat \<times> waiter) list \<Rightarrow> (nat \<times> waiter) list option" where
  "grant [] = None"
| "grant (w # ws) = (if snd w = Pending then Some ((fst w, Granted) # ws) else map_option (Cons w) (grant ws))"

fun wake_up :: "nat \<Rightarrow> (nat \<times> waiter) list \<Rightarrow> semaphore" where
  "wake_up 0 ws = \<lparr>sm_value = 0, sm_waiters = ws\<rparr>"
| "wake_up (Suc n) ws =
     (case grant ws of None \<Rightarrow> \<lparr>sm_value = Suc n, sm_waiters = ws\<rparr> | Some ws' \<Rightarrow> wake_up n ws')"

definition release :: "semaphore \<Rightarrow> semaphore" where
  "release s =
     (case grant (sm_waiters s) of
        None \<Rightarrow> s\<lparr>sm_value := sm_value s + 1\<rparr>
      | Some ws \<Rightarrow> s\<lparr>sm_waiters := ws\<rparr>)"

text \<open>A task that waited runs again: it leaves the queue, and the places that are free go to those behind it.\<close>

definition unqueue :: "nat \<Rightarrow> nat \<Rightarrow> semaphore \<Rightarrow> semaphore" where
  "unqueue t back s = wake_up (sm_value s + back) (filter (\<lambda>w. fst w \<noteq> t) (sm_waiters s))"

definition set_waiter :: "nat \<Rightarrow> waiter \<Rightarrow> semaphore \<Rightarrow> semaphore" where
  "set_waiter t st s = s\<lparr>sm_waiters := map (\<lambda>w. if fst w = t then (t, st) else w) (sm_waiters s)\<rparr>"

subsection \<open>The stage await by await\<close>

datatype ocr_pc =
    Asking
  | Waiting
  | Sending "bytes list" pystr "line list" int
  | Recognised "(line list \<times> int) res"

record ocr_run =
  or_task :: nat
  or_env :: env
  or_content :: bytes
  or_mime :: pystr
  or_pc :: ocr_pc

text \<open>What is sent to the provider: the rendered pages, or the image itself; and the number of pages.\<close>

definition page_requests :: "ocr_run \<Rightarrow> (bytes list \<times> pystr \<times> int) res" where
  "page_requests r =
     (let E = or_env r; content = or_content r
      in if or_mime r = U ''application/pdf''
         then rbind (pdf_page_images (e_media E) content (e_settings E)) (\<lambda>images.
                Inr (images, U ''image/jpeg'', int (length images)))
         else rbind (downscale_if_needed (e_media E) content (e_settings E)) (\<lambda>img.
                Inr ([img], or_mime r, 1)))"

text \<open>Leaving the \<open>async with\<close> block, with a result or an exception.\<close>

definition ocr_leave :: "(line list \<times> int) res \<Rightarrow> ocr_run \<times> semaphore \<Rightarrow> ocr_run \<times> semaphore" where
  "ocr_leave res x = ((fst x)\<lparr>or_pc := Recognised res\<rparr>, release (snd x))"

definition ocr_enter :: "ocr_run \<times> semaphore \<Rightarrow> ocr_run \<times> semaphore" where
  "ocr_enter x =
     (case page_requests (fst x) of
        Inl e \<Rightarrow> ocr_leave (Inl e) x
      | Inr (images, mime, pages) \<Rightarrow>
          if images = [] then ocr_leave (Inr ([], pages)) x
          else ((fst x)\<lparr>or_pc := Sending images mime [] pages\<rparr>, snd x))"

text \<open>A turn: the task runs to its next await, or (\<open>cancel\<close>) it is cancelled at the one where it is.\<close>

definition ocr_turn :: "bool \<Rightarrow> ocr_run \<times> semaphore \<Rightarrow> ocr_run \<times> semaphore" where
  "ocr_turn cancel x =
     (let r = fst x; s = snd x; t = or_task r
      in case or_pc r of
           Asking \<Rightarrow>
             if sem_locked s then (r\<lparr>or_pc := Waiting\<rparr>, s\<lparr>sm_waiters := sm_waiters s @ [(t, Pending)]\<rparr>)
             else ocr_enter (r, s\<lparr>sm_value := sm_value s - 1\<rparr>)
         | Waiting \<Rightarrow>
             (case map_of (sm_waiters s) t of
                Some Pending \<Rightarrow> if cancel then (r, set_waiter t Cancelled s) else x
              | Some Granted \<Rightarrow> if cancel then (r, set_waiter t Revoked s) else ocr_enter (r, unqueue t 0 s)
              | Some Cancelled \<Rightarrow>
                  if cancel then x else (r\<lparr>or_pc := Recognised (Inl CancelledError)\<rparr>, unqueue t 0 s)
              | Some Revoked \<Rightarrow>
                  if cancel then x else (r\<lparr>or_pc := Recognised (Inl CancelledError)\<rparr>, unqueue t 1 s)
              | None \<Rightarrow> x)
         | Sending [] mime lines pages \<Rightarrow> ocr_leave (Inr (lines, pages)) x
         | Sending (img # images) mime lines pages \<Rightarrow>
             if cancel then ocr_leave (Inl CancelledError) x
             else (case e_provider (or_env r) img mime of
                     Inl e \<Rightarrow> ocr_leave (Inl e) x
                   | Inr ls \<Rightarrow>
                       if images = [] then ocr_leave (Inr (lines @ ls, pages)) x
                       else (r\<lparr>or_pc := Sending images mime (lines @ ls) pages\<rparr>, s))
         | Recognised res \<Rightarrow> x)"

text \<open>The runs of one process, on the semaphore that its settings give it.\<close>

definition stage_init :: "int option \<Rightarrow> settings \<Rightarrow> ocr_run list \<times> semaphore" where
  "stage_init cpus S = ([], \<lparr>sm_value = nat (ocr_semaphore cpus S), sm_waiters = []\<rparr>)"

inductive stage_step :: "ocr_run list \<times> semaphore \<Rightarrow> ocr_run list \<times> semaphore \<Rightarrow> bool" where
  entered: "or_pc r = Asking \<Longrightarrow> or_task r \<notin> or_task ` set rs \<Longrightarrow> stage_step (rs, s) (rs @ [r], s)"
| turned: "n < length rs \<Longrightarrow> stage_step (rs, s) (advance ocr_turn cancel n (rs, s))"

subsection \<open>Facts about the semaphore\<close>

fun placed :: "waiter \<Rightarrow> bool" where
  "placed Granted = True"
| "placed Revoked = True"
| "placed w = False"

definition places :: "(nat \<times> waiter) list \<Rightarrow> nat" where
  "places ws = length (filter (\<lambda>w. placed (snd w)) ws)"

definition any_pending :: "(nat \<times> waiter) list \<Rightarrow> bool" where
  "any_pending ws \<longleftrightarrow> (\<exists>w \<in> set ws. snd w = Pending)"

lemma places_simps [simp]:
  "places [] = 0" "places (w # ws) = (if placed (snd w) then 1 else 0) + places ws" "places (ws @ vs) = places ws + places vs"
  by (simp_all add: places_def)

lemma places_map: "(\<And>w. w \<in> set ws \<Longrightarrow> placed (snd (f w)) = placed (snd w)) \<Longrightarrow> places (map f ws) = places ws"
  by (induction ws) simp_all

lemma any_pending_simps [simp]:
  "\<not> any_pending []" "any_pending (w # ws) \<longleftrightarrow> snd w = Pending \<or> any_pending ws"
  "any_pending (ws @ vs) \<longleftrightarrow> any_pending ws \<or> any_pending vs"
  by (auto simp: any_pending_def)

lemma grant_None: "grant ws = None \<longleftrightarrow> \<not> any_pending ws"
  by (induction ws) auto

lemma grant_Some:
  "grant ws = Some ws' \<Longrightarrow> map fst ws' = map fst ws \<and> places ws' = Suc (places ws) \<and> (\<exists>w \<in> set ws'. snd w = Granted)"
proof (induction ws arbitrary: ws')
  case (Cons w ws)
  then show ?case by (cases w) (auto split: if_splits)
qed simp

lemma wake_up_facts:
  "map fst (sm_waiters (wake_up n ws)) = map fst ws
   \<and> sm_value (wake_up n ws) + places (sm_waiters (wake_up n ws)) = n + places ws
   \<and> (sm_value (wake_up n ws) = 0 \<or> \<not> any_pending (sm_waiters (wake_up n ws)))"
proof (induction n ws rule: wake_up.induct)
  case (2 n ws)
  show ?case
  proof (cases "grant ws")
    case None
    then have "\<not> any_pending ws" using grant_None by blast
    then show ?thesis using None by simp
  next
    case (Some ws')
    then show ?thesis using 2 [OF Some] grant_Some [OF Some] by simp
  qed
qed simp

text \<open>
  What the semaphore keeps: as long as a place is free and somebody is pending, somebody who runs next
  will hand it over.
\<close>

definition sem_ok :: "semaphore \<Rightarrow> bool" where
  "sem_ok s \<longleftrightarrow>
     distinct (map fst (sm_waiters s))
     \<and> (0 < sm_value s \<and> any_pending (sm_waiters s) \<longrightarrow> (\<exists>w \<in> set (sm_waiters s). snd w \<noteq> Pending))"

definition permits :: "semaphore \<Rightarrow> nat" where
  "permits s = sm_value s + places (sm_waiters s)"

definition queued :: "semaphore \<Rightarrow> nat set" where
  "queued s = fst ` set (sm_waiters s)"

lemma release_facts:
  assumes "sem_ok s"
  shows "sem_ok (release s) \<and> permits (release s) = Suc (permits s) \<and> queued (release s) = queued s"
proof (cases "grant (sm_waiters s)")
  case None
  then have "\<not> any_pending (sm_waiters s)" using grant_None by blast
  then show ?thesis using assms None by (simp add: release_def sem_ok_def permits_def queued_def)
next
  case (Some ws)
  from grant_Some [OF Some] have g: "map fst ws = map fst (sm_waiters s)" "places ws = Suc (places (sm_waiters s))"
      "\<exists>w \<in> set ws. snd w = Granted" by blast+
  have awake: "\<exists>w \<in> set ws. snd w \<noteq> Pending" using g(3) by (metis waiter.distinct(1))
  have "fst ` set ws = fst ` set (sm_waiters s)" by (metis g(1) list.set_map)
  then show ?thesis using assms g(1,2) awake Some by (simp add: release_def sem_ok_def permits_def queued_def)
qed

lemma places_without:
  assumes "distinct (map fst ws)" and "map_of ws t = Some st"
  shows "places ws = places (filter (\<lambda>w. fst w \<noteq> t) ws) + (if placed st then 1 else 0)"
  using assms
proof (induction ws)
  case (Cons w ws)
  show ?case
  proof (cases "fst w = t")
    case True
    then have "filter (\<lambda>w. fst w \<noteq> t) ws = ws" using Cons.prems(1) by (auto simp: filter_id_conv image_iff)
    then show ?thesis using True Cons.prems by (cases w) auto
  next
    case False
    then show ?thesis using Cons by (cases w) auto
  qed
qed simp

lemma unqueue_facts:
  assumes "sem_ok s" and "map_of (sm_waiters s) t = Some st"
  shows "sem_ok (unqueue t back s) \<and> permits (unqueue t back s) + (if placed st then 1 else 0) = permits s + back
    \<and> queued (unqueue t back s) = queued s - {t}"
proof -
  let ?ws = "filter (\<lambda>w. fst w \<noteq> t) (sm_waiters s)" and ?s = "unqueue t back s"
  note f = wake_up_facts [of "sm_value s + back" ?ws, folded unqueue_def]
  have d: "distinct (map fst (sm_waiters s))" using assms(1) by (simp add: sem_ok_def)
  have "distinct (map fst ?ws)" using d by (rule distinct_map_filter)
  then have "sem_ok ?s" using f by (auto simp: sem_ok_def)
  moreover have "permits ?s + (if placed st then 1 else 0) = permits s + back"
    using f places_without [OF d assms(2)] by (simp add: permits_def)
  moreover have "fst ` set (sm_waiters ?s) = fst ` set ?ws" using f by (metis list.set_map)
  then have "queued ?s = queued s - {t}" by (auto simp: queued_def)
  ultimately show ?thesis by simp
qed

lemma set_waiter_facts:
  assumes "sem_ok s" and "map_of (sm_waiters s) t = Some st" and "placed st' = placed st" and "st' \<noteq> Pending"
  shows "sem_ok (set_waiter t st' s) \<and> permits (set_waiter t st' s) = permits s \<and> queued (set_waiter t st' s) = queued s"
proof -
  let ?f = "\<lambda>w. if fst w = t then (t, st') else w" and ?ws = "sm_waiters s"
  have d: "distinct (map fst ?ws)" using assms(1) by (simp add: sem_ok_def)
  have keys: "map fst (map ?f ?ws) = map fst ?ws" by simp
  have sel: "sm_waiters (set_waiter t st' s) = map ?f ?ws" "sm_value (set_waiter t st' s) = sm_value s"
    by (simp_all add: set_waiter_def)
  have mem: "(t, st) \<in> set ?ws" using assms(2) by (rule map_of_SomeD)
  then have "\<exists>w \<in> set (map ?f ?ws). snd w \<noteq> Pending" using assms(4) by (intro bexI [of _ "?f (t, st)"]) auto
  then have ok: "sem_ok (set_waiter t st' s)"
    using d by (simp only: sem_ok_def sel keys) simp
  have "placed (snd (?f w)) = placed (snd w)" if "w \<in> set ?ws" for w
  proof (cases "fst w = t")
    case True
    then have "snd w = st" using that d assms(2) by (metis map_of_is_SomeI option.inject prod.collapse)
    then show ?thesis using True assms(3) by simp
  qed simp
  then have "places (map ?f ?ws) = places ?ws" by (rule places_map)
  moreover have "fst ` set (map ?f ?ws) = fst ` set ?ws" using keys by (metis list.set_map)
  ultimately show ?thesis using ok by (simp only: permits_def queued_def sel)
qed

subsection \<open>A turn of one run\<close>

text \<open>A run holds a place while it is between acquiring and releasing; \<open>faithful\<close>: what it has got so far.\<close>

fun holding :: "ocr_pc \<Rightarrow> bool" where
  "holding (Sending images mime lines pages) = True"
| "holding pc = False"

fun faithful :: "ocr_run \<Rightarrow> ocr_pc \<Rightarrow> bool" where
  "faithful r (Sending images mime lines pages) =
     (rbind (rmap (\<lambda>img. e_provider (or_env r) img mime) images) (\<lambda>lss. Inr (lines @ concat lss, pages))
        = ocr_lines (or_env r) (or_content r) (or_mime r))"
| "faithful r (Recognised res) = (res = Inl CancelledError \<or> res = ocr_lines (or_env r) (or_content r) (or_mime r))"
| "faithful r pc = True"

definition held :: "ocr_run \<Rightarrow> nat" where
  "held r = (if holding (or_pc r) then 1 else 0)"

definition waits :: "ocr_run \<Rightarrow> nat set" where
  "waits r = (if or_pc r = Waiting then {or_task r} else {})"

text \<open>What a turn does: the run stays itself, permits pass between it and the semaphore, and so does its place in the queue.\<close>

definition turn_ok :: "ocr_run \<times> semaphore \<Rightarrow> ocr_run \<times> semaphore \<Rightarrow> bool" where
  "turn_ok x y \<longleftrightarrow>
     (\<exists>pc. fst y = (fst x)\<lparr>or_pc := pc\<rparr> \<and> pc \<noteq> Asking \<and> faithful (fst x) pc) \<and> sem_ok (snd y)
     \<and> permits (snd y) + held (fst y) = permits (snd x) + held (fst x)
     \<and> queued (snd y) = queued (snd x) - {or_task (fst x)} \<union> waits (fst y)"

lemma leave_ok:
  assumes "sem_ok s" and "res = Inl CancelledError \<or> res = ocr_lines (or_env r) (or_content r) (or_mime r)"
  shows "turn_ok (r, s') (ocr_leave res (r, s)) \<longleftrightarrow>
    Suc (permits s) = permits s' + held r \<and> queued s = queued s' - {or_task r}"
  using release_facts [OF assms(1)] assms(2)
  by (auto simp: turn_ok_def ocr_leave_def held_def waits_def)

lemma page_requests_lines:
  "ocr_lines (or_env r) (or_content r) (or_mime r) =
     rbind (page_requests r) (\<lambda>(images, mime, pages).
       rbind (rmap (\<lambda>img. e_provider (or_env r) img mime) images) (\<lambda>lss. Inr (concat lss, pages)))"
proof (cases "or_mime r = U ''application/pdf''")
  case True
  then show ?thesis
    by (cases "pdf_page_images (e_media (or_env r)) (or_content r) (e_settings (or_env r))")
      (simp_all add: page_requests_def ocr_lines_def)
next
  case False
  then show ?thesis
    by (cases "downscale_if_needed (e_media (or_env r)) (or_content r) (e_settings (or_env r))")
      (simp_all add: page_requests_def ocr_lines_def rbind_def split: sum.split)
qed

lemma enter_ok:
  assumes "sem_ok s" and "\<not> holding (or_pc r)" and "Suc (permits s) = permits s'" and "queued s = queued s' - {or_task r}"
  shows "turn_ok (r, s') (ocr_enter (r, s))"
proof (cases "page_requests r")
  case (Inl e)
  then have "ocr_lines (or_env r) (or_content r) (or_mime r) = Inl e" by (simp add: page_requests_lines)
  then have "turn_ok (r, s') (ocr_leave (Inl e) (r, s))"
    using leave_ok [OF assms(1), of "Inl e" r s'] assms(2-4) by (simp add: held_def)
  then show ?thesis by (simp add: ocr_enter_def Inl)
next
  case (Inr p)
  obtain images mime pages where p: "p = (images, mime, pages)" by (metis prod.collapse)
  note l = page_requests_lines [of r, unfolded Inr p]
  show ?thesis
  proof (cases "images = []")
    case True
    then have "turn_ok (r, s') (ocr_leave (Inr ([], pages)) (r, s))"
      using leave_ok [OF assms(1), of "Inr ([], pages)" r s'] assms(2-4) l by (simp add: held_def)
    then show ?thesis by (simp add: ocr_enter_def Inr p True)
  next
    case False
    then show ?thesis using assms l by (auto simp: ocr_enter_def Inr p turn_ok_def held_def waits_def)
  qed
qed

lemma ask_ok:
  assumes "sem_ok s" and "or_pc r = Asking" and "or_task r \<notin> queued s"
  shows "turn_ok (r, s) (ocr_turn c (r, s))"
proof (cases "sem_locked s")
  case True
  let ?ws = "sm_waiters s @ [(or_task r, Pending)]"
  have "\<exists>w \<in> set ?ws. snd w \<noteq> Pending" if v: "0 < sm_value s"
  proof -
    obtain w where w: "w \<in> set (sm_waiters s)" using True v by (auto simp: sem_locked_def list_ex_iff)
    show ?thesis
    proof (cases "snd w = Pending")
      case True
      then have "any_pending (sm_waiters s)" using w by (auto simp: any_pending_def)
      then show ?thesis using assms(1) v by (auto simp: sem_ok_def)
    next
      case False
      then show ?thesis using w by auto
    qed
  qed
  moreover have "or_task r \<notin> fst ` set (sm_waiters s)" using assms(3) by (simp add: queued_def)
  ultimately have "sem_ok (s\<lparr>sm_waiters := ?ws\<rparr>)" using assms(1) by (auto simp: sem_ok_def)
  then show ?thesis using True assms(2,3)
    by (auto simp: ocr_turn_def Let_def turn_ok_def permits_def queued_def held_def waits_def)
next
  case False
  let ?s = "s\<lparr>sm_value := sm_value s - 1\<rparr>"
  have "\<not> any_pending (sm_waiters s)" using False by (auto simp: sem_locked_def list_ex_iff any_pending_def)
  then have "sem_ok ?s" using assms(1) by (simp add: sem_ok_def)
  moreover have "Suc (permits ?s) = permits s" using False by (simp add: sem_locked_def permits_def)
  ultimately have "turn_ok (r, s) (ocr_enter (r, ?s))"
    using assms(2,3) by (intro enter_ok) (auto simp: queued_def)
  then show ?thesis using False assms(2) by (simp add: ocr_turn_def Let_def)
qed

lemma wait_ok:
  assumes "sem_ok s" and "or_pc r = Waiting" and "map_of (sm_waiters s) (or_task r) = Some st"
  shows "ocr_turn c (r, s) = (r, s) \<or> turn_ok (r, s) (ocr_turn c (r, s))"
proof (cases st)
  case Pending
  note w = set_waiter_facts [OF assms(1,3), of Cancelled, unfolded Pending]
  show ?thesis
  proof (cases c)
    case True
    have "or_task r \<in> queued s" using assms(3) by (force simp: queued_def dest: map_of_SomeD)
    then show ?thesis using True assms(2,3) Pending w
      by (auto simp: ocr_turn_def Let_def turn_ok_def held_def waits_def intro: exI [of _ Waiting])
  qed (use assms Pending in \<open>simp add: ocr_turn_def Let_def\<close>)
next
  case Granted
  show ?thesis
  proof (cases c)
    case True
    have "or_task r \<in> queued s" using assms(3) by (force simp: queued_def dest: map_of_SomeD)
    then show ?thesis using True assms(2,3) Granted set_waiter_facts [OF assms(1,3), of Revoked, unfolded Granted]
      by (auto simp: ocr_turn_def Let_def turn_ok_def held_def waits_def intro: exI [of _ Waiting])
  next
    case False
    have "turn_ok (r, s) (ocr_enter (r, unqueue (or_task r) 0 s))"
      using unqueue_facts [OF assms(1,3), of 0, unfolded Granted] assms(2) by (intro enter_ok) auto
    then show ?thesis using False assms(2,3) Granted by (simp add: ocr_turn_def Let_def)
  qed
next
  case Cancelled
  then show ?thesis using unqueue_facts [OF assms(1,3), of 0, unfolded Cancelled] assms(2,3)
    by (auto simp: ocr_turn_def Let_def turn_ok_def held_def waits_def)
next
  case Revoked
  then show ?thesis using unqueue_facts [OF assms(1,3), of 1, unfolded Revoked] assms(2,3)
    by (auto simp: ocr_turn_def Let_def turn_ok_def held_def waits_def)
qed

lemma send_ok:
  assumes "sem_ok s" and pc: "or_pc r = Sending images mime lines pages" and "or_task r \<notin> queued s"
    and "faithful r (or_pc r)"
  shows "turn_ok (r, s) (ocr_turn c (r, s))"
proof -
  let ?lines = "ocr_lines (or_env r) (or_content r) (or_mime r)"
  have l: "rbind (rmap (\<lambda>img. e_provider (or_env r) img mime) images) (\<lambda>lss. Inr (lines @ concat lss, pages)) = ?lines"
    using assms(4) by (simp add: pc)
  have leaves: "turn_ok (r, s) (ocr_leave res (r, s))" if "res = Inl CancelledError \<or> res = ?lines" for res
    using leave_ok [OF assms(1) that, of s] assms(3) by (simp add: held_def pc)
  show ?thesis
  proof (cases images)
    case Nil
    then show ?thesis using leaves [of "Inr (lines, pages)"] l by (simp add: ocr_turn_def Let_def pc)
  next
    case (Cons img rest)
    show ?thesis
    proof (cases c)
      case True
      then show ?thesis using leaves by (simp add: ocr_turn_def Let_def pc Cons)
    next
      case plain: False
      show ?thesis
      proof (cases "e_provider (or_env r) img mime")
        case (Inl e)
        then have "Inl e = ?lines" using l by (simp add: Cons)
        then show ?thesis using leaves [of "Inl e"] Inl plain by (simp add: ocr_turn_def Let_def pc Cons)
      next
        case (Inr ls)
        then have l': "rbind (rmap (\<lambda>img. e_provider (or_env r) img mime) rest) (\<lambda>lss. Inr ((lines @ ls) @ concat lss, pages)) = ?lines"
          using l by (cases "rmap (\<lambda>img. e_provider (or_env r) img mime) rest") (simp_all add: Cons)
        show ?thesis
        proof (cases "rest = []")
          case True
          then show ?thesis using leaves [of "Inr (lines @ ls, pages)"] l' Inr plain
            by (simp add: ocr_turn_def Let_def pc Cons)
        next
          case False
          have "queued s = queued s - {or_task r}" using assms(3) by simp
          then show ?thesis using False Inr plain l' assms(1)
            by (auto simp: ocr_turn_def Let_def pc Cons turn_ok_def held_def waits_def)
        qed
      qed
    qed
  qed
qed

lemma ocr_turn_ok:
  assumes "sem_ok s" and "or_task r \<in> queued s \<longleftrightarrow> or_pc r = Waiting" and "faithful r (or_pc r)"
  shows "ocr_turn c (r, s) = (r, s) \<or> turn_ok (r, s) (ocr_turn c (r, s))"
proof (cases "or_pc r")
  case Asking
  then show ?thesis using ask_ok assms by simp
next
  case Waiting
  then obtain st where "map_of (sm_waiters s) (or_task r) = Some st"
    using assms(2) by (cases "map_of (sm_waiters s) (or_task r)") (auto simp: queued_def map_of_eq_None_iff)
  then show ?thesis using wait_ok [OF assms(1) Waiting] by blast
next
  case (Sending images mime lines pages)
  then show ?thesis using send_ok [OF assms(1) Sending _ assms(3)] assms(2) by simp
next
  case (Recognised res)
  then show ?thesis by (simp add: ocr_turn_def Let_def)
qed

subsection \<open>All runs together\<close>

definition waiting_tasks :: "ocr_run list \<Rightarrow> nat set" where
  "waiting_tasks rs = (\<Union>r \<in> set rs. waits r)"

definition stage_inv :: "nat \<Rightarrow> ocr_run list \<times> semaphore \<Rightarrow> bool" where
  "stage_inv L y \<longleftrightarrow>
     distinct (map or_task (fst y)) \<and> sem_ok (snd y) \<and> queued (snd y) = waiting_tasks (fst y)
     \<and> permits (snd y) + sum_list (map held (fst y)) = L \<and> (\<forall>r \<in> set (fst y). faithful r (or_pc r))"

lemma waits_task: "waits r \<subseteq> {or_task r}"
  by (simp add: waits_def)

lemma waiting_update:
  assumes "distinct (map or_task rs)" and "n < length rs" and "or_task r' = or_task (rs ! n)"
  shows "waiting_tasks (rs[n := r']) = waiting_tasks rs - {or_task (rs ! n)} \<union> waits r'"
proof -
  have rs: "rs = take n rs @ rs ! n # drop (Suc n) rs" and rs': "rs[n := r'] = take n rs @ r' # drop (Suc n) rs"
    using assms(2) by (simp_all add: id_take_nth_drop upd_conv_take_nth_drop)
  let ?others = "waiting_tasks (take n rs @ drop (Suc n) rs)"
  have "distinct (map or_task (take n rs @ rs ! n # drop (Suc n) rs))" using assms(1) rs by simp
  then have "or_task (rs ! n) \<notin> or_task ` set (take n rs @ drop (Suc n) rs)" by auto
  then have "or_task (rs ! n) \<notin> ?others" using waits_task by (fastforce simp: waiting_tasks_def)
  moreover have "waiting_tasks rs = ?others \<union> waits (rs ! n)"
    unfolding waiting_tasks_def by (subst rs) auto
  moreover have "waiting_tasks (rs[n := r']) = ?others \<union> waits r'" unfolding waiting_tasks_def rs' by auto
  ultimately show ?thesis using waits_task [of "rs ! n"] by blast
qed

lemma waiting_task:
  assumes "distinct (map or_task rs)" and "r \<in> set rs"
  shows "or_task r \<in> waiting_tasks rs \<longleftrightarrow> or_pc r = Waiting"
proof
  assume "or_task r \<in> waiting_tasks rs"
  then obtain q where q: "q \<in> set rs" "or_task r \<in> waits q" by (auto simp: waiting_tasks_def)
  then have "or_task q = or_task r" "or_pc q = Waiting" by (auto simp: waits_def split: if_splits)
  moreover have "inj_on or_task (set rs)" using assms(1) by (simp add: distinct_map)
  ultimately show "or_pc r = Waiting" using q(1) assms(2) by (metis inj_onD)
qed (use assms(2) in \<open>auto simp: waiting_tasks_def waits_def\<close>)

lemma faithful_pc [simp]: "faithful (r\<lparr>or_pc := pc\<rparr>) pc' = faithful r pc'"
  by (cases pc') simp_all

lemma stage_turn:
  assumes inv: "stage_inv L (rs, s)" and n: "n < length rs"
  shows "advance ocr_turn c n (rs, s) = (rs, s) \<or> turn_ok (rs ! n, s) (ocr_turn c (rs ! n, s))"
    and "stage_inv L (advance ocr_turn c n (rs, s))"
proof -
  let ?r = "rs ! n"
  obtain r' s' where t: "ocr_turn c (?r, s) = (r', s')" by fastforce
  have adv: "advance ocr_turn c n (rs, s) = (rs[n := r'], s')" using n t by (simp add: advance_def)
  have i: "distinct (map or_task rs)" "sem_ok s" "queued s = waiting_tasks rs" "permits s + sum_list (map held rs) = L"
      "\<forall>r \<in> set rs. faithful r (or_pc r)" using inv by (simp_all add: stage_inv_def)
  have mem: "?r \<in> set rs" using n by simp
  have ok: "ocr_turn c (?r, s) = (?r, s) \<or> turn_ok (?r, s) (ocr_turn c (?r, s))"
    using ocr_turn_ok [OF i(2), of ?r c] waiting_task [OF i(1) mem] i(3,5) mem by simp
  then show "advance ocr_turn c n (rs, s) = (rs, s) \<or> turn_ok (?r, s) (ocr_turn c (?r, s))"
    using t adv by auto
  show "stage_inv L (advance ocr_turn c n (rs, s))"
  proof (cases "ocr_turn c (?r, s) = (?r, s)")
    case True
    then show ?thesis using inv adv t by simp
  next
    case False
    then obtain pc where pc: "r' = ?r\<lparr>or_pc := pc\<rparr>" "faithful ?r pc" and s': "sem_ok s'"
        "permits s' + held r' = permits s + held ?r" "queued s' = queued s - {or_task ?r} \<union> waits r'"
      using ok t by (auto simp: turn_ok_def)
    have id: "or_task r' = or_task ?r" using pc(1) by simp
    have "map or_task (rs[n := r']) = map or_task rs" unfolding map_update id by (metis list_update_id map_update)
    moreover have "queued s' = waiting_tasks (rs[n := r'])" using waiting_update [OF i(1) n id] s'(3) i(3) by simp
    moreover have "sum_list (map held (rs[n := r'])) + held ?r = sum_list (map held rs) + held r'"
    proof -
      have "held ?r \<le> sum_list (map held rs)" using mem by (intro member_le_sum_list) auto
      then show ?thesis using n by (simp add: map_update sum_list_update)
    qed
    moreover have "faithful r (or_pc r)" if "r \<in> set (rs[n := r'])" for r
      using set_update_subset_insert [THEN subsetD, OF that] i(5) pc by auto
    ultimately show ?thesis using i(1,4) s'(1,2) by (simp add: adv stage_inv_def)
  qed
qed

lemma stage_step_inv:
  assumes "stage_step y y'" and "stage_inv L y"
  shows "stage_inv L y'"
  using assms(1)
proof cases
  case (entered r rs s)
  then show ?thesis using assms(2) by (auto simp: stage_inv_def waiting_tasks_def waits_def held_def)
next
  case (turned n rs s c)
  then show ?thesis using stage_turn(2) assms(2) by blast
qed

lemma stage_reachable: "stage_step\<^sup>*\<^sup>* (stage_init cpus S) y \<Longrightarrow> stage_inv (nat (ocr_semaphore cpus S)) y"
proof (induction rule: rtranclp_induct)
  case base
  show ?case by (simp add: stage_init_def stage_inv_def sem_ok_def permits_def queued_def waiting_tasks_def)
qed (auto intro: stage_step_inv)

fun recognised :: "ocr_pc \<Rightarrow> bool" where
  "recognised (Recognised res) = True"
| "recognised pc = False"

text \<open>
  Property C16: the semaphore bounds the recognition stage and loses no place. However many runs there are, however
  their awaits interleave and whichever of them are cancelled or refused by the provider: at no time
  are more runs between acquiring and releasing than the settings allow, and free, granted and held
  places always add up to that number; a run that is over has what \<open>_ocr_lines\<close> gives for its file, or was
  cancelled; and when all are over, every place is free again and nobody is queued.
\<close>

theorem ocr_stage_bounded:
  assumes "stage_step\<^sup>*\<^sup>* (stage_init cpus S) (rs, s)"
  shows "int (length (filter (\<lambda>r. holding (or_pc r)) rs)) \<le> ocr_semaphore cpus S
    \<and> int (sm_value s + places (sm_waiters s) + length (filter (\<lambda>r. holding (or_pc r)) rs)) = ocr_semaphore cpus S
    \<and> (if r \<in> set rs \<and> or_pc r = Recognised res
       then res = Inl CancelledError \<or> res = ocr_lines (or_env r) (or_content r) (or_mime r) else True)
    \<and> (if list_all (\<lambda>r. recognised (or_pc r)) rs
       then s = \<lparr>sm_value = nat (ocr_semaphore cpus S), sm_waiters = []\<rparr> else True)"
proof -
  have inv: "stage_inv (nat (ocr_semaphore cpus S)) (rs, s)" by (rule stage_reachable [OF assms])
  have held: "sum_list (map held rs) = length (filter (\<lambda>r. holding (or_pc r)) rs)"
    by (induction rs) (simp_all add: held_def)
  have total: "int (sm_value s + places (sm_waiters s) + length (filter (\<lambda>r. holding (or_pc r)) rs)) = ocr_semaphore cpus S"
    using inv held ocr_semaphore_pos [of cpus S] by (simp add: stage_inv_def permits_def)
  have result: "res = Inl CancelledError \<or> res = ocr_lines (or_env r) (or_content r) (or_mime r)"
    if "r \<in> set rs" "or_pc r = Recognised res"
    using inv that by (force simp: stage_inv_def)
  have free: "s = \<lparr>sm_value = nat (ocr_semaphore cpus S), sm_waiters = []\<rparr>" if all: "list_all (\<lambda>r. recognised (or_pc r)) rs"
  proof -
    have "waits r = {}" "\<not> holding (or_pc r)" if "r \<in> set rs" for r
      using all that by (cases "or_pc r"; force simp: list_all_iff waits_def)+
    then have "waiting_tasks rs = {}" "filter (\<lambda>r. holding (or_pc r)) rs = []" by (auto simp: waiting_tasks_def filter_empty_conv)
    then have "sm_waiters s = []" "int (sm_value s) = ocr_semaphore cpus S"
      using inv total by (auto simp: stage_inv_def queued_def)
    then show ?thesis by (cases s) auto
  qed
  show ?thesis using total result free by auto
qed

subsection \<open>The stage ends\<close>

text \<open>What is left to do: for a waiter, for a run, for all.\<close>

fun waiter_work :: "waiter \<Rightarrow> nat" where
  "waiter_work Pending = 2"
| "waiter_work Granted = 1"
| "waiter_work w = 0"

definition queue_work :: "(nat \<times> waiter) list \<Rightarrow> nat" where
  "queue_work ws = sum_list (map (\<lambda>w. waiter_work (snd w)) ws)"

definition pages_of :: "ocr_run \<Rightarrow> nat" where
  "pages_of r = (case page_requests r of Inr (images, mime, pages) \<Rightarrow> length images | Inl e \<Rightarrow> 0)"

definition run_work :: "ocr_run \<Rightarrow> nat" where
  "run_work r =
     (case or_pc r of
        Asking \<Rightarrow> pages_of r + 5
      | Waiting \<Rightarrow> pages_of r + 2
      | Sending images mime lines pages \<Rightarrow> Suc (length images)
      | Recognised res \<Rightarrow> 0)"

definition stage_work :: "ocr_run list \<times> semaphore \<Rightarrow> nat" where
  "stage_work y = sum_list (map run_work (fst y)) + queue_work (sm_waiters (snd y))"

lemma queue_work_simps [simp]:
  "queue_work [] = 0" "queue_work (w # ws) = waiter_work (snd w) + queue_work ws"
  "queue_work (ws @ vs) = queue_work ws + queue_work vs"
  by (simp_all add: queue_work_def)

lemma grant_work: "grant ws = Some ws' \<Longrightarrow> queue_work ws' < queue_work ws"
  by (induction ws arbitrary: ws') (auto split: if_splits)

lemma release_work: "queue_work (sm_waiters (release s)) \<le> queue_work (sm_waiters s)"
  using grant_work by (auto simp: release_def less_imp_le split: option.split)

lemma wake_up_work: "queue_work (sm_waiters (wake_up n ws)) \<le> queue_work ws"
proof (induction n ws rule: wake_up.induct)
  case (2 n ws)
  show ?case
  proof (cases "grant ws")
    case (Some ws')
    then show ?thesis using 2 [OF Some] grant_work [OF Some] by simp
  qed simp
qed simp

lemma unqueue_work:
  assumes "map_of (sm_waiters s) t = Some st"
  shows "queue_work (sm_waiters (unqueue t back s)) + waiter_work st \<le> queue_work (sm_waiters s)"
proof -
  have "map_of ws t = Some st \<Longrightarrow> queue_work (filter (\<lambda>w. fst w \<noteq> t) ws) + waiter_work st \<le> queue_work ws" for ws
  proof (induction ws)
    case (Cons w ws)
    have "queue_work (filter P vs) \<le> queue_work vs" for P vs by (induction vs) auto
    then show ?case using Cons by (cases "fst w = t") (auto simp: add.commute)
  qed simp
  from this [OF assms] show ?thesis using wake_up_work le_trans unfolding unqueue_def by (metis add_le_mono1)
qed

lemma set_waiter_work:
  assumes "map_of (sm_waiters s) t = Some st" and "waiter_work st' = 0" and "0 < waiter_work st"
  shows "queue_work (sm_waiters (set_waiter t st' s)) < queue_work (sm_waiters s)"
proof -
  let ?f = "\<lambda>w. if fst w = t then (t, st') else w"
  have le: "queue_work (map ?f ws) \<le> queue_work ws" for ws using assms(2) by (induction ws) auto
  have "map_of ws t = Some st \<Longrightarrow> queue_work (map ?f ws) < queue_work ws" for ws
  proof (induction ws)
    case (Cons w ws)
    then show ?case using le [of ws] assms(2,3) by (cases "fst w = t") auto
  qed simp
  then show ?thesis using assms(1) by (simp add: set_waiter_def)
qed

lemma leave_work:
  "run_work (fst (ocr_leave res (r, s))) = 0" "queue_work (sm_waiters (snd (ocr_leave res (r, s)))) \<le> queue_work (sm_waiters s)"
  using release_work by (simp_all add: ocr_leave_def run_work_def)

lemma enter_work:
  "run_work (fst (ocr_enter (r, s))) \<le> Suc (pages_of r)"
  "queue_work (sm_waiters (snd (ocr_enter (r, s)))) \<le> queue_work (sm_waiters s)"
  using leave_work [of _ r s]
  by (auto simp: ocr_enter_def pages_of_def run_work_def split: sum.split prod.split)

lemma ocr_turn_work:
  "ocr_turn c (r, s) = (r, s)
   \<or> run_work (fst (ocr_turn c (r, s))) + queue_work (sm_waiters (snd (ocr_turn c (r, s)))) < run_work r + queue_work (sm_waiters s)"
proof (cases "or_pc r")
  case Asking
  show ?thesis
  proof (cases "sem_locked s")
    case True
    then show ?thesis using Asking by (simp add: ocr_turn_def Let_def run_work_def pages_of_def page_requests_def)
  next
    case False
    then show ?thesis using Asking enter_work [of r "s\<lparr>sm_value := sm_value s - 1\<rparr>"]
      by (simp add: ocr_turn_def Let_def run_work_def)
  qed
next
  case Waiting
  show ?thesis
  proof (cases "map_of (sm_waiters s) (or_task r)")
    case None
    then show ?thesis using Waiting by (simp add: ocr_turn_def Let_def)
  next
    case (Some st)
    note u = unqueue_work [OF Some]
    show ?thesis
    proof (cases c)
      case True
      then show ?thesis using Waiting Some set_waiter_work [OF Some]
        by (cases st) (simp_all add: ocr_turn_def Let_def)
    next
      case False
      then show ?thesis using Waiting Some u [of 0] u [of 1] enter_work [of r "unqueue (or_task r) 0 s"]
        by (cases st) (simp_all add: ocr_turn_def Let_def run_work_def)
    qed
  qed
next
  case (Sending images mime lines pages)
  have out: "run_work (fst (ocr_leave res (r, s))) + queue_work (sm_waiters (snd (ocr_leave res (r, s)))) < run_work r + queue_work (sm_waiters s)"
    for res using leave_work [of res r s] Sending by (simp add: run_work_def)
  show ?thesis
  proof (cases images)
    case Nil
    then show ?thesis using out Sending by (simp add: ocr_turn_def Let_def)
  next
    case (Cons img rest)
    show ?thesis
    proof (cases "c \<or> rest = [] \<or> (\<exists>e. e_provider (or_env r) img mime = Inl e)")
      case True
      then show ?thesis using out Sending Cons
        by (auto simp: ocr_turn_def Let_def split: sum.split)
    next
      case False
      then obtain ls where "e_provider (or_env r) img mime = Inr ls" by (cases "e_provider (or_env r) img mime") auto
      then show ?thesis using False Sending Cons by (simp add: ocr_turn_def Let_def run_work_def)
    qed
  qed
next
  case (Recognised res)
  then show ?thesis by (simp add: ocr_turn_def Let_def)
qed

lemma stage_turn_work:
  assumes "n < length rs"
  shows "advance ocr_turn c n (rs, s) = (rs, s) \<or> stage_work (advance ocr_turn c n (rs, s)) < stage_work (rs, s)"
proof -
  let ?r = "rs ! n"
  obtain r' s' where t: "ocr_turn c (?r, s) = (r', s')" by fastforce
  have adv: "advance ocr_turn c n (rs, s) = (rs[n := r'], s')" using assms t by (simp add: advance_def)
  have "sum_list (map run_work (rs[n := r'])) + run_work ?r = sum_list (map run_work rs) + run_work r'"
  proof -
    have "run_work ?r \<le> sum_list (map run_work rs)" using assms by (intro member_le_sum_list) auto
    then show ?thesis using assms by (simp add: map_update sum_list_update)
  qed
  then show ?thesis using ocr_turn_work [of c ?r s] by (auto simp: adv t stage_work_def)
qed

text \<open>Somebody can always go on: a free place is never kept from a run that waits for it.\<close>

lemma can_go_on:
  assumes inv: "stage_inv L (rs, s)" and "0 < L" and "\<not> list_all (\<lambda>r. recognised (or_pc r)) rs"
  shows "\<exists>n < length rs. advance ocr_turn False n (rs, s) \<noteq> (rs, s)"
proof -
  have i: "distinct (map or_task rs)" "sem_ok s" "queued s = waiting_tasks rs" "permits s + sum_list (map held rs) = L"
    using inv by (simp_all add: stage_inv_def)
  have moves: ?thesis if q: "q \<in> set rs" "or_pc (fst (ocr_turn False (q, s))) \<noteq> or_pc q" for q
  proof -
    obtain n where n: "n < length rs" "rs ! n = q" using q(1) by (auto simp: in_set_conv_nth)
    have "fst (advance ocr_turn False n (rs, s)) ! n = fst (ocr_turn False (q, s))"
      using n by (simp add: advance_def split: prod.split)
    then have "advance ocr_turn False n (rs, s) \<noteq> (rs, s)" using q(2) n by (metis fst_conv)
    then show ?thesis using n(1) by blast
  qed
  have busy: "or_pc (fst (ocr_turn False (q, s))) \<noteq> or_pc q" if "or_pc q = Asking \<or> holding (or_pc q)" for q
    using that by (cases "or_pc q" rule: holding.cases)
      (auto simp: ocr_turn_def ocr_enter_def ocr_leave_def Let_def split: list.splits sum.splits prod.splits)
  have woken: ?thesis if w: "w \<in> set (sm_waiters s)" "snd w \<noteq> Pending" for w
  proof -
    have "fst w \<in> waiting_tasks rs" using w(1) i(3) by (auto simp: queued_def)
    then obtain q where q: "q \<in> set rs" "or_pc q = Waiting" "or_task q = fst w" by (auto simp: waiting_tasks_def waits_def split: if_splits)
    have "map_of (sm_waiters s) (or_task q) = Some (snd w)" using i(2) w(1) q(3) by (simp add: sem_ok_def)
    then have "or_pc (fst (ocr_turn False (q, s))) \<noteq> or_pc q" using w(2) q(2)
      by (cases "snd w") (auto simp: ocr_turn_def ocr_enter_def ocr_leave_def Let_def split: sum.splits prod.splits)
    then show ?thesis using moves q(1) by blast
  qed
  show ?thesis
  proof (cases "\<exists>q \<in> set rs. or_pc q = Asking \<or> holding (or_pc q)")
    case True
    then show ?thesis using moves busy by blast
  next
    case False
    then have "held q = 0" if "q \<in> set rs" for q using that by (simp add: held_def)
    then have none: "sum_list (map held rs) = 0" by simp
    have p: "0 < permits s" using i(4) assms(2) unfolding none by simp
    obtain q where q: "q \<in> set rs" "\<not> recognised (or_pc q)" using assms(3) by (auto simp: list_all_iff)
    then have "or_pc q = Waiting" using False by (cases "or_pc q" rule: recognised.cases) force+
    then have "or_task q \<in> queued s" using q(1) i(3) by (auto simp: waiting_tasks_def waits_def)
    then obtain w where w: "w \<in> set (sm_waiters s)" by (auto simp: queued_def)
    show ?thesis
    proof (cases "\<exists>v \<in> set (sm_waiters s). snd v \<noteq> Pending")
      case True
      then show ?thesis using woken by blast
    next
      case False
      then have "places (sm_waiters s) = 0" "any_pending (sm_waiters s)"
        using w by (auto simp: places_def filter_empty_conv) (metis any_pending_def w)
      then show ?thesis using i(2) p False by (auto simp: sem_ok_def permits_def)
    qed
  qed
qed

text \<open>
  Property C17: the recognition stage ends, without a deadlock. In every reachable state, each turn of each run,
  cancelled or not, changes nothing or leaves strictly less to do; and as long as a run is not over, one
  of them can take a turn that does. So whatever the order of the turns, after at most \<open>stage_work\<close> of them that
  change something every run is over.
\<close>

theorem ocr_stage_ends:
  assumes "stage_step\<^sup>*\<^sup>* (stage_init cpus S) (rs, s)"
  shows "(if n < length rs \<and> advance ocr_turn c n (rs, s) \<noteq> (rs, s)
      then stage_work (advance ocr_turn c n (rs, s)) < stage_work (rs, s) else True)
    \<and> (if list_all (\<lambda>r. recognised (or_pc r)) rs then True
       else \<exists>n < length rs. stage_work (advance ocr_turn False n (rs, s)) < stage_work (rs, s))"
proof -
  have inv: "stage_inv (nat (ocr_semaphore cpus S)) (rs, s)" by (rule stage_reachable [OF assms])
  have "0 < nat (ocr_semaphore cpus S)" using ocr_semaphore_pos [of cpus S] by simp
  then have "\<exists>n < length rs. stage_work (advance ocr_turn False n (rs, s)) < stage_work (rs, s)"
    if "\<not> list_all (\<lambda>r. recognised (or_pc r)) rs"
    using can_go_on [OF inv _ that] stage_turn_work [of _ rs False s] by metis
  moreover have "stage_work (advance ocr_turn c n (rs, s)) < stage_work (rs, s)"
    if "n < length rs" "advance ocr_turn c n (rs, s) \<noteq> (rs, s)"
    using stage_turn_work [OF that(1)] that(2) by metis
  ultimately show ?thesis by simp
qed

subsection \<open>Applications\<close>

definition narrow_settings :: settings where
  "narrow_settings = demo_settings\<lparr>semaphore_override := Some 1\<rparr>"

definition demo_ocr_run :: "nat \<Rightarrow> ocr_run" where
  "demo_ocr_run t = \<lparr>or_task = t, or_env = scan_env, or_content = B ''%PDF-1.7'', or_mime = U ''application/pdf'', or_pc = Asking\<rparr>"

text \<open>Two runs on one place: the second waits, is cancelled in the queue, and the first sends its two pages.\<close>

definition demo_turns :: "(bool \<times> nat) list" where
  "demo_turns = [(False, 0), (False, 1), (False, 0), (True, 1), (False, 0), (False, 1)]"

definition demo_stage :: "nat \<Rightarrow> ocr_run list \<times> semaphore" where
  "demo_stage k = fold (\<lambda>(c, n) y. advance ocr_turn c n y) (take k demo_turns)
     ([demo_ocr_run 0, demo_ocr_run 1], \<lparr>sm_value = 1, sm_waiters = []\<rparr>)"

lemma stage_turns:
  "\<forall>(c, n) \<in> set cs. n < length (fst y) \<Longrightarrow> stage_step\<^sup>*\<^sup>* y (fold (\<lambda>(c, n) y. advance ocr_turn c n y) cs y)"
proof (induction cs arbitrary: y)
  case (Cons p cs)
  obtain c n where p: "p = (c, n)" by fastforce
  have 1: "stage_step y (advance ocr_turn c n y)"
    using Cons.prems stage_step.turned [of n "fst y" "snd y" c] by (simp add: p)
  have "length (fst (advance ocr_turn c n y)) = length (fst y)" by (simp add: advance_def split: prod.split)
  then have "stage_step\<^sup>*\<^sup>* (advance ocr_turn c n y) (fold (\<lambda>(c, n) y. advance ocr_turn c n y) cs (advance ocr_turn c n y))"
    using Cons.prems by (intro Cons.IH) (simp add: p)
  with 1 show ?case by (simp add: p converse_rtranclp_into_rtranclp)
qed simp

lemma demo_stage_steps: "stage_step\<^sup>*\<^sup>* (stage_init None narrow_settings) (fst (demo_stage k), snd (demo_stage k))"
proof -
  let ?y = "([demo_ocr_run 0, demo_ocr_run 1], \<lparr>sm_value = 1, sm_waiters = []\<rparr>)"
  have init: "stage_init None narrow_settings = ([], \<lparr>sm_value = 1, sm_waiters = []\<rparr>)"
    by (simp add: stage_init_def narrow_settings_def ocr_semaphore_def)
  have "stage_step ([], \<lparr>sm_value = 1, sm_waiters = []\<rparr>) ([] @ [demo_ocr_run 0], \<lparr>sm_value = 1, sm_waiters = []\<rparr>)"
    by (rule stage_step.entered) (simp_all add: demo_ocr_run_def)
  moreover have "stage_step ([demo_ocr_run 0], \<lparr>sm_value = 1, sm_waiters = []\<rparr>) ([demo_ocr_run 0] @ [demo_ocr_run 1], \<lparr>sm_value = 1, sm_waiters = []\<rparr>)"
    by (rule stage_step.entered) (simp_all add: demo_ocr_run_def)
  ultimately have 1: "stage_step\<^sup>*\<^sup>* (stage_init None narrow_settings) ?y" by (simp add: init)
  have "\<forall>(c, n) \<in> set (take k demo_turns). n < length (fst ?y)" by (auto simp: demo_turns_def dest!: in_set_takeD)
  from stage_turns [OF this] have "stage_step\<^sup>*\<^sup>* ?y (demo_stage k)" by (simp only: demo_stage_def)
  with 1 show ?thesis by simp
qed

lemma demo_stage_over: "map (\<lambda>r. recognised (or_pc r)) (fst (demo_stage 6)) = [True, True]"
  by code_simp

lemma demo_stage_busy: "map (\<lambda>r. recognised (or_pc r)) (fst (demo_stage 4)) = [False, False]"
  by code_simp

theorem ocr_stage_bounded_witness: "snd (demo_stage 6) = \<lparr>sm_value = 1, sm_waiters = []\<rparr>"
proof -
  have "list_all (\<lambda>r. recognised (or_pc r)) (fst (demo_stage 6))"
    using demo_stage_over by (auto simp: list_all_iff map_eq_Cons_conv)
  with ocr_stage_bounded [OF demo_stage_steps] show ?thesis by (simp add: narrow_settings_def ocr_semaphore_def)
qed

theorem ocr_stage_ends_witness:
  "\<exists>n < length (fst (demo_stage 4)). stage_work (advance ocr_turn False n (demo_stage 4)) < stage_work (demo_stage 4)"
proof -
  have "\<not> list_all (\<lambda>r. recognised (or_pc r)) (fst (demo_stage 4))"
    using demo_stage_busy by (auto simp: list_all_iff map_eq_Cons_conv)
  with ocr_stage_ends [OF demo_stage_steps [of 4]] show ?thesis by simp
qed

end
