(* ===== verification/Ocr_Drain.thy ===== *)
theory Ocr_Drain
  imports Ocr_Publisher "HOL-Library.Multiset"
begin

text \<open>
  The publisher over many ticks (\<open>run\<close>, \<open>events/publisher.py\<close>): how a backlog of events is worked off, and
  what one event that the producer refuses does to those behind it.
\<close>

subsection \<open>One tick on a backlog\<close>

definition unpublished :: "db \<Rightarrow> orow list" where
  "unpublished w = filter (\<lambda>r. o_published_at r = None) (outbox w)"

definition published_row :: "int \<Rightarrow> orow \<Rightarrow> orow" where
  "published_row now r = r\<lparr>o_published_at := Some now, o_locked_by := None, o_locked_at := None\<rparr>"

lemma published_row_facts [simp]:
  "o_id (published_row now r) = o_id r" "o_payload (published_row now r) = o_payload r"
  "o_published_at (published_row now r) = Some now"
  by (simp_all add: published_row_def)

lemma publish_all_rows:
  "outbox (publish_all now rows w) = map (\<lambda>r. if o_id r \<in> o_id ` set rows then published_row now r else r) (outbox w)"
proof (induction rows arbitrary: w)
  case Nil
  then show ?case by (simp add: publish_all_def)
next
  case (Cons row rows)
  have twice: "published_row now (published_row now r) = published_row now r" for r by (simp add: published_row_def)
  have "outbox (publish_all now (row # rows) w) = outbox (publish_all now rows (mark_published now (o_id row) w))"
    by (simp add: publish_all_def)
  also have "\<dots> = map (\<lambda>r. if o_id r \<in> o_id ` set rows then published_row now r else r)
      (outbox (mark_published now (o_id row) w))" by (rule Cons.IH)
  also have "outbox (mark_published now (o_id row) w) = map (\<lambda>r. if o_id r = o_id row then published_row now r else r) (outbox w)"
    by (simp add: mark_published_def update_rows_def published_row_def)
  finally show ?case using twice by auto
qed

text \<open>What a message says and what it says of an event: the document it is keyed by, and the payload.\<close>

definition said :: "message \<Rightarrow> pystr \<times> pyv" where
  "said m = (mg_key m, mg_value m)"

definition announces :: "orow \<Rightarrow> pystr \<times> pyv" where
  "announces r = (uuid_str (o_aggregate_id r), o_payload r)"

lemma publish_all_documents: "documents (publish_all now rows w) = documents w"
  unfolding publish_all_def by (induction rows arbitrary: w) (simp_all add: mark_published_def)

text \<open>The events that a tick takes when every event that is not published is claimable.\<close>

definition batch_ids :: "int \<Rightarrow> nat \<Rightarrow> db \<Rightarrow> uuid set" where
  "batch_ids now batch w = set (claimed_ids now batch w)"

lemma batch_ids_unpublished:
  assumes "\<forall>r \<in> set (outbox w). o_published_at r = None \<longrightarrow> claimable now r"
  shows "claimed_ids now batch w = map o_id (take batch (sort_key o_created_at (unpublished w)))"
proof -
  have "filter (claimable now) (outbox w) = unpublished w"
    using assms by (auto simp: unpublished_def claimable_def intro: filter_cong)
  then show ?thesis by (simp add: claimed_ids_def)
qed

lemma batch_size:
  assumes "\<forall>r \<in> set (outbox w). o_published_at r = None \<longrightarrow> claimable now r" and "distinct (map o_id (outbox w))"
  shows "length (filter (\<lambda>r. o_id r \<in> batch_ids now batch w) (unpublished w)) = min batch (length (unpublished w))"
proof -
  let ?s = "sort_key o_created_at (unpublished w)" and ?ids = "batch_ids now batch w"
  have d: "distinct (map o_id (unpublished w))" using assms(2) by (simp add: unpublished_def distinct_map_filter)
  have m: "mset ?s = mset (unpublished w)" by (rule mset_sort)
  have ds: "distinct (map o_id ?s)" using d m by (metis mset_eq_imp_distinct_iff mset_map)
  have ids: "?ids = o_id ` set (take batch ?s)" using batch_ids_unpublished [OF assms(1)] by (simp add: batch_ids_def)
  have "filter (\<lambda>r. o_id r \<in> ?ids) ?s = take batch ?s"
  proof -
    have "?s = take batch ?s @ drop batch ?s" by simp
    moreover have "o_id ` set (take batch ?s) \<inter> o_id ` set (drop batch ?s) = {}"
      using ds by (metis append_take_drop_id distinct_append map_append set_map)
    then have "filter (\<lambda>r. o_id r \<in> ?ids) (drop batch ?s) = []" unfolding ids by (auto simp: filter_empty_conv)
    moreover have "filter (\<lambda>r. o_id r \<in> ?ids) (take batch ?s) = take batch ?s"
      unfolding ids by (rule filter_True) auto
    ultimately show ?thesis by (metis append_Nil2 filter_append)
  qed
  moreover have "length (filter (\<lambda>r. o_id r \<in> ?ids) (unpublished w)) = length (filter (\<lambda>r. o_id r \<in> ?ids) ?s)"
    using m by (metis mset_filter size_mset)
  ultimately show ?thesis by simp
qed

lemma tick_drains:
  assumes "list_all (\<lambda>r. well_formed_event (o_payload r)) (outbox (p_db p))" and "\<forall>m. produce K m = None"
    and "distinct (map o_id (outbox (p_db p)))"
    and "\<forall>r \<in> set (outbox (p_db p)). o_published_at r = None \<longrightarrow> claimable now r"
  obtains p' ms n where "poll_once I K topic worker now batch p = (p', Inr n)"
    and "p_sent p' = p_sent p @ ms"
    and "outbox (p_db p') = map (\<lambda>r. if o_id r \<in> batch_ids now batch (p_db p)
           then published_row now (claimed_row worker now r) else r) (outbox (p_db p))"
    and "map said ms = map announces (filter (\<lambda>r. o_id r \<in> batch_ids now batch (p_db p)) (unpublished (p_db p)))"
    and "documents (p_db p') = documents (p_db p)"
proof -
  let ?w = "p_db p" and ?ids = "batch_ids now batch (p_db p)"
  obtain w' rows where c: "claim_pending_outbox worker now batch ?w = (w', rows)" by fastforce
  note cw = claim_unfold [OF c, folded batch_ids_def] and keys = claim_db_keys [OF c]
  have out: "outbox w' = map (\<lambda>r. if o_id r \<in> ?ids then claimed_row worker now r else r) (outbox ?w)"
    by (simp add: cw(1) update_rows_def batch_ids_def)
  have "\<forall>r \<in> set (outbox w'). well_formed_event (o_payload r)"
    using assms(1) keys(2) unfolding list_all_iff by (metis (no_types, lifting) imageE image_eqI list.set_map)
  then have wf: "\<forall>row \<in> set rows. well_formed_event (o_payload row)" by (simp add: cw(2))
  obtain ms p' where p': "publish_rows I K topic now rows 0 (p\<lparr>p_db := w'\<rparr>) = (p', Inr (0 + length rows))"
      "p_sent p' = p_sent p @ ms" "p_db p' = publish_all now rows w'"
      "list_all2 (\<lambda>m row. mg_value m = o_payload row \<and> mg_key m = uuid_str (o_aggregate_id row)) ms rows"
    using publish_rows_ok [OF wf assms(2), of I topic now 0 "p\<lparr>p_db := w'\<rparr>"] by auto
  have rows: "rows = map (claimed_row worker now) (filter (\<lambda>r. o_id r \<in> ?ids) (outbox ?w))"
  proof -
    have id: "o_id (claimed_row worker now r) = o_id r" for r by (simp add: claimed_row_def)
    have "filter (\<lambda>r. o_id r \<in> ?ids) (map (\<lambda>r. if o_id r \<in> ?ids then claimed_row worker now r else r) xs)
        = map (claimed_row worker now) (filter (\<lambda>r. o_id r \<in> ?ids) xs)" for xs
      by (induction xs) (simp_all add: id)
    then show ?thesis by (simp only: cw(2) out)
  qed
  have taken: "filter (\<lambda>r. o_id r \<in> ?ids) (outbox ?w) = filter (\<lambda>r. o_id r \<in> ?ids) (unpublished ?w)"
  proof -
    have "o_published_at r = None" if r: "r \<in> set (outbox ?w)" "o_id r \<in> ?ids" for r
    proof -
      obtain q where "q \<in> set (outbox ?w)" "o_id q = o_id r" "claimable now q"
        using r(2) unfolding batch_ids_def by (rule claimed_id_from)
      then have "q = r" using r(1) assms(3) by (simp add: distinct_map inj_on_def)
      then show ?thesis using \<open>claimable now q\<close> by (simp add: claimable_def)
    qed
    then show ?thesis unfolding unpublished_def filter_filter by (intro filter_cong) auto
  qed
  have sent_values: "map said ms = map announces rows"
    using p'(4) by (induction rule: list_all2_induct) (auto simp: said_def announces_def)
  have pay: "announces (claimed_row worker now r) = announces r" "o_id (claimed_row worker now r) = o_id r" for r
    by (simp_all add: claimed_row_def announces_def)
  have "o_id ` set rows = {i \<in> ?ids. i \<in> o_id ` set (outbox ?w)}" by (auto simp: rows pay image_iff)
  then have "outbox (p_db p') = map (\<lambda>r. if o_id r \<in> ?ids then published_row now (claimed_row worker now r) else r) (outbox ?w)"
    unfolding p'(3) publish_all_rows out by (auto simp: pay)
  moreover have "map said ms = map announces (filter (\<lambda>r. o_id r \<in> ?ids) (unpublished ?w))"
    unfolding sent_values rows taken by (simp add: pay o_def)
  moreover have "documents (p_db p') = documents ?w" unfolding p'(3) publish_all_documents by (simp add: cw(1))
  moreover have "poll_once I K topic worker now batch p = (p', Inr (length rows))" using p'(1) by (simp add: poll_once_def c)
  ultimately show thesis using that p'(2) by blast
qed

subsection \<open>A backlog is worked off\<close>

lemma backlog_drains:
  assumes "list_all (\<lambda>r. well_formed_event (o_payload r)) (outbox (p_db p))" and "\<forall>m. produce K m = None"
    and "distinct (map o_id (outbox (p_db p)))"
    and "\<forall>now \<in> set ticks. \<forall>r \<in> set (outbox (p_db p)). o_published_at r = None \<longrightarrow> claimable now r"
    and "length (unpublished (p_db p)) \<le> 100 * length ticks"
  shows "case run_publisher I K topic worker ticks p of
     p' \<Rightarrow> unpublished (p_db p') = [] \<and> map o_id (outbox (p_db p')) = map o_id (outbox (p_db p))
       \<and> documents (p_db p') = documents (p_db p)
       \<and> (\<exists>ms. p_sent p' = p_sent p @ ms \<and> mset (map said ms) = mset (map announces (unpublished (p_db p))))"
  using assms(1,3-5)
proof (induction ticks arbitrary: p)
  case Nil
  then show ?case by simp
next
  case (Cons now ticks)
  let ?w = "p_db p" and ?ids = "batch_ids now 100 (p_db p)"
  have now: "\<forall>r \<in> set (outbox ?w). o_published_at r = None \<longrightarrow> claimable now r" using Cons.prems(3) by simp
  obtain p1 ms n where p1: "poll_once I K topic worker now 100 p = (p1, Inr n)" "p_sent p1 = p_sent p @ ms"
      "outbox (p_db p1) = map (\<lambda>r. if o_id r \<in> ?ids then published_row now (claimed_row worker now r) else r) (outbox ?w)"
      "map said ms = map announces (filter (\<lambda>r. o_id r \<in> ?ids) (unpublished ?w))" "documents (p_db p1) = documents ?w"
    by (rule tick_drains [OF Cons.prems(1) assms(2) Cons.prems(2) now])
  have row: "o_payload (claimed_row worker now r) = o_payload r" "o_id (claimed_row worker now r) = o_id r" for r
    by (simp_all add: claimed_row_def)
  have left: "unpublished (p_db p1) = filter (\<lambda>r. o_id r \<notin> ?ids) (unpublished ?w)"
  proof -
    have "filter (\<lambda>r. o_published_at r = None) (map (\<lambda>r. if o_id r \<in> ?ids then published_row now (claimed_row worker now r) else r) xs)
        = filter (\<lambda>r. o_id r \<notin> ?ids) (filter (\<lambda>r. o_published_at r = None) xs)" for xs
      by (induction xs) auto
    then show ?thesis by (simp only: unpublished_def p1(3))
  qed
  have "length (filter (\<lambda>r. o_id r \<in> ?ids) (unpublished ?w)) + length (unpublished (p_db p1)) = length (unpublished ?w)"
    unfolding left by (rule sum_length_filter_compl)
  then have "length (unpublished (p_db p1)) \<le> 100 * length ticks"
    using batch_size [OF now Cons.prems(2), of 100] Cons.prems(4) by simp
  moreover have "list_all (\<lambda>r. well_formed_event (o_payload r)) (outbox (p_db p1))"
    using Cons.prems(1) by (auto simp: p1(3) list_all_iff row)
  moreover have ids: "map o_id (outbox (p_db p1)) = map o_id (outbox ?w)" by (simp add: p1(3) row)
  moreover have "\<forall>now \<in> set ticks. \<forall>r \<in> set (outbox (p_db p1)). o_published_at r = None \<longrightarrow> claimable now r"
    using Cons.prems(3) by (auto simp: p1(3) split: if_splits)
  ultimately obtain ns where ns: "unpublished (p_db (run_publisher I K topic worker ticks p1)) = []"
      "map o_id (outbox (p_db (run_publisher I K topic worker ticks p1))) = map o_id (outbox ?w)"
      "p_sent (run_publisher I K topic worker ticks p1) = p_sent p1 @ ns"
      "mset (map said ns) = mset (map announces (unpublished (p_db p1)))"
      "documents (p_db (run_publisher I K topic worker ticks p1)) = documents ?w"
    using p1(5) Cons.IH [of p1] Cons.prems(2) by auto
  have "mset (map said (ms @ ns)) = mset (map announces (unpublished ?w))"
  proof -
    have "image_mset announces (mset (filter (\<lambda>r. o_id r \<in> ?ids) xs)) + image_mset announces (mset (filter (\<lambda>r. o_id r \<notin> ?ids) xs))
        = image_mset announces (mset xs)" for xs by (induction xs) simp_all
    then show ?thesis using ns(4) p1(4) left by simp
  qed
  then show ?case using ns(1-3,5) p1(1,2) by (intro conjI exI [of _ "ms @ ns"]) simp_all
qed

text \<open>
  Property C20: a backlog of events is worked off. When the producer accepts messages and no event that is not
  published is held back by a lock or a retry time, the ticks publish every event once there have been enough of
  them, one for each hundred, and hand each of the pending events to the producer exactly once, under the key of its document; those
  that were published before are not sent again.
\<close>

theorem outbox_drains:
  assumes "list_all (\<lambda>r. well_formed_event (o_payload r)) (outbox (p_db p))" and "\<forall>m. produce K m = None"
    and "distinct (map o_id (outbox (p_db p)))"
    and "\<forall>now \<in> set ticks. \<forall>r \<in> set (outbox (p_db p)). o_published_at r = None \<longrightarrow> claimable now r"
    and "length (unpublished (p_db p)) \<le> 100 * length ticks"
  shows "case run_publisher I K topic worker ticks p of
     p' \<Rightarrow> unpublished (p_db p') = [] \<and> map o_id (outbox (p_db p')) = map o_id (outbox (p_db p))
       \<and> documents (p_db p') = documents (p_db p)
       \<and> (\<exists>ms. p_sent p' = p_sent p @ ms \<and> mset (map said ms) = mset (map announces (unpublished (p_db p))))"
  using assms by (rule backlog_drains)

definition backlog :: pubstate where
  "backlog = demo_pub\<lparr>p_db := \<lparr>documents = [], outbox = [demo_event, demo_event\<lparr>o_id := 2, o_aggregate_id := 8\<rparr>]\<rparr>\<rparr>"

lemma backlog_rows:
  "outbox (p_db backlog) = [demo_event, demo_event\<lparr>o_id := 2, o_aggregate_id := 8\<rparr>]" "p_sent backlog = []"
  "o_published_at demo_event = None" "o_locked_at demo_event = None" "o_next_attempt_at demo_event = None" "o_id demo_event = 1"
  "o_aggregate_id demo_event = 7"
  by (simp_all add: backlog_def demo_pub_def demo_event_def event_row_def)

theorem outbox_drains_witness:
  "unpublished (p_db (run_publisher id_interp lossy_kafka (U ''t'') (U ''w1'') [300] backlog)) = []
   \<and> length (p_sent (run_publisher id_interp lossy_kafka (U ''t'') (U ''w1'') [300] backlog)) = 2"
proof -
  have "list_all (\<lambda>r. well_formed_event (o_payload r)) (outbox (p_db backlog))"
    using demo_event_wf by (simp add: backlog_rows)
  moreover have "\<forall>m. produce lossy_kafka m = None" by (simp add: lossy_kafka_def)
  moreover have "distinct (map o_id (outbox (p_db backlog)))" by (simp add: backlog_rows)
  moreover have "\<forall>now \<in> set [300]. \<forall>r \<in> set (outbox (p_db backlog)). o_published_at r = None \<longrightarrow> claimable now r"
    by (simp add: backlog_rows claimable_def)
  moreover have "length (unpublished (p_db backlog)) \<le> 100 * length [300 :: int]"
    by (simp add: unpublished_def backlog_rows)
  ultimately obtain ms where ms: "unpublished (p_db (run_publisher id_interp lossy_kafka (U ''t'') (U ''w1'') [300] backlog)) = []"
      "p_sent (run_publisher id_interp lossy_kafka (U ''t'') (U ''w1'') [300] backlog) = ms"
      "mset (map said ms) = mset (map announces (unpublished (p_db backlog)))"
    using outbox_drains [of backlog lossy_kafka "[300]" id_interp "U ''t''" "U ''w1''"]
    by (auto simp: backlog_rows(2))
  have "length ms = 2" using arg_cong [OF ms(3), of size] by (simp add: unpublished_def backlog_rows)
  with ms(1,2) show ?thesis by simp
qed

subsection \<open>An event that is refused\<close>

definition refused :: "interp \<Rightarrow> kafka \<Rightarrow> pystr \<Rightarrow> orow \<Rightarrow> bool" where
  "refused I K topic row \<longleftrightarrow> (case message_of I topic row of Inl e \<Rightarrow> True | Inr m \<Rightarrow> produce K m \<noteq> None)"

lemma refused_claimed [simp]: "refused I K topic (claimed_row worker now r) = refused I K topic r"
  by (simp add: refused_def message_of_def headers_def claimed_row_def)

lemma publish_rows_refused:
  "publish_rows I K topic now rows n p = (p', r) \<Longrightarrow> row \<in> set rows \<Longrightarrow> refused I K topic row \<Longrightarrow> isl r"
proof (induction rows arbitrary: n p)
  case (Cons q rows)
  then show ?case by (cases "message_of I topic q") (auto simp: refused_def split: option.splits)
qed simp

text \<open>A tick touches an event it does not refuse only; the others keep what they are.\<close>

lemma publish_rows_keeps:
  assumes "publish_rows I K topic now rows n p = (p', r)" and "q \<in> set (outbox (p_db p))"
    and "\<forall>row \<in> set rows. o_id row = o_id q \<longrightarrow> refused I K topic row"
  shows "q \<in> set (outbox (p_db p'))"
  using assms
proof (induction rows arbitrary: n p)
  case (Cons row rows)
  show ?case
  proof (cases "refused I K topic row")
    case True
    then have "p' = p" using Cons.prems(1) by (auto simp: refused_def split: sum.splits option.splits)
    then show ?thesis using Cons.prems(2) by simp
  next
    case False
    then obtain m where m: "message_of I topic row = Inr m" "produce K m = None" by (auto simp: refused_def split: sum.splits)
    let ?p = "on_delivery K m (p\<lparr>p_sent := p_sent p @ [m], p_db := mark_published now (o_id row) (p_db p)\<rparr>)"
    have "o_id row \<noteq> o_id q" using False Cons.prems(3) by auto
    then have "q \<in> set (outbox (p_db ?p))" using Cons.prems(2) by (force simp: mark_published_def set_update_rows)
    moreover have "publish_rows I K topic now rows (n + 1) ?p = (p', r)" using Cons.prems(1) m by simp
    ultimately show ?thesis using Cons.IH Cons.prems(3) by simp
  qed
qed simp

lemma publish_rows_unpublished:
  "publish_rows I K topic now rows n p = (p', r) \<Longrightarrow> length (unpublished (p_db p')) \<le> length (unpublished (p_db p))
     \<and> map o_id (outbox (p_db p')) = map o_id (outbox (p_db p))"
proof (induction rows arbitrary: n p)
  case (Cons row rows)
  have less: "length (unpublished (mark_published now i w)) \<le> length (unpublished w)" for i w
  proof -
    have "length (filter (\<lambda>r. o_published_at r = None) (update_rows (\<lambda>r. o_id r = i)
        (\<lambda>r. r\<lparr>o_published_at := Some now, o_locked_by := None, o_locked_at := None\<rparr>) rs))
      \<le> length (filter (\<lambda>r. o_published_at r = None) rs)" for rs
      by (induction rs) (auto simp: update_rows_def)
    then show ?thesis by (simp add: unpublished_def mark_published_def)
  qed
  have ids: "map o_id (outbox (mark_published now i w)) = map o_id (outbox w)" for i w
    by (simp add: mark_published_def update_rows_keys)
  show ?case
  proof (cases "refused I K topic row")
    case True
    then have "p' = p" using Cons.prems by (auto simp: refused_def split: sum.splits option.splits)
    then show ?thesis by simp
  next
    case False
    then obtain m where m: "message_of I topic row = Inr m" "produce K m = None" by (auto simp: refused_def split: sum.splits)
    then have "publish_rows I K topic now rows (n + 1)
        (on_delivery K m (p\<lparr>p_sent := p_sent p @ [m], p_db := mark_published now (o_id row) (p_db p)\<rparr>)) = (p', r)"
      using Cons.prems by simp
    from Cons.IH [OF this] show ?thesis using less [of "o_id row" "p_db p"] ids [of "o_id row" "p_db p"] by simp
  qed
qed simp

text \<open>
  \<open>x'\<close> is the event \<open>x\<close> after \<open>n\<close> ticks that took it: not published, and not put aside.
\<close>

definition retried :: "orow \<Rightarrow> nat \<Rightarrow> orow \<Rightarrow> bool" where
  "retried x n x' \<longleftrightarrow>
     o_id x' = o_id x \<and> o_published_at x' = None \<and> o_payload x' = o_payload x
     \<and> o_next_attempt_at x' = o_next_attempt_at x \<and> o_last_error x' = o_last_error x
     \<and> o_attempt_count x' = o_attempt_count x + int n"

lemma refused_tick:
  assumes "poll_once I K topic worker now 100 p = (p', r)" and "distinct (map o_id (outbox (p_db p)))"
    and "x \<in> set (outbox (p_db p))" and "o_published_at x = None" and "refused I K topic x"
  obtains (taken) "o_id x \<in> set (claimed_ids now 100 (p_db p))" and "isl r"
      and "claimed_row worker now x \<in> set (outbox (p_db p'))"
    | (left) "o_id x \<notin> set (claimed_ids now 100 (p_db p))" and "x \<in> set (outbox (p_db p'))"
proof -
  let ?ids = "set (claimed_ids now 100 (p_db p))"
  obtain w' rows where c: "claim_pending_outbox worker now 100 (p_db p) = (w', rows)" by fastforce
  note cw = claim_unfold [OF c]
  have run: "publish_rows I K topic now rows 0 (p\<lparr>p_db := w'\<rparr>) = (p', r)" using assms(1) by (simp add: poll_once_def c)
  have d: "distinct (map o_id (outbox w'))" using assms(2) claim_db_keys(1) [OF c] by simp
  define q where "q = (if o_id x \<in> ?ids then claimed_row worker now x else x)"
  have q: "o_id q = o_id x" "refused I K topic q" using assms(5) by (simp_all add: q_def) (simp add: claimed_row_def)
  have q_in: "q \<in> set (outbox w')" using assms(3) by (auto simp: cw(1) set_update_rows q_def)
  have same: "row = q" if "row \<in> set rows" "o_id row = o_id q" for row
    using that q_in d by (auto simp: cw(2) distinct_map dest: inj_onD)
  have "q \<in> set (outbox (p_db p'))"
    by (rule publish_rows_keeps [OF run]) (use q_in q(2) same in auto)
  moreover have "isl r" if "o_id x \<in> ?ids"
    by (rule publish_rows_refused [OF run _ q(2)]) (use that q_in q(1) in \<open>simp add: cw(2)\<close>)
  ultimately show thesis using taken left by (cases "o_id x \<in> ?ids") (auto simp: q_def)
qed

lemma tick_unpublished:
  assumes "poll_once I K topic worker now batch p = (p', r)"
  shows "length (unpublished (p_db p')) \<le> length (unpublished (p_db p)) \<and> map o_id (outbox (p_db p')) = map o_id (outbox (p_db p))"
proof -
  obtain w' rows where c: "claim_pending_outbox worker now batch (p_db p) = (w', rows)" by fastforce
  have run: "publish_rows I K topic now rows 0 (p\<lparr>p_db := w'\<rparr>) = (p', r)" using assms by (simp add: poll_once_def c)
  have "length (filter (\<lambda>r. o_published_at r = None) (update_rows P (claimed_row worker now) rs))
      = length (filter (\<lambda>r. o_published_at r = None) rs)" for P rs
    by (induction rs) (auto simp: update_rows_def claimed_row_def)
  then have "length (unpublished w') = length (unpublished (p_db p))" by (simp add: unpublished_def claim_unfold(1) [OF c])
  then show ?thesis using publish_rows_unpublished [OF run] claim_db_keys(1) [OF c] by simp
qed

text \<open>What each tick takes and how it ends.\<close>

fun tick_log :: "interp \<Rightarrow> kafka \<Rightarrow> pystr \<Rightarrow> pystr \<Rightarrow> int list \<Rightarrow> pubstate \<Rightarrow> (uuid list \<times> nat res) list" where
  "tick_log I K topic worker [] p = []"
| "tick_log I K topic worker (now # ticks) p =
     (claimed_ids now 100 (p_db p), snd (poll_once I K topic worker now 100 p))
       # tick_log I K topic worker ticks (fst (poll_once I K topic worker now 100 p))"

lemma refused_ticks:
  assumes "distinct (map o_id (outbox (p_db p)))" and "x \<in> set (outbox (p_db p))" and "o_published_at x = None"
    and "refused I K topic x"
  shows "\<exists>x' \<in> set (outbox (p_db (run_publisher I K topic worker ticks p))).
      retried x (length (filter (\<lambda>(ids, r). o_id x \<in> set ids) (tick_log I K topic worker ticks p))) x'"
    and "list_all (\<lambda>(ids, r). o_id x \<in> set ids \<longrightarrow> isl r) (tick_log I K topic worker ticks p)"
proof -
  have "(\<exists>x' \<in> set (outbox (p_db (run_publisher I K topic worker ticks p))).
      retried x (length (filter (\<lambda>(ids, r). o_id x \<in> set ids) (tick_log I K topic worker ticks p))) x')
    \<and> list_all (\<lambda>(ids, r). o_id x \<in> set ids \<longrightarrow> isl r) (tick_log I K topic worker ticks p)"
    using assms
  proof (induction ticks arbitrary: p x)
    case Nil
    then show ?case by (auto simp: retried_def)
  next
    case (Cons now ticks)
    obtain p1 r where p1: "poll_once I K topic worker now 100 p = (p1, r)" by fastforce
    have d: "distinct (map o_id (outbox (p_db p1)))" using Cons.prems(1) tick_unpublished [OF p1] by simp
    from p1 Cons.prems show ?case
    proof (cases rule: refused_tick)
      case taken
      let ?y = "claimed_row worker now x"
      have y: "o_published_at ?y = None" "refused I K topic ?y" "o_id ?y = o_id x"
        using Cons.prems(3,4) by (simp_all add: claimed_row_def) (simp add: claimed_row_def [symmetric])
      have "retried ?y n x' \<Longrightarrow> retried x (Suc n) x'" for n x' by (simp add: retried_def claimed_row_def)
      then show ?thesis using Cons.IH [OF d taken(3) y(1,2)] taken(1,2) p1 y(3) by auto
    next
      case left
      then show ?thesis using Cons.IH [OF d left(2) Cons.prems(3,4)] p1 by simp
    qed
  qed
  then show "\<exists>x' \<in> set (outbox (p_db (run_publisher I K topic worker ticks p))).
      retried x (length (filter (\<lambda>(ids, r). o_id x \<in> set ids) (tick_log I K topic worker ticks p))) x'"
    and "list_all (\<lambda>(ids, r). o_id x \<in> set ids \<longrightarrow> isl r) (tick_log I K topic worker ticks p)" by blast+
qed

lemma refused_every_tick:
  assumes "distinct (map o_id (outbox (p_db p)))" and "x \<in> set (outbox (p_db p))" and "o_published_at x = None"
    and "refused I K topic x" and "length (unpublished (p_db p)) \<le> 100" and "\<forall>now \<in> set ticks. claimable now x"
    and "sorted_wrt (\<lambda>s t. s + minute < t) ticks"
  shows "list_all (\<lambda>(ids, r). o_id x \<in> set ids) (tick_log I K topic worker ticks p)"
  using assms
proof (induction ticks arbitrary: p x)
  case (Cons now ticks)
  obtain p1 r where p1: "poll_once I K topic worker now 100 p = (p1, r)" by fastforce
  note less = tick_unpublished [OF p1]
  have "length (filter (claimable now) rs) \<le> length (filter (\<lambda>r. o_published_at r = None) rs)" for rs
    by (induction rs) (auto simp: claimable_def)
  then have "length (filter (claimable now) (outbox (p_db p))) \<le> length (unpublished (p_db p))"
    by (simp add: unpublished_def)
  then have now: "o_id x \<in> set (claimed_ids now 100 (p_db p))"
    using Cons.prems(2,5,6) by (intro claimed_all) auto
  from p1 Cons.prems(1-4) show ?case
  proof (cases rule: refused_tick)
    case taken
    let ?y = "claimed_row worker now x"
    have y: "o_published_at ?y = None" "refused I K topic ?y" "o_id ?y = o_id x"
      using Cons.prems(3,4) by (simp_all add: claimed_row_def) (simp add: claimed_row_def [symmetric])
    have "\<forall>t \<in> set ticks. claimable t ?y" using Cons.prems(6,7) by (auto simp: claimable_def claimed_row_def)
    moreover have "distinct (map o_id (outbox (p_db p1)))" "length (unpublished (p_db p1)) \<le> 100"
      using Cons.prems(1,5) less by simp_all
    ultimately show ?thesis using Cons.IH [of p1 ?y] taken(3) y Cons.prems(7) now p1 by simp
  qed (use now in simp)
qed simp

text \<open>
  Property C30: an event that the producer refuses is retried for ever and never put aside, in whatever order the
  rows of a batch come back. Every tick that takes the event ends with an exception; after any number of ticks
  the event is still not published, its retry time and its last error are what they were, and only the count
  of its attempts has grown, by the number of ticks that took it. While at most a hundred events wait,
  and the ticks are more than a minute apart, so that the lock of each has run out, every single tick takes
  it and ends so. (\<open>defer_outbox_event\<close>, which would put the event aside, is never called.)
\<close>

theorem refused_event_never_deferred:
  assumes "distinct (map o_id (outbox (p_db p)))" and "x \<in> set (outbox (p_db p))" and "o_published_at x = None"
    and "refused I K topic x"
  shows "case tick_log I K topic worker ticks p of ends \<Rightarrow>
      list_all (\<lambda>(ids, r). o_id x \<in> set ids \<longrightarrow> isl r) ends
      \<and> (\<exists>x' \<in> set (outbox (p_db (run_publisher I K topic worker ticks p))).
           o_id x' = o_id x \<and> o_published_at x' = None
           \<and> o_next_attempt_at x' = o_next_attempt_at x \<and> o_last_error x' = o_last_error x
           \<and> o_attempt_count x' = o_attempt_count x + int (length (filter (\<lambda>(ids, r). o_id x \<in> set ids) ends)))
      \<and> (length (unpublished (p_db p)) \<le> 100 \<and> (\<forall>now \<in> set ticks. claimable now x)
           \<and> sorted_wrt (\<lambda>s t. s + minute < t) ticks \<longrightarrow>
         list_all (\<lambda>(ids, r). o_id x \<in> set ids \<and> isl r) ends)"
proof -
  note ticks = refused_ticks [OF assms, of worker ticks]
  have "list_all (\<lambda>(ids, r). o_id x \<in> set ids \<and> isl r) (tick_log I K topic worker ticks p)"
    if "length (unpublished (p_db p)) \<le> 100" "\<forall>now \<in> set ticks. claimable now x" "sorted_wrt (\<lambda>s t. s + minute < t) ticks"
    using ticks(2) refused_every_tick [OF assms that, of worker] by (auto simp: list_all_iff split_beta)
  with ticks show ?thesis by (auto simp: retried_def)
qed

definition choosy_kafka :: kafka where
  "choosy_kafka = \<lparr>produce = (\<lambda>m. if mg_key m = uuid_str 7 then Some (LibraryError (U ''KafkaException'')) else None),
     delivers = (\<lambda>_. True)\<rparr>"

theorem refused_event_never_deferred_witness:
  "list_all (\<lambda>(ids, r). isl r) (tick_log id_interp choosy_kafka (U ''t'') (U ''w1'') [300, 100000000, 200000000] backlog)"
proof -
  have "refused id_interp choosy_kafka (U ''t'') demo_event"
  proof -
    obtain m where "message_of id_interp (U ''t'') demo_event = Inr m" "mg_key m = uuid_str (o_aggregate_id demo_event)"
      by (rule message_of_well_formed [OF demo_event_wf])
    then show ?thesis unfolding refused_def choosy_kafka_def backlog_rows(7) by simp
  qed
  moreover have "distinct (map o_id (outbox (p_db backlog)))" "demo_event \<in> set (outbox (p_db backlog))"
      "o_published_at demo_event = None" by (simp_all add: backlog_rows)
  ultimately have "list_all (\<lambda>(ids, r). o_id demo_event \<in> set ids \<and> isl r)
      (tick_log id_interp choosy_kafka (U ''t'') (U ''w1'') [300, 100000000, 200000000] backlog)"
    using refused_event_never_deferred [of backlog demo_event id_interp choosy_kafka "U ''t''" "U ''w1''" "[300, 100000000, 200000000]"]
    by (simp add: unpublished_def backlog_rows claimable_def minute_def)
  then show ?thesis by (auto simp: list_all_iff)
qed

end
