(* ===== verification/Ocr_Journey.thy ===== *)
theory Ocr_Journey
  imports Ocr_Inline Ocr_Drain
begin

text \<open>
  One document from its submission to its announcement: the servicer takes it, the worker tries its job,
  the publisher hands its event over, and the caller asks for the outcome.
\<close>

lemma run_job_steps:
  "list_all (\<lambda>(E, now, s1, s2). e_pg E = P) tries \<Longrightarrow> run_job document_id tries w = (w', r) \<Longrightarrow>
     (store_step P)\<^sup>*\<^sup>* (w_db w) (w_db w')"
proof (induction tries arbitrary: w)
  case (Cons att tries)
  obtain E now s1 s2 where t: "att = (E, now, s1, s2)" by (cases att)
  obtain w1 x where p: "process_document E now s1 s2 document_id w = (w1, x)" by fastforce
  have "(store_step P)\<^sup>*\<^sup>* (w_db w) (w_db w1)" using process_steps [OF p] Cons.prems(1) by (simp add: t)
  moreover have "w' = w1 \<or> run_job document_id tries w1 = (w', r)"
    using Cons.prems(2) p by (auto simp: t split: sum.splits if_splits)
  ultimately show ?case using Cons.IH Cons.prems(1) by (auto intro: rtranclp_trans)
qed simp

lemma submitted_row:
  assumes "SubmitDocument S cx now i rq a = (a1, Inr m)" and "wf_db (api_db a)"
  obtains key where "find_row d_id i (documents (api_db a1)) = Some (queued_row now key (submission_of cx i rq))"
    and "outbox (api_db a1) = outbox (api_db a)" and "sb_document_id m = uuid_str i" and "wf_db (api_db a1)"
  using assms(1)
proof (cases rule: SubmitDocument_cases)
  case (stored key)
  let ?row = "queued_row now key (submission_of cx i rq)"
  have row: "d_id ?row = i" by (simp add: queued_row_def submission_of_def)
  have d: "documents (api_db a1) = documents (api_db a) @ [?row]" "outbox (api_db a1) = outbox (api_db a)"
    using stored(6) by simp_all
  have wf: "wf_db (api_db a1)" using store_steps_wf [OF SubmitDocument_steps [OF assms(1)] assms(2)] .
  then have "distinct (map d_id (documents (api_db a1)))" by (simp add: wf_db_def)
  then have "find_row d_id i (documents (api_db a1)) = Some ?row"
    using find_row_in [of d_id "documents (api_db a1)" ?row] by (simp add: d row)
  then show thesis using that d(2) stored(7) wf by simp
qed simp_all

text \<open>
  Property C3: what the caller is answered and what is announced agree, whatever the driver, the file and
  the provider are at each of the tries. After a submission is answered, its job has run with
  any tries, and the publisher has had enough ticks with a producer that accepts messages: the caller,
  asking with the identifier of the answer, gets the row of the document, with the status of that row and, when it
  failed, its code and message. And either that row is settled, the publisher has handed over what was
  pending before and, exactly once, one event under the document's identifier, which tells the
  row, its error or its data; or the row is still processing, nothing was announced for it, and the job
  ended with an exception.
\<close>

theorem document_journey:
  assumes "SubmitDocument S cx now i rq a = (a1, Inr m)" and "wf_db (api_db a)"
    and "run_job (sb_document_id m) (attempt # attempts) (a_world a1) = (w, r)"
    and "\<forall>(E', x) \<in> set (attempt # attempts). e_pg E' = e_pg (sv_env S)"
    and "list_all (\<lambda>e. well_formed_event (o_payload e)) (outbox (api_db a))" and "\<forall>k. produce K k = None"
    and "p_db p = w_db w" and "length (unpublished (w_db w)) \<le> 100 * length ticks"
    and "\<forall>tick \<in> set ticks. \<forall>e \<in> set (outbox (w_db w)). o_published_at e = None \<longrightarrow> claimable tick e"
  shows "case run_publisher I K topic worker ticks p of
     p' \<Rightarrow> \<exists>d ms. find_row d_id i (documents (p_db p')) = Some d \<and> p_sent p' = p_sent p @ ms
       \<and> GetDocument S cx' (sb_document_id m) (set_db (p_db p') a1)
           = answer S cx' (row_to_document (e_pg (sv_env S)) d) (set_db (p_db p') a1)
       \<and> (\<forall>y. snd (GetDocument S cx' (sb_document_id m) (set_db (p_db p') a1)) = Inr y \<longrightarrow>
            rs_document_id y = uuid_str i \<and> map_of status_map (d_status d) = Some (rs_status y)
            \<and> (rs_error y \<noteq> None \<longleftrightarrow> d_status d = U ''failed''))
       \<and> ((d_status d \<in> set terminal_statuses
            \<and> (\<exists>ev. tells d ev
                 \<and> mset (map said ms) = mset (map announces (unpublished (api_db a))) + {#(uuid_str i, o_payload ev)#}))
          \<or> (d_status d = U ''processing'' \<and> (\<exists>e. r = Inl e)
             \<and> mset (map said ms) = mset (map announces (unpublished (api_db a)))))"
proof -
  let ?p' = "run_publisher I K topic worker ticks p" and ?P = "e_pg (sv_env S)"
  obtain key where row: "find_row d_id i (documents (api_db a1)) = Some (queued_row now key (submission_of cx i rq))"
    and out: "outbox (api_db a1) = outbox (api_db a)" and m: "sb_document_id m = uuid_str i" and wf1: "wf_db (api_db a1)"
    by (rule submitted_row [OF assms(1,2)])
  let ?d = "queued_row now key (submission_of cx i rq)"
  have proc: "processable (d_status ?d)" by (simp add: queued_row_def processable_def)
  have id: "py_uuid (sb_document_id m) = Some i" by (simp add: m py_uuid_str)
  have "comes_to i ?d (api_db a1) (w_db w) r"
    using job_comes_to [OF assms(3) list.distinct(2) id row [unfolded api_db_world] proc] unfolding api_db_world by blast
  then consider
      (settled) d ev where "find_row d_id i (documents (w_db w)) = Some d" "d_status d \<in> set terminal_statuses"
        "outbox (w_db w) = outbox (api_db a) @ [ev]" "tells d ev"
    | (kept) e t where "r = Inl e" "outbox (w_db w) = outbox (api_db a)"
        "find_row d_id i (documents (w_db w)) = Some (marked_row ?d t)"
    unfolding comes_to_def out by blast
  then obtain d new where d: "find_row d_id i (documents (w_db w)) = Some d" "outbox (w_db w) = outbox (api_db a) @ new"
      "list_all (\<lambda>e. well_formed_event (o_payload e) \<and> o_published_at e = None) new"
      "(d_status d \<in> set terminal_statuses \<and> (\<exists>ev. new = [ev] \<and> tells d ev))
        \<or> (d_status d = U ''processing'' \<and> (\<exists>e. r = Inl e) \<and> new = [])"
  proof cases
    case (settled d ev)
    moreover have "well_formed_event (o_payload ev)" "o_published_at ev = None" using settled(4) by (simp_all add: tells_def)
    ultimately show thesis using that [of d "[ev]"] by simp
  next
    case (kept e t)
    then show thesis using that [of "marked_row ?d t" "[]"] by simp
  qed
  have "list_all (\<lambda>(E, now, s1, s2). e_pg E = ?P) (attempt # attempts)" using assms(4) by (auto simp: list_all_iff)
  from run_job_steps [OF this assms(3)] have wf: "wf_db (w_db w)" using store_steps_wf wf1 by (metis api_db_world)
  have "list_all (\<lambda>e. well_formed_event (o_payload e)) (outbox (p_db p))"
    using assms(5) d(3) by (auto simp: assms(7) d(2) list_all_iff)
  moreover have "distinct (map o_id (outbox (p_db p)))" using wf by (simp add: assms(7) wf_db_def)
  ultimately obtain ms where ms: "documents (p_db ?p') = documents (w_db w)" "p_sent ?p' = p_sent p @ ms"
      "mset (map said ms) = mset (map announces (unpublished (w_db w)))"
    using backlog_drains [of p K ticks I topic worker] assms(6,8,9) by (auto simp: assms(7))
  have "unpublished (w_db w) = unpublished (api_db a) @ new"
    using d(3) by (auto simp: unpublished_def d(2) list_all_iff filter_id_conv)
  then have said: "mset (map said ms) = mset (map announces (unpublished (api_db a))) + mset (map announces new)"
    using ms(3) by simp
  let ?a = "set_db (p_db ?p') a1" and ?doc = "row_to_document ?P d"
  have i: "d_id d = i" using find_row_Some [OF d(1)] by simp
  have found: "find_row d_id i (documents (p_db ?p')) = Some d" using d(1) ms(1) by simp
  then have get: "GetDocument S cx' (sb_document_id m) ?a = answer S cx' ?doc ?a"
    by (simp add: GetDocument_def id get_document_def)
  have "rs_document_id y = uuid_str i \<and> map_of status_map (d_status d) = Some (rs_status y)
      \<and> (rs_error y \<noteq> None \<longleftrightarrow> d_status d = U ''failed'')" if "snd (answer S cx' ?doc ?a) = Inr y" for y
  proof -
    have "response_for (e_libs (sv_env S)) (sv_protobuf S) ?doc = Inr y" using that by (simp add: answer_def split: sum.splits)
    from response_shape [OF this] show ?thesis by (simp add: row_to_document_def i)
  qed
  moreover have "(d_status d \<in> set terminal_statuses
        \<and> (\<exists>ev. tells d ev \<and> mset (map said ms) = mset (map announces (unpublished (api_db a))) + {#(uuid_str i, o_payload ev)#}))
      \<or> (d_status d = U ''processing'' \<and> (\<exists>e. r = Inl e) \<and> mset (map said ms) = mset (map announces (unpublished (api_db a))))"
    using d(4) said by (auto simp: announces_def tells_def i)
  ultimately show ?thesis using found get ms(2)
    by (intro exI [of _ d] exI [of _ ms]) simp
qed

text \<open>Two tries, the second with a storage that has lost the object.\<close>

definition journey_tries :: "attempt list" where
  "journey_tries = [(strict_env, 200, demo_stamp, demo_stamp), (gone_env, 300, demo_stamp, demo_stamp)]"

definition journey_world :: world where
  "journey_world = fst (run_job (uuid_str 7) journey_tries
     (a_world (fst (SubmitDocument demo_servicer demo_context 100 7 demo_request api_init))))"

lemma journey_outbox:
  "list_all (\<lambda>e. claimable 600 e) (outbox (w_db journey_world)) \<and> length (outbox (w_db journey_world)) = 1"
  by code_simp

lemma journey_run:
  "snd (run_job (uuid_str 7) journey_tries (a_world (fst (SubmitDocument demo_servicer demo_context 100 7 demo_request api_init))))
     = Inr ()"
  by code_simp

theorem document_journey_witness:
  "case run_publisher id_interp lossy_kafka (U ''t'') (U ''w1'') [600] (demo_pub\<lparr>p_db := w_db journey_world, p_sent := []\<rparr>) of
     p' \<Rightarrow> \<exists>d k. find_row d_id 7 (documents (p_db p')) = Some d \<and> d_status d \<in> set terminal_statuses
       \<and> p_sent p' = [k] \<and> mg_key k = uuid_str 7"
proof -
  let ?sub = "SubmitDocument demo_servicer demo_context 100 7 demo_request api_init"
  let ?p = "demo_pub\<lparr>p_db := w_db journey_world, p_sent := []\<rparr>"
  obtain a1 m where sub: "?sub = (a1, Inr m)" and m: "sb_document_id m = uuid_str 7"
    using demo_SubmitDocument_ok by simp
  have w: "journey_world = fst (run_job (uuid_str 7) journey_tries (a_world a1))" by (simp add: journey_world_def sub)
  have r: "run_job (sb_document_id m) ((strict_env, 200, demo_stamp, demo_stamp) # [(gone_env, 300, demo_stamp, demo_stamp)])
      (a_world a1) = (journey_world, Inr ())"
    using journey_run by (simp add: m w sub prod_eq_iff journey_tries_def)
  have db0: "api_db api_init = db_init" "outbox db_init = []" by (simp_all add: api_db_def db_init_def)
  have wf: "wf_db (api_db api_init)" by (simp add: db0 db_init_wf)
  have envs: "\<forall>(E', x) \<in> set ((strict_env, 200, demo_stamp, demo_stamp) # [(gone_env, 300, demo_stamp, demo_stamp)]).
      e_pg E' = e_pg (sv_env demo_servicer)" by (simp add: gone_env_def)
  have few: "length (unpublished (w_db journey_world)) \<le> 100 * length [600 :: int]"
    using journey_outbox length_filter_le [of "\<lambda>r. o_published_at r = None" "outbox (w_db journey_world)"] by (simp add: unpublished_def)
  have free: "\<forall>tick \<in> set [600]. \<forall>e \<in> set (outbox (w_db journey_world)). o_published_at e = None \<longrightarrow> claimable tick e"
    using journey_outbox by (simp add: list_all_iff)
  have no_events: "list_all (\<lambda>e. well_formed_event (o_payload e)) (outbox (api_db api_init))"
      "unpublished (api_db api_init) = []" by (simp_all add: db0 unpublished_def)
  have K: "\<forall>k. produce lossy_kafka k = None" by (simp add: lossy_kafka_def)
  have p: "p_db ?p = w_db journey_world" "p_sent ?p = []" by simp_all
  obtain d ms payload where j: "find_row d_id 7 (documents (p_db (run_publisher id_interp lossy_kafka (U ''t'') (U ''w1'') [600] ?p))) = Some d"
      "d_status d \<in> set terminal_statuses"
      "p_sent (run_publisher id_interp lossy_kafka (U ''t'') (U ''w1'') [600] ?p) = ms"
      "mset (map said ms) = {#(uuid_str 7, payload)#}"
    using document_journey [OF sub wf r envs no_events(1) K p(1) few free,
        of id_interp "U ''t''" "U ''w1''" demo_context] by (auto simp: no_events(2))
  have "size (mset (map said ms)) = 1" by (simp only: j(4) size_single)
  then obtain k where "ms = [k]" by (auto simp: length_Suc_conv)
  then show ?thesis using j by (auto simp: said_def)
qed

end
