(* ===== verification/Spec2Isabelle.thy ===== *)
theory Spec2Isabelle
  imports Ocr_Progress Ocr_Sync Ocr_Answers Ocr_Metrics Ocr_Migrations Ocr_Scripts Ocr_Shutdown
    Ocr_Semaphore Ocr_Journey
begin

text \<open>
  A verification library for the OCR engine (\<open>src/ocr_engine\<close>).

  \<^bold>\<open>The program.\<close> The engine takes documents from a gateway over gRPC, recognises them, extracts
  the fields of a schema and announces the result. The servicer (\<open>api/servicer.py\<close>) validates a
  submission, inserts a row in the table \<open>documents\<close> and enqueues a job; the worker
  (\<open>worker/settings.py\<close>) runs the pipeline (\<open>pipeline/pipeline.py\<close>) on a job: download
  (\<open>pipeline/download.py\<close>), inspection (\<open>pipeline/inspect_file.py\<close>), the text layer or the
  recognition provider (\<open>ocr/baidu.py\<close>), extraction (\<open>extraction/*.py\<close>), and one transaction that
  writes the terminal row together with an event in \<open>outbox_events\<close> (\<open>repo/store.py\<close>); the publisher
  (\<open>events/publisher.py\<close>) hands the events to Kafka. A synchronous call runs the pipeline inline.
  The processes share the database and nothing else.

  \<^bold>\<open>The theories\<close>, in the order of the imports:
  \<^item> \<open>Ocr_Prelude\<close>: results of fallible code (\<open>'e + 'a\<close>, \<open>rbind\<close>, \<open>rmap\<close>), rows found by a key.
  \<^item> \<open>Ocr_Python\<close>, \<open>Ocr_Uuid\<close>, \<open>Ocr_Float\<close>, \<open>Ocr_Regex\<close>: the part of Python the code is written in:
    strings of code points, dynamic values, exceptions; \<open>uuid.UUID\<close>; binary64 on finite values, as
    rationals with \<open>rnd\<close> rounding to nearest even; a backtracking matcher for \<open>re\<close>.
  \<^item> \<open>Ocr_Settings\<close>: \<open>settings.py\<close>. \<open>Ocr_Schema\<close>: \<open>extraction/schema.py\<close>, \<open>ocr/base.py\<close>.
    \<open>Ocr_Money\<close>, \<open>Ocr_Extract\<close>, \<open>Ocr_Validate\<close>: \<open>extraction/money.py\<close>, \<open>extract.py\<close>, \<open>validate.py\<close>.
  \<^item> \<open>Ocr_Inspect\<close>, \<open>Ocr_Download\<close>: \<open>pipeline/inspect_file.py\<close>, \<open>download.py\<close>. \<open>Ocr_Lines\<close>: the
    interface \<open>line_source\<close> between recognition and extraction. \<open>Ocr_Requests\<close>, \<open>Ocr_Baidu\<close>: what
    \<open>ocr/baidu.py\<close> sends and how it reads the answers, and \<open>ocr/registry.py\<close>.
  \<^item> \<open>Ocr_Store\<close>: \<open>repo/store.py\<close> and the tables of the migrations 0002 and 0003; the relation
    \<open>store_step\<close> has one rule per operation. \<open>Ocr_Lifecycle\<close>: the abstract specification of the
    repository, a life cycle of each document, and the simulation.
  \<^item> \<open>Ocr_Envelope\<close>, \<open>Ocr_Publisher\<close>: \<open>events/envelope.py\<close>, \<open>events/publisher.py\<close>.
  \<^item> \<open>Ocr_Pipeline\<close>: \<open>pipeline/pipeline.py\<close>. \<open>Ocr_Worker\<close>: \<open>worker/settings.py\<close>.
  \<^item> \<open>Ocr_Servicer\<close>, \<open>Ocr_Sync\<close>, \<open>Ocr_Answers\<close>: \<open>api/servicer.py\<close>: the calls and \<open>SubmitDocument\<close>,
    \<open>ProcessDocument\<close>, the answers and \<open>GetDocument\<close>.
  \<^item> \<open>Ocr_System\<close>: the processes together, an interleaving of their operations (\<open>sys_step\<close>).
  \<^item> \<open>Ocr_Rely\<close>: the locale \<open>interference\<close>, a family of processes that advance one statement at a time on
    a shared state, each with an assertion that the others keep; \<open>Ocr_Tries\<close>, \<open>Ocr_Ticks\<close>,
    \<open>Ocr_Inline\<close> and \<open>Ocr_Overlap\<close>: the statements of \<open>process_document\<close>, of \<open>poll_once\<close> and the
    retention sweep, of \<open>ProcessDocument\<close> with the pipeline it runs, and of \<open>SubmitDocument\<close>, each of
    which may also fail with the loss of its connection, before or after it took effect; the tries,
    ticks, sweeps and synchronous calls are interpretations of the locale. \<open>Ocr_Concurrent\<close>: all of
    them in flight together (\<open>plant_step\<close>). \<open>Ocr_Progress\<close>: the locale \<open>progressing\<close>, a measure that every
    statement of a process decreases, interpreted for each of them.
  \<^item> \<open>Ocr_Semaphore\<close>: the recognition stage (\<open>_ocr_lines\<close>) await by await, any number of runs on one
    \<open>asyncio.Semaphore\<close>, each of which may be cancelled (\<open>stage_step\<close>). \<open>Ocr_Drain\<close>: the publisher's loop
    over many ticks. \<open>Ocr_Journey\<close>: one document through servicer, worker, publisher and \<open>GetDocument\<close>.
  \<^item> \<open>Ocr_Metrics\<close>: \<open>obs/metrics.py\<close> and what the pipeline, the publisher and the servicer record.
    \<open>Ocr_Process\<close>: what the processes are started with (\<open>cli/*.py\<close>, \<open>obs/*.py\<close>, \<open>api/server.py\<close>).
    \<open>Ocr_Shutdown\<close>: what they open and close. \<open>Ocr_Migrations\<close>: \<open>migrations/env.py\<close> and the revisions
    0001 to 0003, on a catalog of tables, checks and indexes.
    \<open>Ocr_Scripts\<close>: \<open>scripts/*.py\<close>.

  \<^bold>\<open>Correspondence.\<close> A class of the code is a record with its attributes, a function or method a
  definition of the same name (a leading underscore dropped), and every exception a value of
  \<open>exn\<close>: a function that may raise returns \<open>exn + 'a\<close>, so early returns, handlers and
  re-raises are branches of the definitions. A cancellation is the exception \<open>CancelledError\<close>, which
  \<open>except Exception\<close> does not catch. A table is a list of rows in insertion order; a statement
  is a function from database to database, a transaction that fails leaves the database as it was.
  Times are integers (microseconds) and identifiers 128-bit words; what a call draws from the clock
  and from \<open>uuid4\<close> is an argument.

  \<^bold>\<open>What is a parameter.\<close> Code that is not in the repository is an argument of the definitions: the
  object storage, the HTTP client, the provider, PyMuPDF and Pillow (\<open>media\<close>), rapidfuzz,
  dateparser, the compiler of regular expressions and the coercions of pydantic (\<open>libs\<close>), the YAML
  parser, what asyncpg and PostgreSQL accept for a column and how they give a UUID back (\<open>pg\<close>), the
  Kafka producer, the job queue, the protobuf runtime (\<open>protobuf\<close>) and Alembic. The servicer also takes
  what may go wrong on its way to the database and the queue: the reply to the committed INSERT is lost
  (\<open>sv_lost\<close>), the queue refuses the job or the call is cancelled there (\<open>sv_enqueue\<close>), the DELETE of
  the rollback fails, before or after it took effect (\<open>sv_delete\<close>). Where a property relies on
  them its hypothesis says so (\<open>wf_libs\<close>, \<open>documented_protobuf\<close>, a producer that accepts), and its witness
  instantiates them. The properties of the pipeline, the job and the synchronous call do not suppose
  that a write of a result is accepted: they hold whatever driver and database answer.

  \<^bold>\<open>What is proved.\<close>
  \<^item> Money and extraction: a parsed amount is the signed value of one delimited token of the text;
    parsing a formatted amount gives back its absolute value, since the sign before \<open>Rp\<close> is lost; with a well-formed schema extraction is total; every value
    comes from a given line; the status of a document follows from its fields and thresholds.
  \<^item> Recognition: the token of the provider only goes out over https and the payload decodes to the
    file; the lines that leave the provider are clean, encoding and normalising is the
    identity on clean lines, the polling loop ends, and transport errors are wrapped.
  \<^item> Files: only an allowed object is asked for, a download is within its cap, and a run leaves no
    file behind unless it is cancelled.
  \<^item> The database: an invariant of every reachable state, idempotent submission, exclusive claims,
    and the refinement of the life cycle.
  \<^item> The pipeline and the worker: a run settles its document with one event that tells its row, or raises and
    leaves it processing for the next try, and touches no other row; a job does one of the two with all its
    tries together; what is announced of an accepted document and what \<open>GetDocument\<close> answers about it agree.
  \<^item> The servicer: a submission answered QUEUED is stored with its job, one answered with an error leaves
    nothing behind, but for the failures that strand the row, which are listed; a repeated key names the
    original, the answer shows what was stored.
  \<^item> The system: under any interleaving of the processes' operations no document is lost without its caller being
    told; and under any
    interleaving of their statements, with lost connections, answered submissions keep their promise,
    tries that ended and synchronous calls that replied have settled their document, no key is given to
    two documents and published events were handed over. Lemmas tie the two models together: the statements of a
    process that nothing interrupts are the operation (\<open>uninterrupted_submission\<close>,
    \<open>uninterrupted_inline\<close>, \<open>uninterrupted_try\<close>, \<open>uninterrupted_tick\<close>, \<open>uninterrupted_sweep\<close>), and each process is
    over after a bounded number of its statements (\<open>every_process_ends\<close>; the loops inside a
    statement have their own: \<open>poll_job_terminates\<close> for the polling, \<open>ocr_stage_ends\<close> for the semaphore).
  \<^item> The recognition stage: never more runs in it than the settings allow, no place is lost by a
    cancellation or an error, and there is no deadlock. The publisher: a backlog is worked off, each event
    handed over once.
  \<^item> Operation: the counters agree with the database, the migrations create the schema that the
    model of the repository presupposes (\<open>schema_fits_store\<close>), and the downgrades drop it again, all but the extension.

  The theorems also pin down where the code does not do what it means to:
  \<open>process_never_completes\<close>, \<open>uuid_key_blocks_finish\<close>, \<open>cleanup_starves\<close>,
  \<open>failed_submission_strands\<close>, \<open>sync_transient_strands\<close>, \<open>published_without_ack\<close>,
  \<open>newline_key_unhandled\<close>, \<open>scanned_pages_lost\<close>, \<open>rollback_race\<close>, \<open>late_settlement_accepted\<close>,
  \<open>lost_acknowledgement\<close>, \<open>refused_event_never_deferred\<close>, \<open>sync_cancelled_fails\<close>, \<open>api_shutdown_raises\<close>, \<open>old_server_refused\<close>.

  \<^bold>\<open>Bounds and fuel.\<close> The matcher's loops carry the length of the rest of the text as fuel, which each
  iteration shortens, so it is never used up before the loop ends. The polling loop of the provider
  may run for ever and is a partial function with \<open>None\<close> for that; \<open>poll_job_terminates\<close> shows that
  it returns, within a bounded number of rounds, when the clock advances. The other loops recurse on
  data or have a termination proof.

  \<^bold>\<open>Not modelled.\<close> Spans and log lines; the event loop and the delivery of signals; the export of the
  telemetry; generated code. The clock readings that the histograms record are arguments. In
  \<open>Ocr_System\<close> each operation of a process is one step; in \<open>Ocr_Concurrent\<close> each statement is, except
  that the download and the analysis of a file, which touch no shared state but the temporary
  directory, are one; \<open>Ocr_Semaphore\<close> takes the recognition, the only part of it that shares something
  (the semaphore), apart on its own. The rows that a claim returns come in the order of the table, where
  PostgreSQL leaves the order of \<open>RETURNING\<close> open, and documents that were processed at the same microsecond
  are taken by the sweep in the order of the table, where it leaves ties open. NaN and infinite floats are left out. Imports,
  docstrings and the declarations of loggers have no counterpart.
\<close>

end
